(* ===== verification/Kernel_Prelude.thy ===== *)
theory Kernel_Prelude
  imports Main "HOL-Library.Word"
begin

text \<open>
  The shared ground of the development: how a kernel routine fails, how the C integer types
  are represented, and the byte-addressed physical memory with its little-endian loads and
  stores. Every component theory imports this one.

  \<^item> \<open>kfault\<close> is the way a kernel routine can end without returning: a failed \<open>assert\<close>
    (\<open>assert_fail(__FILE__, __LINE__, \<dots>)\<close>), an explicit \<open>panic\<close>, a page fault of the kernel, or
    undefined behaviour of C. A routine that can fail returns \<open>kfault + 'a\<close>, with \<open>Inl\<close> for the failure.
  \<^item> \<open>uintptr_t\<close>, \<open>uint64_t\<close> and \<open>size_t\<close> are \<open>64 word\<close>, \<open>uint8_t\<close> and \<open>int8_t\<close> are
    \<open>8 word\<close>; a C \<open>int\<close> is a HOL \<open>int\<close> where its value stays in range, with every
    narrowing cast written out.
  \<^item> \<open>memory\<close> is physical memory, one byte per 64-bit address.
\<close>

unbundle bit_operations_syntax

section \<open>Failure\<close>

datatype kfault =
    Assert_fail string nat     \<comment> \<open>\<open>assert_fail(file, line, msg)\<close>\<close>
  | Panic_call "string option" \<comment> \<open>\<open>panic(format, \<dots>)\<close>; \<open>None\<close> is \<open>panic(NULL)\<close>\<close>
  | Page_fault "64 word"       \<comment> \<open>the kernel itself touched an unmapped address\<close>
  | Undefined_behaviour        \<comment> \<open>C leaves the result open: an array index out of range, a bad \<open>va_arg\<close>\<close>

definition bindR :: "kfault + 'a \<Rightarrow> ('a \<Rightarrow> kfault + 'b) \<Rightarrow> kfault + 'b" where
  "bindR r f = (case r of Inl e \<Rightarrow> Inl e | Inr x \<Rightarrow> f x)"

definition assertR :: "string \<Rightarrow> nat \<Rightarrow> bool \<Rightarrow> kfault + unit" where
  "assertR file line b = (if b then Inr () else Inl (Assert_fail file line))"

lemma bindR_simps [simp]:
  "bindR (Inl e) f = Inl e"
  "bindR (Inr x) f = f x"
  by (simp_all add: bindR_def)

lemma bindR_eq_Inr: "bindR r f = Inr y \<longleftrightarrow> (\<exists>x. r = Inr x \<and> f x = Inr y)"
  by (cases r) auto

lemma bindR_eq_Inl: "bindR r f = Inl e \<longleftrightarrow> r = Inl e \<or> (\<exists>x. r = Inr x \<and> f x = Inl e)"
  by (cases r) auto

lemma assertR_True [simp]: "assertR file line True = Inr ()"
  by (simp add: assertR_def)

lemma assertR_False [simp]: "assertR file line False = Inl (Assert_fail file line)"
  by (simp add: assertR_def)

lemma assertR_eq_Inr: "assertR file line b = Inr u \<longleftrightarrow> b"
  by (cases b) auto

text \<open>A loop that only checks: the first failure ends it.\<close>

primrec allR :: "('a \<Rightarrow> kfault + unit) \<Rightarrow> 'a list \<Rightarrow> kfault + unit" where
  "allR f [] = Inr ()"
| "allR f (x # xs) = bindR (f x) (\<lambda>_. allR f xs)"

text \<open>A loop that updates a state and may fail.\<close>

primrec foldR :: "('a \<Rightarrow> 's \<Rightarrow> kfault + 's) \<Rightarrow> 'a list \<Rightarrow> 's \<Rightarrow> kfault + 's" where
  "foldR f [] s = Inr s"
| "foldR f (x # xs) s = bindR (f x s) (foldR f xs)"

lemma allR_Inr: "allR f xs = Inr () \<longleftrightarrow> (\<forall>x \<in> set xs. f x = Inr ())"
  by (induction xs) (auto simp: bindR_eq_Inr)

lemma allR_Inl: "allR f xs = Inl e \<Longrightarrow> \<exists>x \<in> set xs. f x = Inl e"
  by (induction xs) (auto simp: bindR_eq_Inl)

lemma foldR_inv:
  assumes "\<And>x s. x \<in> set xs \<Longrightarrow> P s \<Longrightarrow> \<exists>s'. f x s = Inr s' \<and> P s'" "P s"
  shows "\<exists>s'. foldR f xs s = Inr s' \<and> P s'"
  using assms
proof (induction xs arbitrary: s)
  case (Cons x xs)
  from Cons.prems(1)[of x s] Cons.prems(2) obtain s1 where "f x s = Inr s1" "P s1" by auto
  with Cons.IH[of s1] Cons.prems(1) show ?case by simp
qed simp

lemma foldR_append: "foldR f (xs @ ys) s = bindR (foldR f xs s) (foldR f ys)"
proof (induction xs arbitrary: s)
  case (Cons x xs)
  then show ?case by (cases "f x s") simp_all
qed simp

section \<open>Words\<close>

named_theorems page_simps
  \<open>rewriting of page-aligned addresses, page numbers and page-table indices\<close>

lemma unat_of_nat64: "n < 2 ^ 64 \<Longrightarrow> unat (of_nat n :: 64 word) = n"
  by (simp add: unat_of_nat take_bit_nat_eq_self)

lemma unat_of_nat_diff64:
  assumes "a < 2 ^ 64" "b < 2 ^ 64"
  shows "unat (of_nat a - of_nat b :: 64 word) = (if b \<le> a then a - b else 2 ^ 64 - (b - a))"
proof (cases "b \<le> a")
  case True
  then have eq: "(of_nat a - of_nat b :: 64 word) = of_nat (a - b)" by simp
  from True assms show ?thesis
    unfolding eq by (subst unat_of_nat64) auto
next
  case False
  then have eq: "(of_nat a - of_nat b :: 64 word) = of_nat (2 ^ 64 - (b - a))"
    using assms by (simp add: of_nat_diff)
  from False assms show ?thesis
    unfolding eq by (subst unat_of_nat64) auto
qed

lemma mask12: "(0xFFF :: 64 word) = mask 12"
  by (simp add: mask_eq_exp_minus_1)

lemma and_FFF_mod: "(w :: 64 word) AND 0xFFF = w mod 4096"
  by (simp add: mask12 take_bit_eq_mod flip: take_bit_eq_mask)

lemma take_bit12_small: "(off :: 64 word) < 4096 \<Longrightarrow> take_bit 12 off = off"
  by (simp add: word_unat_eq_iff unsigned_take_bit_eq take_bit_nat_eq_self word_less_nat_alt)

lemma bits_below_page: "(off :: 64 word) < 4096 \<Longrightarrow> bit off n \<Longrightarrow> n < 12"
  by (metis take_bit12_small bit_take_bit_iff)

lemma bits_of_aligned: "P AND 0xFFF = 0 \<Longrightarrow> bit (P :: 64 word) n \<Longrightarrow> 12 \<le> n"
  by (metis mask12 take_bit_eq_mask bit_take_bit_iff bit_0_eq bot_apply not_le bot_bool_def)

lemma aligned_plus_or:
  assumes "P AND 0xFFF = 0" "(off :: 64 word) < 4096"
  shows "P + off = P OR off"
proof (rule disjunctive_add_eq_or, rule bit_word_eqI)
  fix n
  assume "n < LENGTH(64)"
  show "bit (P AND off) n = bit 0 n"
    using bits_of_aligned[OF assms(1), of n] bits_below_page[OF assms(2), of n]
    by (auto simp: bit_simps)
qed

lemma aligned_plus_addr [page_simps]:
  assumes "P AND 0xFFF = 0" "(off :: 64 word) < 4096"
  shows "(P + off) AND NOT 0xFFF = P"
  using bits_of_aligned[OF assms(1)] bits_below_page[OF assms(2)]
  by (auto simp: aligned_plus_or[OF assms] bit_simps mask12 intro!: bit_word_eqI)
     (metis linorder_not_le)+

lemma aligned_plus_off [page_simps]:
  assumes "P AND 0xFFF = 0" "(off :: 64 word) < 4096"
  shows "(P + off) AND 0xFFF = off"
  using bits_of_aligned[OF assms(1)] bits_below_page[OF assms(2)]
  by (auto simp: aligned_plus_or[OF assms] bit_simps mask12 intro!: bit_word_eqI)
     (metis linorder_not_le)+

lemma aligned_self [page_simps]: "P AND 0xFFF = 0 \<Longrightarrow> (P :: 64 word) AND NOT 0xFFF = P"
  using aligned_plus_addr[of P 0] by simp

lemma and_not_FFF_aligned [page_simps]: "((w :: 64 word) AND NOT 0xFFF) AND 0xFFF = 0"
  by (rule bit_word_eqI) (auto simp: bit_simps)

lemma addr_plus_off: "((w :: 64 word) AND NOT 0xFFF) + (w AND 0xFFF) = w"
proof -
  have "(w AND NOT 0xFFF) + (w AND 0xFFF) = (w AND NOT 0xFFF) OR (w AND 0xFFF)"
    by (rule disjunctive_add_eq_or, rule bit_word_eqI) (auto simp: bit_simps)
  also have "\<dots> = w" by (rule bit_word_eqI) (auto simp: bit_simps)
  finally show ?thesis .
qed

lemma and_FFF_less: "(w :: 64 word) AND 0xFFF < 4096"
  by (simp add: and_FFF_mod word_mod_less_divisor)

section \<open>Physical memory\<close>

type_synonym memory = "64 word \<Rightarrow> 8 word"

text \<open>A little-endian load of \<open>n\<close> bytes at \<open>a\<close>, and the store of the low \<open>n\<close> bytes of \<open>v\<close>.\<close>

primrec load_le :: "memory \<Rightarrow> 64 word \<Rightarrow> nat \<Rightarrow> 'a::len word" where
  "load_le m a 0 = 0"
| "load_le m a (Suc n) = ucast (m a) OR push_bit 8 (load_le m (a + 1) n)"

definition store_le :: "memory \<Rightarrow> 64 word \<Rightarrow> nat \<Rightarrow> 'a::len word \<Rightarrow> memory" where
  "store_le m a n v =
     (\<lambda>x. if unat (x - a) < n then ucast (drop_bit (8 * unat (x - a)) v) else m x)"

lemma bit_load_le:
  "bit (load_le m a n :: 'a::len word) k \<longleftrightarrow>
     k < LENGTH('a) \<and> k < 8 * n \<and> bit (m (a + of_nat (k div 8))) (k mod 8)"
proof (induction n arbitrary: a k)
  case 0
  then show ?case by simp
next
  case (Suc n)
  show ?case
  proof (cases "k < 8")
    case True
    then show ?thesis by (auto simp: bit_simps)
  next
    case False
    then have "\<not> bit (m a) k" using bit_imp_le_length by fastforce
    moreover have "k div 8 = Suc ((k - 8) div 8)" "(k - 8) mod 8 = k mod 8"
      using False by (simp_all add: le_div_geq le_mod_geq)
    ultimately show ?thesis using False by (auto simp: bit_simps Suc add.assoc)
  qed
qed

lemma load_store_le_same:
  assumes "LENGTH('a) \<le> 8 * n" "n < 2 ^ 64"
  shows "load_le (store_le m a n v) a n = (v :: 'a::len word)"
proof (rule bit_word_eqI)
  fix k
  assume k: "k < LENGTH('a)"
  then have j: "k div 8 < n" using assms by auto
  then have "unat (of_nat (k div 8) :: 64 word) = k div 8"
    using assms(2) by (intro unat_of_nat64) auto
  then show "bit (load_le (store_le m a n v) a n :: 'a word) k = bit v k"
    using k j assms by (auto simp: bit_load_le store_le_def bit_simps)
qed

lemma load_le_cong:
  assumes "\<And>j. j < n \<Longrightarrow> m (a + of_nat j) = m' (a + of_nat j)"
  shows "load_le m a n = (load_le m' a n :: 'a::len word)"
  using assms
proof (induction n arbitrary: a)
  case 0
  then show ?case by simp
next
  case (Suc n)
  have "m a = m' a" using Suc.prems[of 0] by simp
  moreover have "load_le m (a + 1) n = (load_le m' (a + 1) n :: 'a word)"
    by (rule Suc.IH) (use Suc.prems[of "Suc _"] in \<open>simp add: add.assoc\<close>)
  ultimately show ?case by simp
qed

lemma store_le_outside: "n \<le> unat (x - a) \<Longrightarrow> store_le m a n v x = m x"
  by (simp add: store_le_def)

lemma unat_range: "unat a + n \<le> 0x400000 \<Longrightarrow> i < n \<Longrightarrow> unat (a + of_nat i :: 64 word) = unat a + i"
  by (simp add: unat_word_ariths unat_of_nat)

end
