(* ===== verification/X86_64.thy ===== *)
theory X86_64
  imports Kernel_Prelude
begin

text \<open>
  The machine interface of \<open>x86-64.h\<close> and the shared constants of \<open>kernel.h\<close> and
  \<open>lib.h\<close>: paged-memory macros, page-table entries in physical memory, saved registers and
  the \<open>vamapping\<close> record. The macros are definitions of the same name; a page table is the
  address of a page that holds 512 little-endian 64-bit entries. The lemmas say how the
  macros act on addresses read as natural numbers, and that entries behave like the cells of
  an array: reading after writing the same entry gives the value, other entries and other
  pages are untouched.
\<close>

unbundle bit_operations_syntax

section \<open>Constants\<close>

abbreviation (input) PAGEOFFBITS :: nat where "PAGEOFFBITS \<equiv> 12"
abbreviation (input) PAGESIZE :: "64 word" where "PAGESIZE \<equiv> 4096"
abbreviation (input) PAGEINDEXBITS :: nat where "PAGEINDEXBITS \<equiv> 9"
abbreviation (input) NPAGETABLEENTRIES :: nat where "NPAGETABLEENTRIES \<equiv> 512"

abbreviation (input) PTE_P :: "64 word" where "PTE_P \<equiv> 1"
abbreviation (input) PTE_W :: "64 word" where "PTE_W \<equiv> 2"
abbreviation (input) PTE_U :: "64 word" where "PTE_U \<equiv> 4"
abbreviation (input) PTE_PS :: "64 word" where "PTE_PS \<equiv> 128"

abbreviation (input) KERNEL_START_ADDR :: "64 word" where "KERNEL_START_ADDR \<equiv> 0x40000"
abbreviation (input) KERNEL_STACK_TOP :: "64 word" where "KERNEL_STACK_TOP \<equiv> 0x80000"
abbreviation (input) CONSOLE_ADDR :: "64 word" where "CONSOLE_ADDR \<equiv> 0xB8000"
abbreviation (input) PROC_START_ADDR :: "64 word" where "PROC_START_ADDR \<equiv> 0x100000"
abbreviation (input) MEMSIZE_PHYSICAL :: "64 word" where "MEMSIZE_PHYSICAL \<equiv> 0x200000"
abbreviation (input) MEMSIZE_VIRTUAL :: "64 word" where "MEMSIZE_VIRTUAL \<equiv> 0x300000"
abbreviation (input) NPAGES :: int where "NPAGES \<equiv> 512"
abbreviation (input) NPROC :: int where "NPROC \<equiv> 16"

section \<open>Address macros\<close>

definition PAGENUMBER :: "64 word \<Rightarrow> int" where
  "PAGENUMBER ptr = sint (ucast (drop_bit PAGEOFFBITS ptr) :: 32 word)"

definition PAGEADDRESS :: "int \<Rightarrow> 64 word" where
  "PAGEADDRESS pn = push_bit PAGEOFFBITS (word_of_int pn)"

text \<open>
  \<open>pageindex\<close> asserts that its level is between 0 and 3; the code only calls it with the
  literals and loop counters 0 to 3.
\<close>

definition pageindex :: "64 word \<Rightarrow> nat \<Rightarrow> nat" where
  "pageindex addr level =
     unat ((ucast (drop_bit (PAGEOFFBITS + (3 - level) * PAGEINDEXBITS) addr) :: 32 word) AND 0x1FF)"

definition PAGEOFFSET :: "64 word \<Rightarrow> 64 word" where
  "PAGEOFFSET addr = addr AND 0xFFF"

definition PTE_ADDR :: "64 word \<Rightarrow> 64 word" where
  "PTE_ADDR pageentry = pageentry AND NOT 0xFFF"

definition PTE_FLAGS :: "64 word \<Rightarrow> 64 word" where
  "PTE_FLAGS pageentry = pageentry AND 0xFFF"

section \<open>Records\<close>

record vamapping =
  vam_pn :: int          \<comment> \<open>physical page number; -1 if unmapped\<close>
  vam_pa :: "64 word"    \<comment> \<open>physical address; \<open>(uintptr_t) -1\<close> if unmapped\<close>
  vam_perm :: int        \<comment> \<open>permissions; 0 if unmapped\<close>

record x86_64_registers =
  reg_rax :: "64 word"
  reg_rcx :: "64 word"
  reg_rdx :: "64 word"
  reg_rbx :: "64 word"
  reg_rbp :: "64 word"
  reg_rsi :: "64 word"
  reg_rdi :: "64 word"
  reg_r8 :: "64 word"
  reg_r9 :: "64 word"
  reg_r10 :: "64 word"
  reg_r11 :: "64 word"
  reg_r12 :: "64 word"
  reg_r13 :: "64 word"
  reg_r14 :: "64 word"
  reg_r15 :: "64 word"
  reg_fs :: "64 word"
  reg_gs :: "64 word"
  reg_intno :: "64 word"
  reg_err :: "64 word"
  reg_rip :: "64 word"
  reg_cs :: "16 word"
  reg_rflags :: "64 word"
  reg_rsp :: "64 word"
  reg_ss :: "16 word"

section \<open>Page-table entries\<close>

definition pt_entry :: "memory \<Rightarrow> 64 word \<Rightarrow> nat \<Rightarrow> 64 word" where
  "pt_entry m pt i = load_le m (pt + 8 * of_nat i) 8"

definition set_pt_entry :: "memory \<Rightarrow> 64 word \<Rightarrow> nat \<Rightarrow> 64 word \<Rightarrow> memory" where
  "set_pt_entry m pt i v = store_le m (pt + 8 * of_nat i) 8 v"

abbreviation page_aligned :: "64 word \<Rightarrow> bool" where
  "page_aligned a \<equiv> PAGEOFFSET a = 0"

text \<open>
  The number of turns of \<open>for (addr = first; addr < last; addr += PAGESIZE)\<close>, for a \<open>last\<close> that
  is at least one page below the top of the address space, where the counter cannot wrap.
\<close>

definition pages_between :: "64 word \<Rightarrow> 64 word \<Rightarrow> nat" where
  "pages_between first lst = (unat lst - unat first + 4095) div 4096"

definition page_addrs :: "64 word \<Rightarrow> 64 word \<Rightarrow> 64 word list" where
  "page_addrs first lst = map (\<lambda>i. first + of_nat i * PAGESIZE) [0..<pages_between first lst]"

section \<open>Addresses as numbers\<close>

lemma take_bit64_unat: "take_bit 64 (unat (a :: 64 word)) = unat a"
  by (rule take_bit_nat_eq_self) (use unsigned_less[of a] in simp)

lemma ucast_of_nat32: "ucast (of_nat n :: 64 word) = (of_nat n :: 32 word)"
  by (simp add: word_unat_eq_iff unsigned_ucast_eq unat_of_nat take_bit_eq_mod mod_mod_cancel)

lemma pageindex_nat:
  assumes "level \<le> 3"
  shows "pageindex addr level = unat addr div 2 ^ (12 + (3 - level) * 9) mod 512"
proof -
  let ?s = "12 + (3 - level) * 9"
  have m9: "(0x1FF :: 32 word) = mask 9" by (simp add: mask_eq_exp_minus_1)
  have "(ucast (drop_bit ?s addr) :: 32 word) AND 0x1FF = ucast (take_bit 9 (drop_bit ?s addr))"
    unfolding m9 by (rule bit_word_eqI) (auto simp: bit_simps)
  then have "pageindex addr level = unat (ucast (take_bit 9 (drop_bit ?s addr)) :: 32 word)"
    by (simp add: pageindex_def)
  also have "\<dots> = take_bit 9 (drop_bit ?s (unat addr))"
    by (simp add: unsigned_ucast_eq unsigned_take_bit_eq unsigned_drop_bit_eq take_bit64_unat)
  finally show ?thesis by (simp add: take_bit_eq_mod drop_bit_eq_div)
qed

lemma pageindex_less: "level \<le> 3 \<Longrightarrow> pageindex addr level < 512"
  by (simp add: pageindex_nat)

lemma PAGEOFFSET_nat: "unat (PAGEOFFSET a) = unat a mod 4096"
  by (simp add: PAGEOFFSET_def and_FFF_mod unat_mod)

lemma page_aligned_nat: "page_aligned a \<longleftrightarrow> unat a mod 4096 = 0"
  by (simp flip: PAGEOFFSET_nat add: unat_eq_0)

lemma mod_PAGESIZE: "a mod PAGESIZE = PAGEOFFSET a"
  by (simp add: PAGEOFFSET_def and_FFF_mod)

lemma PTE_ADDR_aligned [simp]: "page_aligned (PTE_ADDR e)"
  unfolding PAGEOFFSET_def PTE_ADDR_def by (rule and_not_FFF_aligned)

lemma PTE_ADDR_self: "page_aligned a \<Longrightarrow> PTE_ADDR a = a"
  unfolding PAGEOFFSET_def PTE_ADDR_def by (rule aligned_self)

lemma PTE_ADDR_plus: "page_aligned P \<Longrightarrow> off < 4096 \<Longrightarrow> PTE_ADDR (P + off) = P"
  unfolding PAGEOFFSET_def PTE_ADDR_def by (rule aligned_plus_addr)

lemma PTE_FLAGS_plus: "page_aligned P \<Longrightarrow> off < 4096 \<Longrightarrow> PTE_FLAGS (P + off) = off"
  by (simp add: PAGEOFFSET_def PTE_FLAGS_def aligned_plus_off)

lemma PAGEOFFSET_plus: "page_aligned P \<Longrightarrow> off < 4096 \<Longrightarrow> PAGEOFFSET (P + off) = off"
  by (simp add: PAGEOFFSET_def aligned_plus_off)

lemma PTE_ADDR_nat: "unat (PTE_ADDR a) = unat a - unat a mod 4096"
proof -
  have "a = PTE_ADDR a + PAGEOFFSET a"
    unfolding PTE_ADDR_def PAGEOFFSET_def by (rule addr_plus_off [symmetric])
  then have "PTE_ADDR a = a - PAGEOFFSET a" by (metis add_diff_cancel_right')
  moreover have "PAGEOFFSET a \<le> a" by (simp add: word_le_nat_alt PAGEOFFSET_nat)
  ultimately show ?thesis by (simp add: unat_sub PAGEOFFSET_nat)
qed

lemma PAGENUMBER_nat:
  assumes "unat a < 2 ^ 43"
  shows "PAGENUMBER a = int (unat a div 4096)"
proof -
  let ?n = "unat a div 4096"
  have "?n < 2 ^ 31" using assms by (simp add: less_mult_imp_div_less)
  moreover have "drop_bit 12 a = of_nat ?n"
    by (rule word_unat_eq_iff[THEN iffD2])
       (use assms in \<open>simp add: drop_bit_eq_div unat_div unat_of_nat64\<close>)
  ultimately have "PAGENUMBER a = sint (of_nat ?n :: 32 word)"
    unfolding PAGENUMBER_def by (simp add: ucast_of_nat32)
  also have "\<dots> = int ?n"
    using \<open>?n < 2 ^ 31\<close> by (simp add: signed_of_nat signed_take_bit_int_eq_self)
  finally show ?thesis .
qed

lemma PAGEADDRESS_nat:
  assumes "0 \<le> p" "p < 2 ^ 51"
  shows "unat (PAGEADDRESS p) = 4096 * nat p"
proof -
  have "PAGEADDRESS p = of_nat (4096 * nat p)"
    using assms by (simp add: PAGEADDRESS_def push_bit_eq_mult)
  moreover have "4096 * nat p < 2 ^ 64" using assms by auto
  ultimately show ?thesis by (simp only: unat_of_nat64)
qed

section \<open>Entries as array cells\<close>

text \<open>\<open>same_page m m' P\<close>: the two memories agree on every byte of the page at \<open>P\<close>.\<close>

definition same_page :: "memory \<Rightarrow> memory \<Rightarrow> 64 word \<Rightarrow> bool" where
  "same_page m m' P \<longleftrightarrow> (\<forall>x. PTE_ADDR x = P \<longrightarrow> m x = m' x)"

lemma same_page_refl [simp]: "same_page m m P"
  by (simp add: same_page_def)

lemma same_page_trans [trans]: "same_page m m' P \<Longrightarrow> same_page m' m'' P \<Longrightarrow> same_page m m'' P"
  by (simp add: same_page_def)

lemma same_page_sym: "same_page m m' P \<Longrightarrow> same_page m' m P"
  by (simp add: same_page_def)

lemma entry_byte_addr:
  assumes "page_aligned P" "i < 512" "j < 8"
  shows "PTE_ADDR (P + 8 * of_nat i + of_nat j) = P"
proof -
  have u: "unat (of_nat (8 * i + j) :: 64 word) = 8 * i + j"
    by (rule unat_of_nat64) (use assms in simp)
  have off: "(of_nat (8 * i + j) :: 64 word) < 4096"
    unfolding word_less_nat_alt u using assms by simp
  have eq: "P + 8 * of_nat i + of_nat j = P + of_nat (8 * i + j)" by (simp add: add.assoc)
  from PTE_ADDR_plus[OF assms(1) off] show ?thesis unfolding eq .
qed

lemma pt_entry_same_page:
  assumes "same_page m m' P" "page_aligned P" "i < 512"
  shows "pt_entry m P i = pt_entry m' P i"
  unfolding pt_entry_def
  by (rule load_le_cong) (use assms entry_byte_addr in \<open>simp add: same_page_def\<close>)

lemma set_pt_entry_same_page:
  assumes "page_aligned P" "i < 512" "P \<noteq> Q"
  shows "same_page m (set_pt_entry m P i v) Q"
  unfolding same_page_def
proof (intro allI impI)
  fix x
  assume x: "PTE_ADDR x = Q"
  have "8 \<le> unat (x - (P + 8 * of_nat i))"
  proof (rule ccontr)
    assume "\<not> 8 \<le> unat (x - (P + 8 * of_nat i))"
    then have "PTE_ADDR (P + 8 * of_nat i + of_nat (unat (x - (P + 8 * of_nat i)))) = P"
      using assms by (intro entry_byte_addr) auto
    with x assms(3) show False by simp
  qed
  then show "m x = set_pt_entry m P i v x"
    by (simp add: set_pt_entry_def store_le_outside)
qed

lemma pt_entry_set_same [simp]: "pt_entry (set_pt_entry m P i v) P i = v"
  by (simp add: pt_entry_def set_pt_entry_def load_store_le_same)

lemma pt_entry_set_other_index:
  assumes "i < 512" "j < 512" "i \<noteq> j"
  shows "pt_entry (set_pt_entry m P i v) P j = pt_entry m P j"
  unfolding pt_entry_def set_pt_entry_def
proof (rule load_le_cong)
  fix k :: nat
  assume k: "k < 8"
  have eq: "P + 8 * of_nat j + of_nat k - (P + 8 * of_nat i)
      = (of_nat (8 * j + k) - of_nat (8 * i) :: 64 word)"
    by simp
  have "8 \<le> unat (of_nat (8 * j + k) - of_nat (8 * i) :: 64 word)"
    using assms k by (subst unat_of_nat_diff64) auto
  then show "store_le m (P + 8 * of_nat i) 8 v (P + 8 * of_nat j + of_nat k)
      = m (P + 8 * of_nat j + of_nat k)"
    by (intro store_le_outside) (simp only: eq)
qed

lemma pt_entry_set:
  assumes "page_aligned P" "page_aligned Q" "i < 512" "j < 512"
  shows "pt_entry (set_pt_entry m P i v) Q j = (if P = Q \<and> i = j then v else pt_entry m Q j)"
proof (cases "P = Q")
  case True
  with assms show ?thesis by (auto simp: pt_entry_set_other_index)
next
  case False
  with assms show ?thesis
    using pt_entry_same_page[OF set_pt_entry_same_page[OF assms(1,3) False] assms(2,4)] by simp
qed

end
