(* ===== verification/Lib_Mem.thy ===== *)
theory Lib_Mem
  imports X86_64
begin

text \<open>
  The C library subset of \<open>lib.c\<close> that works on raw memory: \<open>memcpy\<close>, \<open>memmove\<close>,
  \<open>memset\<close>, the string routines and the linear congruential generator. Pointers are
  addresses of physical memory; every loop is a recursion that moves the same pointers. The
  loops bounded by a count recurse on the count; \<open>strlen\<close>, \<open>strcpy\<close>, \<open>strcmp\<close> and
  \<open>strchr\<close> run until they meet a NUL byte and are \<^theory_text>\<open>partial_function (option)\<close>: a scan
  that never meets one is \<open>None\<close>. The lemmas give each routine's effect as a closed
  formula, and for the partial ones also that they return on a NUL-terminated string.
\<close>

unbundle bit_operations_syntax

section \<open>memcpy, memmove, memset\<close>

primrec memcpy_loop :: "nat \<Rightarrow> memory \<Rightarrow> 64 word \<Rightarrow> 64 word \<Rightarrow> memory" where
  "memcpy_loop 0 m d s = m"
| "memcpy_loop (Suc n) m d s = memcpy_loop n (m(d := m s)) (d + 1) (s + 1)"

definition memcpy :: "memory \<Rightarrow> 64 word \<Rightarrow> 64 word \<Rightarrow> 64 word \<Rightarrow> memory" where
  "memcpy m dst src n = memcpy_loop (unat n) m dst src"

primrec memmove_back :: "nat \<Rightarrow> memory \<Rightarrow> 64 word \<Rightarrow> 64 word \<Rightarrow> memory" where
  "memmove_back 0 m d s = m"
| "memmove_back (Suc n) m d s = memmove_back n (m(d - 1 := m (s - 1))) (d - 1) (s - 1)"

definition memmove :: "memory \<Rightarrow> 64 word \<Rightarrow> 64 word \<Rightarrow> 64 word \<Rightarrow> memory" where
  "memmove m dst src n =
     (if src < dst \<and> src + n > dst
      then memmove_back (unat n) m (dst + n) (src + n)
      else memcpy_loop (unat n) m dst src)"

primrec memset_loop :: "nat \<Rightarrow> memory \<Rightarrow> 64 word \<Rightarrow> 8 word \<Rightarrow> memory" where
  "memset_loop 0 m p c = m"
| "memset_loop (Suc n) m p c = memset_loop n (m(p := c)) (p + 1) c"

definition memset :: "memory \<Rightarrow> 64 word \<Rightarrow> int \<Rightarrow> 64 word \<Rightarrow> memory" where
  "memset m v c n = memset_loop (unat n) m v (word_of_int c)"

section \<open>Strings\<close>

partial_function (option) strlen_loop :: "memory \<Rightarrow> 64 word \<Rightarrow> 64 word \<Rightarrow> 64 word option" where
  "strlen_loop m s n = (if m s \<noteq> 0 then strlen_loop m (s + 1) (n + 1) else Some n)"

definition strlen :: "memory \<Rightarrow> 64 word \<Rightarrow> 64 word option" where
  "strlen m s = strlen_loop m s 0"

primrec strnlen_loop :: "nat \<Rightarrow> memory \<Rightarrow> 64 word \<Rightarrow> 64 word \<Rightarrow> 64 word" where
  "strnlen_loop 0 m s n = n"
| "strnlen_loop (Suc k) m s n = (if m s \<noteq> 0 then strnlen_loop k m (s + 1) (n + 1) else n)"

definition strnlen :: "memory \<Rightarrow> 64 word \<Rightarrow> 64 word \<Rightarrow> 64 word" where
  "strnlen m s maxlen = strnlen_loop (unat maxlen) m s 0"

partial_function (option) strcpy_loop :: "memory \<Rightarrow> 64 word \<Rightarrow> 64 word \<Rightarrow> memory option" where
  "strcpy_loop m d src =
     (let m' = m(d := m src) in
      if m' d \<noteq> 0 then strcpy_loop m' (d + 1) (src + 1) else Some m')"

definition strcpy :: "memory \<Rightarrow> 64 word \<Rightarrow> 64 word \<Rightarrow> memory option" where
  "strcpy m dst src = strcpy_loop m dst src"

partial_function (option) strcmp :: "memory \<Rightarrow> 64 word \<Rightarrow> 64 word \<Rightarrow> int option" where
  "strcmp m a b =
     (if m a \<noteq> 0 \<and> m b \<noteq> 0 \<and> m a = m b then strcmp m (a + 1) (b + 1)
      else Some ((if m a > m b then 1 else 0) - (if m a < m b then 1 else 0)))"

text \<open>\<open>strchr\<close> returns \<open>NULL\<close> (0) when the character does not occur.\<close>

partial_function (option) strchr :: "memory \<Rightarrow> 64 word \<Rightarrow> int \<Rightarrow> 64 word option" where
  "strchr m s c =
     (if m s \<noteq> 0 \<and> m s \<noteq> word_of_int c then strchr m (s + 1) c
      else if m s = word_of_int c then Some s else Some 0)"

section \<open>rand, srand\<close>

record rand_state =
  rand_seed_set :: bool
  rand_seed :: "32 word"

definition srand :: "32 word \<Rightarrow> rand_state \<Rightarrow> rand_state" where
  "srand seed r = r\<lparr>rand_seed := seed, rand_seed_set := True\<rparr>"

definition rand :: "rand_state \<Rightarrow> int \<times> rand_state" where
  "rand r =
     (let r1 = (if \<not> rand_seed_set r then srand 819234718 r else r);
          r2 = r1\<lparr>rand_seed := rand_seed r1 * 1664525 + 1013904223\<rparr>
      in (sint (rand_seed r2 AND 0x7FFFFFFF), r2))"

section \<open>Effect of the block routines\<close>

lemma unat_diff_pred:
  "(x :: 64 word) \<noteq> d \<Longrightarrow> unat (x - (d + 1)) = unat (x - d) - 1"
proof -
  assume "x \<noteq> d"
  then have "x - d \<noteq> 0" by simp
  then have "unat (x - d - 1) = unat (x - d) - 1"
    by (rule unat_minus_one)
  then show ?thesis by (simp add: diff_diff_eq)
qed

lemma memset_loop_eq:
  assumes "n < 2 ^ 64"
  shows "memset_loop n m p c = (\<lambda>x. if unat (x - p) < n then c else m x)"
  using assms
proof (induction n arbitrary: m p)
  case 0
  then show ?case by simp
next
  case (Suc n)
  then have IH: "memset_loop n (m(p := c)) (p + 1) c =
      (\<lambda>x. if unat (x - (p + 1)) < n then c else (m(p := c)) x)" by simp
  show ?case
  proof
    fix x
    show "memset_loop (Suc n) m p c x = (if unat (x - p) < Suc n then c else m x)"
    proof (cases "x = p")
      case True
      then show ?thesis by (simp add: IH)
    next
      case False
      then have "0 < unat (x - p)" by (simp add: unat_gt_0)
      with False show ?thesis by (auto simp: IH unat_diff_pred)
    qed
  qed
qed

theorem memset_effect:
  "memset m v c n = (\<lambda>x. if x - v < n then word_of_int c else m x)"
proof -
  have "unat n < 2 ^ 64" using unsigned_less[of n] by simp
  then show ?thesis by (simp add: memset_def memset_loop_eq word_less_nat_alt)
qed

lemma memcpy_loop_eq:
  assumes "n < 2 ^ 64" "d = s \<or> n \<le> unat (d - s)"
  shows "memcpy_loop n m d s = (\<lambda>x. if unat (x - d) < n then m (s + (x - d)) else m x)"
  using assms
proof (induction n arbitrary: m d s)
  case 0
  then show ?case by simp
next
  case (Suc n)
  then have IH: "memcpy_loop n (m(d := m s)) (d + 1) (s + 1) =
      (\<lambda>x. if unat (x - (d + 1)) < n then (m(d := m s)) (s + 1 + (x - (d + 1))) else (m(d := m s)) x)"
    by (intro Suc.IH) auto
  show ?case
  proof
    fix x
    show "memcpy_loop (Suc n) m d s x = (if unat (x - d) < Suc n then m (s + (x - d)) else m x)"
    proof (cases "x = d")
      case True
      then show ?thesis using Suc.prems(1) by (simp add: IH)
    next
      case False
      then have pos: "0 < unat (x - d)" by (simp add: unat_gt_0)
      have "s + (x - d) \<noteq> d" if "unat (x - d) < Suc n"
      proof
        assume "s + (x - d) = d"
        then have "x - d = d - s" by (simp add: algebra_simps)
        with that Suc.prems(2) False show False by auto
      qed
      moreover have "s + 1 + (x - (d + 1)) = s + (x - d)" by simp
      ultimately show ?thesis using False pos by (auto simp: IH unat_diff_pred)
    qed
  qed
qed

lemma memcpy_effect:
  assumes "dst = src \<or> n \<le> dst - src"
  shows "memcpy m dst src n = (\<lambda>x. if x - dst < n then m (src + (x - dst)) else m x)"
proof -
  have "unat n < 2 ^ 64" using unsigned_less[of n] by simp
  with assms show ?thesis
    by (simp add: memcpy_def memcpy_loop_eq word_less_nat_alt word_le_nat_alt)
qed

lemma memmove_back_eq:
  assumes "n < 2 ^ 64" "d = s \<or> n \<le> unat (s - d)"
  shows "memmove_back n m (d + of_nat n) (s + of_nat n) =
    (\<lambda>x. if unat (x - d) < n then m (s + (x - d)) else m x)"
  using assms
proof (induction n arbitrary: m)
  case 0
  then show ?case by simp
next
  case (Suc n)
  let ?d = "d + of_nat n" and ?s = "s + of_nat n"
  have IH: "memmove_back n (m(?d := m ?s)) ?d ?s =
      (\<lambda>x. if unat (x - d) < n then (m(?d := m ?s)) (s + (x - d)) else (m(?d := m ?s)) x)"
    using Suc.prems by (intro Suc.IH) auto
  have un: "unat (of_nat n :: 64 word) = n" using Suc.prems(1) by (intro unat_of_nat64) simp
  show ?case
  proof
    fix x
    have "s + (x - d) \<noteq> ?d" if x: "unat (x - d) < n"
    proof
      assume "s + (x - d) = ?d"
      then have eq: "of_nat n = s - d + (x - d)" by (simp add: algebra_simps)
      show False
      proof (cases "d = s")
        case True
        with eq un x show False by simp
      next
        case False
        have eq2: "s - d = of_nat n - of_nat (unat (x - d))" using eq by (simp add: algebra_simps)
        have "unat (s - d) = n - unat (x - d)"
          unfolding eq2 using x Suc.prems(1) by (subst unat_of_nat_diff64) auto
        with Suc.prems(2) False show False by simp
      qed
    qed
    moreover have "unat (x - d) = n \<longleftrightarrow> x = ?d"
      by (metis add_diff_cancel_left' diff_add_cancel add.commute un word_unat_eq_iff)
    ultimately show "memmove_back (Suc n) m (d + of_nat (Suc n)) (s + of_nat (Suc n)) x =
        (if unat (x - d) < Suc n then m (s + (x - d)) else m x)"
      by (auto simp: IH less_Suc_eq add.assoc [symmetric])
  qed
qed

theorem memmove_effect:
  assumes "unat src + unat n < 2 ^ 64" "unat dst + unat n < 2 ^ 64"
  shows "memmove m dst src n = (\<lambda>x. if x - dst < n then m (src + (x - dst)) else m x)"
proof -
  have n: "unat n < 2 ^ 64" "of_nat (unat n) = n" using assms by auto
  have sn: "unat (src + n) = unat src + unat n" using assms(1) by (simp add: unat_word_ariths)
  have un: "unat (of_nat (unat src) - of_nat (unat dst) :: 64 word) = unat (src - dst)"
    "unat (of_nat (unat dst) - of_nat (unat src) :: 64 word) = unat (dst - src)" by simp_all
  note d = unat_of_nat_diff64[of "unat src" "unat dst", unfolded un]
    unat_of_nat_diff64[of "unat dst" "unat src", unfolded un]
  show ?thesis
  proof (cases "src < dst \<and> src + n > dst")
    case True
    then have "unat n \<le> unat (src - dst)" using assms d by (auto simp: word_less_nat_alt)
    then show ?thesis
      using memmove_back_eq[of "unat n" dst src m] n True
      by (simp add: memmove_def word_less_nat_alt)
  next
    case False
    then have "dst = src \<or> unat n \<le> unat (dst - src)"
      using assms d sn by (auto simp: word_less_nat_alt word_unat_eq_iff)
    then show ?thesis
      using memcpy_loop_eq[of "unat n" dst src m] n False
      by (simp only: memmove_def if_False) (simp add: word_less_nat_alt)
  qed
qed

section \<open>Effect of the string routines\<close>

text \<open>\<open>cstring m s bs\<close>: the bytes \<open>bs\<close>, none of them NUL, stand at \<open>s\<close> with a NUL after them.\<close>

primrec cstring :: "memory \<Rightarrow> 64 word \<Rightarrow> 8 word list \<Rightarrow> bool" where
  "cstring m s [] \<longleftrightarrow> m s = 0"
| "cstring m s (b # bs) \<longleftrightarrow> b \<noteq> 0 \<and> m s = b \<and> cstring m (s + 1) bs"

lemma strlen_loop_cstring:
  "cstring m s bs \<Longrightarrow> strlen_loop m s n = Some (n + of_nat (length bs))"
  by (induction bs arbitrary: s n) (auto simp: strlen_loop.simps add.assoc)

lemma strlen_cstring: "cstring m s bs \<Longrightarrow> strlen m s = Some (of_nat (length bs))"
  by (simp add: strlen_def strlen_loop_cstring)

lemma strnlen_loop_cstring:
  "cstring m s bs \<Longrightarrow> strnlen_loop k m s n = n + of_nat (min k (length bs))"
proof (induction k arbitrary: s n bs)
  case 0
  then show ?case by simp
next
  case (Suc k)
  then show ?case by (cases bs) (auto simp: add.assoc)
qed

theorem strnlen_cstring:
  "cstring m s bs \<Longrightarrow> strnlen m s maxlen = of_nat (min (unat maxlen) (length bs))"
  by (simp add: strnlen_def strnlen_loop_cstring)

definition lex_sign :: "8 word list \<Rightarrow> 8 word list \<Rightarrow> int" where
  "lex_sign xs ys =
     (if xs = ys then 0 else if (xs, ys) \<in> lexord {(a, b). a < b} then -1 else 1)"

lemma strcmp_cstring:
  "cstring m a xs \<Longrightarrow> cstring m b ys \<Longrightarrow> strcmp m a b = Some (lex_sign xs ys)"
proof (induction xs arbitrary: a b ys)
  case Nil
  then show ?case
    by (cases ys) (auto simp: strcmp.simps[of m a b] lex_sign_def word_gt_0)
next
  case (Cons x xs)
  show ?case
  proof (cases ys)
    case Nil
    with Cons.prems show ?thesis
      by (auto simp: strcmp.simps[of m a b] lex_sign_def word_gt_0)
  next
    case ys: (Cons y ys')
    show ?thesis
    proof (cases "x = y")
      case True
      with Cons.prems ys have "strcmp m a b = strcmp m (a + 1) (b + 1)"
        by (simp add: strcmp.simps[of m a b])
      also have "\<dots> = Some (lex_sign xs ys')" using Cons ys by auto
      finally show ?thesis using ys True by (simp add: lex_sign_def)
    next
      case False
      with Cons.prems ys show ?thesis
        by (auto simp: strcmp.simps[of m a b] lex_sign_def dest: less_asym)
    qed
  qed
qed

lemma strchr_cstring_in:
  assumes "cstring m s bs" "word_of_int c \<noteq> (0 :: 8 word)" "word_of_int c \<in> set bs"
  shows "\<exists>i < length bs. strchr m s c = Some (s + of_nat i) \<and> bs ! i = word_of_int c
    \<and> (\<forall>j < i. bs ! j \<noteq> word_of_int c)"
  using assms
proof (induction bs arbitrary: s)
  case Nil
  then show ?case by simp
next
  case (Cons b bs)
  show ?case
  proof (cases "b = word_of_int c")
    case True
    with Cons.prems show ?thesis by (intro exI[of _ 0]) (auto simp: strchr.simps[of m s])
  next
    case False
    with Cons.prems have step: "strchr m s c = strchr m (s + 1) c"
      by (simp add: strchr.simps[of m s])
    obtain i where i: "i < length bs" "strchr m (s + 1) c = Some (s + 1 + of_nat i)"
        "bs ! i = word_of_int c" "\<forall>j < i. bs ! j \<noteq> word_of_int c"
      using Cons False by auto
    then have "\<forall>j < Suc i. (b # bs) ! j \<noteq> word_of_int c"
      using False by (auto simp: less_Suc_eq_0_disj)
    with i step show ?thesis by (intro exI[of _ "Suc i"]) (auto simp: add.assoc)
  qed
qed

lemma strchr_cstring_notin:
  "cstring m s bs \<Longrightarrow> word_of_int c \<noteq> (0 :: 8 word) \<Longrightarrow> word_of_int c \<notin> set bs
    \<Longrightarrow> strchr m s c = Some 0"
  by (induction bs arbitrary: s) (auto simp: strchr.simps[of m _ c])

text \<open>Looking for NUL finds the terminator.\<close>

lemma strchr_cstring_NUL:
  "cstring m s bs \<Longrightarrow> word_of_int c = (0 :: 8 word) \<Longrightarrow> strchr m s c = Some (s + of_nat (length bs))"
  by (induction bs arbitrary: s) (auto simp: strchr.simps[of m _ c] add.assoc)

lemma cstring_cong:
  assumes "cstring m a cs" "\<And>j. j \<le> length cs \<Longrightarrow> m' (a + of_nat j) = m (a + of_nat j)"
  shows "cstring m' a cs"
  using assms
proof (induction cs arbitrary: a)
  case Nil
  then show ?case using Nil.prems(2)[of 0] by simp
next
  case (Cons c cs)
  have "m' (a + 1 + of_nat j) = m (a + 1 + of_nat j)" if "j \<le> length cs" for j
    using Cons.prems(2)[of "Suc j"] that by (simp add: add.assoc)
  moreover have "m' a = m a" using Cons.prems(2)[of 0] by simp
  ultimately show ?case using Cons by simp
qed

lemma strcpy_loop_step: "strcpy_loop m d s =
    (if m s \<noteq> 0 then strcpy_loop (m(d := m s)) (d + 1) (s + 1) else Some (m(d := m s)))"
  by (subst strcpy_loop.simps) (simp only: Let_def fun_upd_same)

lemma strcpy_loop_cstring:
  assumes "cstring m src bs" "length bs < unat (dst - src)"
  shows "strcpy_loop m dst src = Some (memcpy_loop (Suc (length bs)) m dst src)"
  using assms
proof (induction bs arbitrary: m src dst)
  case Nil
  then show ?case by (subst strcpy_loop_step) (simp only: cstring.simps list.size memcpy_loop.simps simp_thms if_False)
next
  case (Cons b bs)
  let ?m = "m(dst := m src)"
  have "unat (dst - src) < 2 ^ 64" using unsigned_less[of "dst - src"] by simp
  then have len: "Suc (length bs) < 2 ^ 64" using Cons.prems(2) by simp
  have ne: "src + 1 + of_nat j \<noteq> dst" if "j \<le> length bs" for j
  proof
    assume "src + 1 + of_nat j = dst"
    then have "dst - src = of_nat (Suc j)" by auto
    then have "unat (dst - src) = Suc j" using that len by (simp only: unat_of_nat64)
    with that Cons.prems(2) show False by simp
  qed
  have cs: "cstring ?m (src + 1) bs"
    by (rule cstring_cong[of m]) (use Cons.prems(1) ne in auto)
  have "length bs < unat (dst + 1 - (src + 1))" using Cons.prems(2) by simp
  then have "strcpy_loop ?m (dst + 1) (src + 1) =
      Some (memcpy_loop (Suc (length bs)) ?m (dst + 1) (src + 1))"
    by (rule Cons.IH[OF cs])
  moreover have "m src \<noteq> 0" using Cons.prems(1) by auto
  ultimately show ?case
    by (subst strcpy_loop_step) (simp only: list.size memcpy_loop.simps not_False_eq_True if_True add_Suc_right add_0_right)
qed

theorem strcpy_cstring:
  assumes "cstring m src bs" "length bs < unat (dst - src)"
  shows "strcpy m dst src =
    Some (\<lambda>x. if unat (x - dst) \<le> length bs then m (src + (x - dst)) else m x)"
proof -
  have "unat (dst - src) < 2 ^ 64" using unsigned_less[of "dst - src"] by simp
  then have "memcpy_loop (Suc (length bs)) m dst src =
      (\<lambda>x. if unat (x - dst) < Suc (length bs) then m (src + (x - dst)) else m x)"
    using assms(2) by (intro memcpy_loop_eq) auto
  then show ?thesis
    using strcpy_loop_cstring[OF assms] by (simp only: strcpy_def less_Suc_eq_le)
qed

section \<open>The generator\<close>

theorem rand_range: "fst (rand r) \<in> {0 .. 0x7FFFFFFF}"
proof -
  have "0 \<le> sint (w AND 0x7FFFFFFF) \<and> sint (w AND 0x7FFFFFFF) \<le> 0x7FFFFFFF" for w :: "32 word"
  proof -
    have m: "(0x7FFFFFFF :: 32 word) = mask 31" by (simp add: mask_eq_exp_minus_1)
    have "sint (w AND 0x7FFFFFFF) = uint (w AND 0x7FFFFFFF)"
      unfolding m
      by (simp add: sint_uint signed_take_bit_eq_if_positive bit_simps unsigned_take_bit_eq
          flip: take_bit_eq_mask)
    moreover have "uint (w AND 0x7FFFFFFF) \<le> uint (0x7FFFFFFF :: 32 word)"
      using word_and_le1[of w "0x7FFFFFFF"] by (simp add: word_le_def)
    ultimately show ?thesis by simp
  qed
  then show ?thesis by (simp add: rand_def Let_def)
qed

section \<open>Storing a sequence of bytes\<close>

primrec store_bytes :: "8 word list \<Rightarrow> 64 word \<Rightarrow> memory \<Rightarrow> memory" where
  "store_bytes [] dst m = m"
| "store_bytes (b # bs) dst m = store_bytes bs (dst + 1) (m(dst := b))"

lemma unat_diff_Suc:
  fixes x s :: "64 word"
  assumes "x \<noteq> s"
  shows "unat (x - s) = Suc (unat (x - (s + 1)))"
proof -
  have eq: "x - (s + 1) = (x - s) - 1" by simp
  have "x - s \<noteq> 0" using assms by simp
  moreover from this have "unat (x - s) \<noteq> 0" by (simp only: unat_eq_0 simp_thms)
  ultimately show ?thesis unfolding eq using unat_minus_one[of "x - s"] by simp
qed

lemma store_bytes_at:
  assumes "length bs < 2 ^ 64"
  shows "store_bytes bs dst m x = (if unat (x - dst) < length bs then bs ! unat (x - dst) else m x)"
  using assms
proof (induction bs arbitrary: dst m)
  case (Cons b bs)
  show ?case
  proof (cases "x = dst")
    case True
    have "x - (dst + 1) = -1" using True by simp
    then have "unat (x - (dst + 1)) = 2 ^ 64 - 1" by (simp add: unsigned_minus_1_eq_mask mask_eq_exp_minus_1)
    then show ?thesis using Cons True by simp
  next
    case False
    then have "unat (x - dst) = Suc (unat (x - (dst + 1)))" by (rule unat_diff_Suc)
    then show ?thesis using Cons False by simp
  qed
qed simp

end
