(* ===== verification/VM.thy ===== *)
theory VM
  imports Lib_Mem
begin

text \<open>
  Virtual memory, from \<open>vm.c\<close>: the page-table walk \<open>virtual_memory_lookup\<close>, the mapping
  routine \<open>virtual_memory_map\<close> with its helper \<open>lookup_l4pagetable\<close>, \<open>set_pagetable\<close> and
  \<open>virtual_memory_init\<close>. Page tables live in physical memory; a routine that writes entries
  returns the new memory, one that can assert returns \<open>kfault + \<dots>\<close>. Addresses the linker
  chooses are the record \<open>link_symbols\<close>. Log output (\<open>log_printf\<close>) is not modelled.

  The abstraction is \<open>pt_wf\<close>, the five-page shape that \<open>virtual_memory_init\<close> and
  \<open>duplicate_pagetable\<close> build, and \<open>slots\<close>, the last-level entry a virtual page number
  selects in such a table: lookup reads it, map overwrites it, and nothing else changes.
\<close>

unbundle bit_operations_syntax

section \<open>Link-time symbols\<close>

record link_symbols =
  sym_start_data :: "64 word"            \<comment> \<open>\<open>start_data\<close>\<close>
  sym_end :: "64 word"                   \<comment> \<open>\<open>end\<close>\<close>
  sym_kernel_pagetables :: "64 word"     \<comment> \<open>\<open>kernel_pagetables\<close>, five consecutive pages\<close>
  sym_default_int_handler :: "64 word"
  sym_virtual_memory_map :: "64 word"

section \<open>Operations\<close>

text \<open>The loop of \<open>virtual_memory_lookup\<close>, over the remaining levels.\<close>

primrec lookup_levels :: "nat list \<Rightarrow> memory \<Rightarrow> 64 word \<Rightarrow> 64 word \<Rightarrow> 64 word \<Rightarrow> 64 word" where
  "lookup_levels [] m va pt pe = pe"
| "lookup_levels (i # is) m va pt pe =
     (if pe AND PTE_P \<noteq> 0 then
        let pe' = pt_entry m pt (pageindex va i) AND NOT (pe AND (PTE_W OR PTE_U))
        in lookup_levels is m va (PTE_ADDR pe') pe'
      else pe)"

definition virtual_memory_lookup :: "memory \<Rightarrow> 64 word \<Rightarrow> 64 word \<Rightarrow> vamapping" where
  "virtual_memory_lookup m pagetable va =
     (let pe = lookup_levels [0, 1, 2, 3] m va pagetable (PTE_W OR PTE_U OR PTE_P)
      in if pe AND PTE_P \<noteq> 0
         then \<lparr>vam_pn = PAGENUMBER pe, vam_pa = PTE_ADDR pe + PAGEOFFSET va,
               vam_perm = uint (PTE_FLAGS pe)\<rparr>
         else \<lparr>vam_pn = -1, vam_pa = -1, vam_perm = 0\<rparr>)"

text \<open>\<open>lookup_l4pagetable\<close>: the last-level table, 0 for \<open>NULL\<close>.\<close>

primrec l4_levels :: "nat list \<Rightarrow> memory \<Rightarrow> 64 word \<Rightarrow> int \<Rightarrow> 64 word \<Rightarrow> kfault + 64 word" where
  "l4_levels [] m va perm pt = Inr pt"
| "l4_levels (i # is) m va perm pt =
     (let pe = pt_entry m pt (pageindex va i) in
      if pe AND PTE_P = 0 then Inr 0
      else
        bindR (assertR ''vm.c'' 174 (PTE_ADDR pe < MEMSIZE_PHYSICAL)) (\<lambda>_.
        bindR (assertR ''vm.c'' 176 (word_of_int perm AND PTE_W \<noteq> 0 \<longrightarrow> pe AND PTE_W \<noteq> 0)) (\<lambda>_.
        bindR (assertR ''vm.c'' 179 (word_of_int perm AND PTE_U \<noteq> 0 \<longrightarrow> pe AND PTE_U \<noteq> 0)) (\<lambda>_.
        l4_levels is m va perm (PTE_ADDR pe)))))"

definition lookup_l4pagetable :: "memory \<Rightarrow> 64 word \<Rightarrow> 64 word \<Rightarrow> int \<Rightarrow> kfault + 64 word" where
  "lookup_l4pagetable m pagetable va perm = l4_levels [0, 1, 2] m va perm pagetable"

text \<open>
  The loop of \<open>virtual_memory_map\<close>; its first argument is the number of pages left,
  \<open>sz / PAGESIZE\<close>, which the assertion on \<open>sz\<close> makes exact.
\<close>

primrec map_loop ::
  "nat \<Rightarrow> memory \<Rightarrow> 64 word \<Rightarrow> 64 word \<Rightarrow> 64 word \<Rightarrow> int \<Rightarrow> int \<Rightarrow> 64 word \<Rightarrow> kfault + (int \<times> memory)"
where
  "map_loop 0 m pagetable va pa perm last_index123 l4pagetable = Inr (0, m)"
| "map_loop (Suc n) m pagetable va pa perm last_index123 l4pagetable =
     (let cur_index123 = sint (ucast (drop_bit (PAGEOFFBITS + PAGEINDEXBITS) va) :: 32 word) in
      bindR (if cur_index123 \<noteq> last_index123 then lookup_l4pagetable m pagetable va perm
             else Inr l4pagetable)
        (\<lambda>l4.
          if word_of_int perm AND PTE_P \<noteq> 0 \<and> l4 \<noteq> 0 then
            map_loop n (set_pt_entry m l4 (pageindex va 3) (pa + word_of_int perm)) pagetable
              (va + PAGESIZE) (pa + PAGESIZE) perm cur_index123 l4
          else if l4 \<noteq> 0 then
            map_loop n (set_pt_entry m l4 (pageindex va 3) (word_of_int perm)) pagetable
              (va + PAGESIZE) (pa + PAGESIZE) perm cur_index123 l4
          else if word_of_int perm AND PTE_P \<noteq> 0 then Inr (-1, m)
          else map_loop n m pagetable (va + PAGESIZE) (pa + PAGESIZE) perm cur_index123 l4))"

definition virtual_memory_map ::
  "memory \<Rightarrow> 64 word \<Rightarrow> 64 word \<Rightarrow> 64 word \<Rightarrow> 64 word \<Rightarrow> int \<Rightarrow> kfault + (int \<times> memory)" where
  "virtual_memory_map m pagetable va pa sz perm =
     bindR (assertR ''vm.c'' 102 (va mod PAGESIZE = 0)) (\<lambda>_.
     bindR (assertR ''vm.c'' 103 (sz mod PAGESIZE = 0)) (\<lambda>_.
     bindR (assertR ''vm.c'' 104 (va + sz \<ge> va \<or> va + sz = 0)) (\<lambda>_.
     bindR (if word_of_int perm AND PTE_P \<noteq> 0 then
              bindR (assertR ''vm.c'' 106 (pa mod PAGESIZE = 0)) (\<lambda>_.
              bindR (assertR ''vm.c'' 107 (pa + sz \<ge> pa)) (\<lambda>_.
              assertR ''vm.c'' 108 (pa + sz \<le> MEMSIZE_PHYSICAL)))
            else Inr ()) (\<lambda>_.
     bindR (assertR ''vm.c'' 110 (perm \<ge> 0 \<and> perm < 0x1000)) (\<lambda>_.
     bindR (assertR ''vm.c'' 111 (pagetable mod PAGESIZE = 0)) (\<lambda>_.
     map_loop (unat (sz div PAGESIZE)) m pagetable va pa perm (-1) 0))))))"

text \<open>\<open>set_pagetable\<close> returns the new contents of the CR3 register.\<close>

definition set_pagetable :: "link_symbols \<Rightarrow> memory \<Rightarrow> 64 word \<Rightarrow> kfault + 64 word" where
  "set_pagetable syms m pagetable =
     (let kernel_pagetable = sym_kernel_pagetables syms in
      bindR (assertR ''vm.c'' 61 (PAGEOFFSET pagetable = 0)) (\<lambda>_.
      bindR (assertR ''vm.c'' 63 (vam_pa (virtual_memory_lookup m pagetable (sym_default_int_handler syms))
               = sym_default_int_handler syms)) (\<lambda>_.
      bindR (assertR ''vm.c'' 65 (vam_pa (virtual_memory_lookup m kernel_pagetable pagetable)
               = pagetable)) (\<lambda>_.
      bindR (assertR ''vm.c'' 67 (vam_pa (virtual_memory_lookup m pagetable kernel_pagetable)
               = kernel_pagetable)) (\<lambda>_.
      bindR (assertR ''vm.c'' 69 (vam_pa (virtual_memory_lookup m pagetable (sym_virtual_memory_map syms))
               = sym_virtual_memory_map syms)) (\<lambda>_.
      Inr pagetable))))))"

text \<open>The identity check of \<open>virtual_memory_init\<close>, over the remaining page addresses.\<close>

primrec init_check :: "nat \<Rightarrow> memory \<Rightarrow> 64 word \<Rightarrow> 64 word \<Rightarrow> kfault + unit" where
  "init_check 0 m pagetable addr = Inr ()"
| "init_check (Suc n) m pagetable addr =
     (let vmap = virtual_memory_lookup m pagetable addr in
      bindR (assertR ''vm.c'' 45 (vam_pa vmap = addr)) (\<lambda>_.
      bindR (assertR ''vm.c'' 46
        (word_of_int (vam_perm vmap) AND (PTE_P OR PTE_W) = (PTE_P OR PTE_W))) (\<lambda>_.
      init_check n m pagetable (addr + PAGESIZE))))"

definition virtual_memory_init :: "link_symbols \<Rightarrow> memory \<Rightarrow> kfault + (64 word \<times> memory)" where
  "virtual_memory_init syms m =
     (let kp = sym_kernel_pagetables syms;
          flags = PTE_P OR PTE_W OR PTE_U;
          m0 = memset m kp 0 (5 * PAGESIZE);
          m1 = set_pt_entry m0 kp 0 ((kp + PAGESIZE) OR flags);
          m2 = set_pt_entry m1 (kp + PAGESIZE) 0 ((kp + 2 * PAGESIZE) OR flags);
          m3 = set_pt_entry m2 (kp + 2 * PAGESIZE) 0 ((kp + 3 * PAGESIZE) OR flags);
          m4 = set_pt_entry m3 (kp + 2 * PAGESIZE) 1 ((kp + 4 * PAGESIZE) OR flags)
      in bindR (virtual_memory_map m4 kp 0 0 MEMSIZE_PHYSICAL (uint flags)) (\<lambda>(_, m5).
         bindR (init_check (unat (MEMSIZE_PHYSICAL div PAGESIZE)) m5 kp 0) (\<lambda>_.
         bindR (set_pagetable syms m5 kp) (\<lambda>cr3.
         Inr (cr3, m5)))))"

section \<open>The shape of a page table\<close>

definition L2_of :: "memory \<Rightarrow> 64 word \<Rightarrow> 64 word" where
  "L2_of m pt = PTE_ADDR (pt_entry m pt 0)"

definition L3_of :: "memory \<Rightarrow> 64 word \<Rightarrow> 64 word" where
  "L3_of m pt = PTE_ADDR (pt_entry m (L2_of m pt) 0)"

definition L4_of :: "memory \<Rightarrow> 64 word \<Rightarrow> nat \<Rightarrow> 64 word" where
  "L4_of m pt i = PTE_ADDR (pt_entry m (L3_of m pt) i)"

definition pt_pages :: "memory \<Rightarrow> 64 word \<Rightarrow> 64 word list" where
  "pt_pages m pt = [pt, L2_of m pt, L3_of m pt, L4_of m pt 0, L4_of m pt 1]"

abbreviation linked :: "64 word \<Rightarrow> bool" where
  "linked e \<equiv> e AND 0x87 = 7"

definition pt_wf :: "memory \<Rightarrow> 64 word \<Rightarrow> bool" where
  "pt_wf m pt \<longleftrightarrow>
     page_aligned pt \<and> distinct (pt_pages m pt) \<and>
     (\<forall>p \<in> set (pt_pages m pt). p \<noteq> 0 \<and> p < MEMSIZE_PHYSICAL) \<and>
     linked (pt_entry m pt 0) \<and> linked (pt_entry m (L2_of m pt) 0) \<and>
     linked (pt_entry m (L3_of m pt) 0) \<and> linked (pt_entry m (L3_of m pt) 1) \<and>
     (\<forall>i \<in> {1..<512}. pt_entry m pt i = 0 \<and> pt_entry m (L2_of m pt) i = 0) \<and>
     (\<forall>i \<in> {2..<512}. pt_entry m (L3_of m pt) i = 0)"

text \<open>
  The page number of a virtual address (the walk ignores the bits above bit 47), the slots
  of an address space, and the decoding of a slot that ends the walk.
\<close>

definition vpn :: "64 word \<Rightarrow> nat" where
  "vpn va = unat va div 4096 mod 2 ^ 36"

definition slots :: "memory \<Rightarrow> 64 word \<Rightarrow> nat \<Rightarrow> 64 word" where
  "slots m pt n = (if n < 1024 then pt_entry m (L4_of m pt (n div 512)) (n mod 512) else 0)"

definition vam_of :: "64 word \<Rightarrow> 64 word \<Rightarrow> vamapping" where
  "vam_of pe va =
     (if pe AND PTE_P \<noteq> 0
      then \<lparr>vam_pn = PAGENUMBER pe, vam_pa = PTE_ADDR pe + PAGEOFFSET va,
            vam_perm = uint (PTE_FLAGS pe)\<rparr>
      else \<lparr>vam_pn = -1, vam_pa = -1, vam_perm = 0\<rparr>)"

definition put_slot :: "memory \<Rightarrow> 64 word \<Rightarrow> nat \<Rightarrow> 64 word \<Rightarrow> memory" where
  "put_slot m pt n e = set_pt_entry m (L4_of m pt (n div 512)) (n mod 512) e"

section \<open>Bits of entries\<close>

lemma bit_6: "bit (6 :: 64 word) k \<longleftrightarrow> k = 1 \<or> k = 2"
proof -
  have six: "(6 :: 64 word) = push_bit 1 (mask 2)" by (simp add: mask_eq_exp_minus_1)
  show ?thesis unfolding six by (simp only: bit_push_bit_iff bit_mask_iff) auto
qed

lemma bit_7: "bit (7 :: 64 word) k \<longleftrightarrow> k < 3"
proof -
  have seven: "(7 :: 64 word) = mask 3" by (simp add: mask_eq_exp_minus_1)
  show ?thesis unfolding seven by (auto simp: bit_simps)
qed

lemma bit_128: "bit (128 :: 64 word) k \<longleftrightarrow> k = 7"
proof -
  have "(128 :: 64 word) = push_bit 7 1" by (simp add: push_bit_eq_mult)
  then show ?thesis by (simp only: bit_push_bit_iff bit_1_iff) auto
qed

lemma mask_87: "(0x87 :: 64 word) = 128 OR 7"
  by simp

lemma linked_bits:
  assumes "linked e"
  shows "bit e 0" "bit e 1" "bit e 2" "\<not> bit e 7"
proof -
  have eq: "bit e k \<and> (k = 7 \<or> k < 3) \<longleftrightarrow> k < 3" for k
    using arg_cong[OF assms, of "\<lambda>x. bit x k"] unfolding mask_87 by (auto simp only: bit_and_iff bit_or_iff bit_7 bit_128)
  from eq[of 0] eq[of 1] eq[of 2] eq[of 7] show "bit e 0" "bit e 1" "bit e 2" "\<not> bit e 7" by simp_all
qed

lemma and_1_bit: "(e :: 64 word) AND 1 = 0 \<longleftrightarrow> \<not> bit e 0"
  by (simp add: and_one_eq bit_0 mod_2_eq_odd)

lemma linked_masks:
  assumes "linked e"
  shows "e AND 1 \<noteq> 0" "e AND 2 \<noteq> 0" "e AND 4 \<noteq> 0" "e AND 6 = 6"
    "(e AND NOT 6) AND 1 \<noteq> 0" "e AND PTE_PS = 0"
proof -
  note b = linked_bits[OF assms]
  show "e AND PTE_PS = 0" by (rule bit_word_eqI) (use b(4) in \<open>auto simp only: bit_128 bit_and_iff bit_0_eq bot_fun_def bot_bool_def\<close>)
  show "e AND 1 \<noteq> 0" using b by (simp add: and_1_bit)
  show "(e AND NOT 6) AND 1 \<noteq> 0" using b by (simp only: and_1_bit bit_simps) (simp add: bit_6)
  show "e AND 6 = 6" by (rule bit_word_eqI) (use b in \<open>auto simp only: bit_6 bit_and_iff\<close>)
  have 1: "(e AND 6) AND 2 = e AND 2" "(e AND 6) AND 4 = e AND 4" by (simp_all add: and.assoc)
  then show "e AND 2 \<noteq> 0" "e AND 4 \<noteq> 0" using \<open>e AND 6 = 6\<close> by auto
qed

lemma PTE_ADDR_drop_perm: "PTE_ADDR (e AND NOT 6) = PTE_ADDR e"
  unfolding PTE_ADDR_def
proof (rule bit_word_eqI)
  fix k assume "k < LENGTH(64)"
  have "bit (0xFFF :: 64 word) k" if "bit (6 :: 64 word) k"
    using that unfolding bit_6 mask12 by (auto simp: bit_mask_iff)
  then show "bit ((e AND NOT 6) AND NOT 0xFFF) k = bit (e AND NOT 0xFFF) k"
    by (auto simp: bit_simps)
qed

lemma and_not_6_and_6: "((e :: 64 word) AND NOT 6) AND 6 = 0"
  by (rule bit_word_eqI) (auto simp: bit_simps)

section \<open>Indices and page numbers\<close>

lemma mod_div_mod_pow2:
  fixes n :: nat
  assumes "k + 9 \<le> 36"
  shows "n mod 2 ^ 36 div 2 ^ k mod 2 ^ 9 = n div 2 ^ k mod 2 ^ 9"
proof -
  have "take_bit 9 (drop_bit k (take_bit 36 n)) = take_bit 9 (drop_bit k n)"
    using assms by (simp add: drop_bit_take_bit)
  then show ?thesis by (simp only: take_bit_eq_mod drop_bit_eq_div)
qed

lemma pageindex_vpn:
  "pageindex va 0 = vpn va div 2 ^ 27"
  "pageindex va 1 = vpn va div 2 ^ 18 mod 512"
  "pageindex va 2 = vpn va div 512 mod 512"
  "pageindex va 3 = vpn va mod 512"
proof -
  define n where "n = unat va div 4096"
  have d: "unat va div 2 ^ (12 + k) = n div 2 ^ k" for k
    by (simp add: n_def power_add div_mult2_eq)
  have v: "vpn va = n mod 2 ^ 36" by (simp add: vpn_def n_def)
  have "n mod 2 ^ 36 div 2 ^ 27 < 2 ^ 9" by (simp add: less_mult_imp_div_less)
  then show "pageindex va 0 = vpn va div 2 ^ 27"
    using d[of 27] mod_div_mod_pow2[of 27 n] by (simp add: pageindex_nat v)
  show "pageindex va 1 = vpn va div 2 ^ 18 mod 512"
    using d[of 18] mod_div_mod_pow2[of 18 n] by (simp add: pageindex_nat v)
  show "pageindex va 2 = vpn va div 512 mod 512"
    using d[of 9] mod_div_mod_pow2[of 9 n] by (simp add: pageindex_nat v)
  show "pageindex va 3 = vpn va mod 512"
    using d[of 0] mod_div_mod_pow2[of 0 n] by (simp add: pageindex_nat v)
qed

lemma low_indices:
  "pageindex va 0 = 0 \<and> pageindex va 1 = 0 \<and> pageindex va 2 < 2 \<longleftrightarrow> vpn va < 1024"
proof -
  have f1: "vpn va < 1024" if "vpn va div 2 ^ 27 = 0" "vpn va div 2 ^ 18 mod 512 = 0" "vpn va div 512 mod 512 < 2"
  proof -
    have a: "vpn va < 2 ^ 27" using that(1) by (simp add: div_eq_0_iff)
    then have "vpn va div 2 ^ 18 < 512" by (simp add: less_mult_imp_div_less)
    with that(2) have "vpn va < 2 ^ 18" by (simp add: div_eq_0_iff)
    then have "vpn va div 512 < 512" by (simp add: less_mult_imp_div_less)
    with that(3) show ?thesis by simp
  qed
  have f2: "vpn va div 2 ^ 27 = 0 \<and> vpn va div 2 ^ 18 mod 512 = 0 \<and> vpn va div 512 mod 512 < 2"
    if "vpn va < 1024" using that by auto
  show ?thesis unfolding pageindex_vpn using f1 f2 by metis
qed

lemma index2_low: "vpn va < 1024 \<Longrightarrow> pageindex va 2 = vpn va div 512"
  by (simp add: pageindex_vpn)

lemma vpn_low: "unat va < 2 ^ 48 \<Longrightarrow> vpn va = unat va div 4096"
  by (simp add: vpn_def less_mult_imp_div_less)

section \<open>The walk of a well-formed table\<close>

lemma pt_wf_aligned:
  assumes "pt_wf m pt"
  shows "page_aligned pt" "page_aligned (L2_of m pt)" "page_aligned (L3_of m pt)"
    "page_aligned (L4_of m pt i)"
  using assms by (simp_all add: pt_wf_def L2_of_def L3_of_def L4_of_def)

lemma pt_wf_links:
  assumes "pt_wf m pt"
  shows "linked (pt_entry m pt 0)" "linked (pt_entry m (L2_of m pt) 0)"
    "i < 2 \<Longrightarrow> linked (pt_entry m (L3_of m pt) i)"
  using assms by (auto simp: pt_wf_def less_2_cases_iff)

lemma pt_wf_unlinked:
  assumes "pt_wf m pt" "i < 512"
  shows "i \<noteq> 0 \<Longrightarrow> pt_entry m pt i AND 1 = 0" "i \<noteq> 0 \<Longrightarrow> pt_entry m (L2_of m pt) i AND 1 = 0"
    "\<not> i < 2 \<Longrightarrow> pt_entry m (L3_of m pt) i AND 1 = 0"
  using assms by (simp_all add: pt_wf_def)

lemma pt_wf_physical:
  assumes "pt_wf m pt"
  shows "pt < MEMSIZE_PHYSICAL" "L2_of m pt < MEMSIZE_PHYSICAL" "L3_of m pt < MEMSIZE_PHYSICAL"
  using assms by (auto simp: pt_wf_def pt_pages_def)

lemma L4_of_nonzero:
  assumes "pt_wf m pt" "i < 2"
  shows "L4_of m pt i \<noteq> 0" "L4_of m pt i < MEMSIZE_PHYSICAL" "L4_of m pt i \<in> set (pt_pages m pt)"
  using assms by (auto simp: pt_wf_def pt_pages_def less_2_cases_iff)

lemma virtual_memory_lookup_vam_of:
  "virtual_memory_lookup m pt va = vam_of (lookup_levels [0, 1, 2, 3] m va pt (PTE_W OR PTE_U OR PTE_P)) va"
  by (simp add: virtual_memory_lookup_def vam_of_def Let_def)

lemma vam_of_absent: "pe AND PTE_P = 0 \<Longrightarrow> vam_of pe va = vam_of 0 va"
  by (simp add: vam_of_def)

lemma and_not_and: "(e :: 64 word) AND 1 = 0 \<Longrightarrow> (e AND x) AND 1 = 0"
  by (simp add: and_1_bit bit_simps)

lemma lookup_absent: "pe AND 1 = 0 \<Longrightarrow> lookup_levels is m va pt pe = pe"
  by (cases "is") auto

lemma lookup_step_keep:
  assumes "pe AND 1 \<noteq> 0" "pe AND 6 = 0"
  shows "lookup_levels (i # is) m va pt pe =
    (let e = pt_entry m pt (pageindex va i) in lookup_levels is m va (PTE_ADDR e) e)"
  using assms by simp

lemma lookup_step_drop:
  assumes "pe AND 1 \<noteq> 0" "pe AND 6 = 6"
  shows "lookup_levels (i # is) m va pt pe =
    (let e = pt_entry m pt (pageindex va i) in lookup_levels is m va (PTE_ADDR e) (e AND NOT 6))"
  using assms by (simp add: PTE_ADDR_drop_perm[simplified] Let_def)

text \<open>The walk clears and keeps permission bits alternately; behind linked levels nothing is lost.\<close>

lemma lookup_levels_wf:
  assumes "pt_wf m pt"
  shows "vam_of (lookup_levels [0, 1, 2, 3] m va pt 7) va = vam_of (slots m pt (vpn va)) va"
proof -
  let ?i = "pageindex va"
  define e0 where "e0 = pt_entry m pt (?i 0)"
  define e1 where "e1 = pt_entry m (PTE_ADDR e0) (?i 1)"
  define e2 where "e2 = pt_entry m (PTE_ADDR e1) (?i 2)"
  have lt: "?i 0 < 512" "?i 1 < 512" "?i 2 < 512" by (simp_all add: pageindex_less)
  have c0: "?i 0 = 0 \<Longrightarrow> linked e0 \<and> PTE_ADDR e0 = L2_of m pt" "?i 0 \<noteq> 0 \<Longrightarrow> e0 AND 1 = 0"
    using assms lt by (auto simp: e0_def pt_wf_def L2_of_def)
  have c1: "?i 1 = 0 \<Longrightarrow> linked e1 \<and> PTE_ADDR e1 = L3_of m pt" "?i 1 \<noteq> 0 \<Longrightarrow> e1 AND 1 = 0"
    if "?i 0 = 0"
    using assms lt c0 that by (auto simp: e1_def pt_wf_def L3_of_def)
  have c2: "?i 2 < 2 \<Longrightarrow> linked e2 \<and> PTE_ADDR e2 = L4_of m pt (?i 2)" "\<not> ?i 2 < 2 \<Longrightarrow> e2 AND 1 = 0"
    if "?i 0 = 0" "?i 1 = 0"
    using assms lt c1 that by (auto simp: e2_def pt_wf_def L4_of_def less_2_cases_iff)
  have s0: "lookup_levels [0, 1, 2, 3] m va pt 7 = lookup_levels [1, 2, 3] m va (PTE_ADDR e0) (e0 AND NOT 6)"
    by (subst lookup_step_drop) (simp, simp, simp only: e0_def Let_def)
  show ?thesis
  proof (cases "vpn va < 1024")
    case True
    then have i: "?i 0 = 0" "?i 1 = 0" "?i 2 < 2" using low_indices by auto
    note l0 = c0(1)[OF i(1)] and l1 = c1(1)[OF i(1,2)] and l2 = c2(1)[OF i]
    have "lookup_levels [0, 1, 2, 3] m va pt 7 = lookup_levels [2, 3] m va (PTE_ADDR e1) e1"
      unfolding s0 using l0
      by (subst lookup_step_keep) (simp_all only: linked_masks and_not_6_and_6 Let_def e1_def simp_thms)
    also have "\<dots> = lookup_levels [3] m va (PTE_ADDR e2) (e2 AND NOT 6)"
      using l1 by (subst lookup_step_drop) (simp_all only: linked_masks Let_def e2_def simp_thms)
    also have "\<dots> = pt_entry m (PTE_ADDR e2) (?i 3)"
      using l2 by (subst lookup_step_keep)
        (simp_all only: linked_masks and_not_6_and_6 Let_def lookup_levels.simps simp_thms)
    also have "\<dots> = slots m pt (vpn va)"
      using True l2 by (simp add: slots_def index2_low pageindex_vpn(4))
    finally show ?thesis by simp
  next
    case False
    then have "slots m pt (vpn va) = 0" by (simp add: slots_def)
    moreover have "lookup_levels [0, 1, 2, 3] m va pt 7 AND 1 = 0"
    proof (cases "?i 0 = 0")
      case n0: False
      then have "(e0 AND NOT 6) AND 1 = 0" using c0(2) by (intro and_not_and) simp
      then show ?thesis unfolding s0 by (simp only: lookup_absent)
    next
      case i0: True
      have s1: "lookup_levels [0, 1, 2, 3] m va pt 7 = lookup_levels [2, 3] m va (PTE_ADDR e1) e1"
        unfolding s0 using c0(1)[OF i0]
        by (subst lookup_step_keep) (simp_all only: linked_masks and_not_6_and_6 Let_def e1_def simp_thms)
      show ?thesis
      proof (cases "?i 1 = 0")
        case n1: False
        then show ?thesis unfolding s1 using c1(2)[OF i0 n1] by (simp only: lookup_absent)
      next
        case i1: True
        with i0 False have "\<not> ?i 2 < 2" using low_indices[of va] by auto
        then have "(e2 AND NOT 6) AND 1 = 0" using c2(2)[OF i0 i1] by (intro and_not_and)
        moreover have "lookup_levels [2, 3] m va (PTE_ADDR e1) e1 = lookup_levels [3] m va (PTE_ADDR e2) (e2 AND NOT 6)"
          using c1(1)[OF i0 i1] by (subst lookup_step_drop) (simp_all only: linked_masks Let_def e2_def simp_thms)
        ultimately show ?thesis unfolding s1 by (simp only: lookup_absent)
      qed
    qed
    ultimately show ?thesis using vam_of_absent by metis
  qed
qed

lemma lookup_slots:
  assumes "pt_wf m pt"
  shows "virtual_memory_lookup m pt va = vam_of (slots m pt (vpn va)) va"
  using lookup_levels_wf[OF assms] by (simp add: virtual_memory_lookup_vam_of)

lemma l4_step:
  assumes "linked (pt_entry m p (pageindex va i))" "PTE_ADDR (pt_entry m p (pageindex va i)) < MEMSIZE_PHYSICAL"
  shows "l4_levels (i # is) m va perm p = l4_levels is m va perm (PTE_ADDR (pt_entry m p (pageindex va i)))"
  using assms linked_masks[OF assms(1)] by (simp add: Let_def)

lemma l4_stop: "pt_entry m p (pageindex va i) AND 1 = 0 \<Longrightarrow> l4_levels (i # is) m va perm p = Inr 0"
  by (simp add: Let_def)

lemmas walk_simps = lookup_levels.simps l4_levels.simps
declare walk_simps(2,4) [simp del]

lemma lookup_l4_wf:
  assumes wf: "pt_wf m pt"
  shows "lookup_l4pagetable m pt va perm =
    Inr (if vpn va < 1024 then L4_of m pt (vpn va div 512) else 0)"
proof -
  let ?i = "pageindex va"
  have lt: "?i 0 < 512" "?i 1 < 512" "?i 2 < 512" by (simp_all add: pageindex_less)
  have s0: "l4_levels [0, 1, 2] m va perm pt = l4_levels [1, 2] m va perm (L2_of m pt)" if "?i 0 = 0"
    using l4_step[of m pt va 0] pt_wf_links(1)[OF wf] pt_wf_physical(2)[OF wf]
    by (simp only: that L2_of_def)
  have s1: "l4_levels [1, 2] m va perm (L2_of m pt) = l4_levels [2] m va perm (L3_of m pt)" if "?i 1 = 0"
    using l4_step[of m "L2_of m pt" va 1] pt_wf_links(2)[OF wf] pt_wf_physical(3)[OF wf]
    by (simp only: that L3_of_def)
  have s2: "l4_levels [2] m va perm (L3_of m pt) = Inr (L4_of m pt (?i 2))" if "?i 2 < 2"
    using l4_step[of m "L3_of m pt" va 2] pt_wf_links(3)[OF wf that] L4_of_nonzero(2)[OF wf that]
    by (simp only: L4_of_def l4_levels.simps(1))
  consider (a) "?i 0 \<noteq> 0" | (b) "?i 0 = 0" "?i 1 \<noteq> 0" | (c) "?i 0 = 0" "?i 1 = 0" "\<not> ?i 2 < 2"
    | (d) "?i 0 = 0" "?i 1 = 0" "?i 2 < 2" by blast
  then show ?thesis
  proof cases
    case a
    then show ?thesis
      unfolding lookup_l4pagetable_def using low_indices[of va] pt_wf_unlinked(1)[OF wf lt(1) a] by (simp add: l4_stop)
  next
    case b
    then show ?thesis
      unfolding lookup_l4pagetable_def using low_indices[of va] pt_wf_unlinked(2)[OF wf lt(2) b(2)] by (simp only: s0 l4_stop) simp
  next
    case c
    then show ?thesis
      unfolding lookup_l4pagetable_def using low_indices[of va] pt_wf_unlinked(3)[OF wf lt(3) c(3)] by (simp only: s0 s1 l4_stop) simp
  next
    case d
    then have v: "vpn va < 1024" using low_indices[of va] by simp
    then show ?thesis
      unfolding lookup_l4pagetable_def using d by (simp only: s0 s1 s2 index2_low if_True)
  qed
qed

section \<open>Address spaces as an interface\<close>

text \<open>
  What the callers of \<open>virtual_memory_map\<close> rely on: a root determines its table pages and
  its slots, writing a slot changes that slot alone, and a root whose table pages are
  disjoint from the written one sees no change. The loops that fill or copy whole ranges
  (\<open>virtual_memory_map\<close> itself, \<open>duplicate_pagetable\<close>, the fork handler) are folds of
  single writes and are settled here once.
\<close>

locale address_spaces =
  fixes wf :: "'m \<Rightarrow> 'p \<Rightarrow> bool"
    and space :: "'m \<Rightarrow> 'p \<Rightarrow> nat \<Rightarrow> 'e"
    and tables :: "'m \<Rightarrow> 'p \<Rightarrow> 'q list"
    and put :: "'m \<Rightarrow> 'p \<Rightarrow> nat \<Rightarrow> 'e \<Rightarrow> 'm"
    and valid :: "nat \<Rightarrow> bool"
  assumes wf_put: "wf m p \<Longrightarrow> valid v \<Longrightarrow> wf (put m p v e) p"
    and space_put: "wf m p \<Longrightarrow> valid v \<Longrightarrow> space (put m p v e) p = (space m p)(v := e)"
    and tables_put: "wf m p \<Longrightarrow> valid v \<Longrightarrow> tables (put m p v e) p = tables m p"
    and put_other: "wf m p \<Longrightarrow> valid v \<Longrightarrow> wf m q \<Longrightarrow> set (tables m p) \<inter> set (tables m q) = {}
      \<Longrightarrow> wf (put m p v e) q \<and> space (put m p v e) q = space m q \<and> tables (put m p v e) q = tables m q"
begin

lemma put_fold:
  assumes "wf m p" "\<forall>x \<in> set xs. valid (f x)"
  shows "wf (fold (\<lambda>x m. put m p (f x) (e x)) xs m) p
    \<and> tables (fold (\<lambda>x m. put m p (f x) (e x)) xs m) p = tables m p
    \<and> space (fold (\<lambda>x m. put m p (f x) (e x)) xs m) p = fold (\<lambda>x s. s(f x := e x)) xs (space m p)"
  using assms
proof (induction xs arbitrary: m)
  case Nil
  then show ?case by simp
next
  case (Cons x xs)
  then have "wf (put m p (f x) (e x)) p" by (simp add: wf_put)
  with Cons.IH[OF this] Cons.prems show ?case by (simp add: space_put tables_put)
qed

lemma put_fold_other:
  assumes "wf m p" "wf m q" "set (tables m p) \<inter> set (tables m q) = {}" "\<forall>x \<in> set xs. valid (f x)"
  shows "wf (fold (\<lambda>x m. put m p (f x) (e x)) xs m) q
    \<and> tables (fold (\<lambda>x m. put m p (f x) (e x)) xs m) q = tables m q
    \<and> space (fold (\<lambda>x m. put m p (f x) (e x)) xs m) q = space m q"
  using assms
proof (induction xs arbitrary: m)
  case Nil
  then show ?case by simp
next
  case (Cons x xs)
  then have v: "valid (f x)" by simp
  note o = put_other[OF Cons.prems(1) v Cons.prems(2,3), of "e x"]
  have "wf (put m p (f x) (e x)) p" "tables (put m p (f x) (e x)) p = tables m p"
    using Cons.prems v by (simp_all add: wf_put tables_put)
  with o Cons.IH[of "put m p (f x) (e x)"] Cons.prems show ?case by simp
qed

text \<open>A copying loop reads slots of \<open>q\<close> while it writes \<open>p\<close>; the reads see the initial slots.\<close>

lemma put_fold_copy:
  assumes "wf m p" "wf m q" "set (tables m p) \<inter> set (tables m q) = {}" "\<forall>x \<in> set xs. valid (f x)"
  shows "fold (\<lambda>x m. put m p (f x) (g (space m q (f x)))) xs m
       = fold (\<lambda>x m'. put m' p (f x) (g (space m q (f x)))) xs m"
  using assms
proof (induction xs arbitrary: m)
  case Nil
  then show ?case by simp
next
  case (Cons x xs)
  then have v: "valid (f x)" by simp
  let ?m = "put m p (f x) (g (space m q (f x)))"
  note o = put_other[OF Cons.prems(1) v Cons.prems(2,3)]
  have "wf ?m p" "tables ?m p = tables m p" using Cons.prems v by (simp_all add: wf_put tables_put)
  with o Cons.IH[of ?m] Cons.prems show ?case by simp
qed

end


section \<open>Writing a slot\<close>

lemma same_pages_slots:
  assumes wf: "pt_wf m pt" and same: "\<And>p. p \<in> set (pt_pages m pt) \<Longrightarrow> same_page m m' p"
  shows "pt_pages m' pt = pt_pages m pt" "pt_wf m' pt" "slots m' pt = slots m pt"
proof -
  note al = pt_wf_aligned[OF wf]
  have e: "pt_entry m' p i = pt_entry m p i" if "p \<in> set (pt_pages m pt)" "i < 512" for p i
    using pt_entry_same_page[OF same_page_sym[OF same[OF that(1)]] _ that(2)] that(1) al
    by (auto simp: pt_pages_def)
  have l: "L2_of m' pt = L2_of m pt" "L3_of m' pt = L3_of m pt"
    "L4_of m' pt 0 = L4_of m pt 0" "L4_of m' pt 1 = L4_of m pt 1"
    using e by (simp_all add: L2_of_def L3_of_def L4_of_def pt_pages_def)
  then show p: "pt_pages m' pt = pt_pages m pt" by (simp add: pt_pages_def)
  show "pt_wf m' pt"
    using wf unfolding pt_wf_def p l by (auto simp: e pt_pages_def)
  show "slots m' pt = slots m pt"
  proof
    fix n
    show "slots m' pt n = slots m pt n"
    proof (cases "n < 1024")
      case True
      then have "n div 512 = 0 \<or> n div 512 = 1" by auto
      then show ?thesis using e l by (auto simp: slots_def pt_pages_def)
    next
      case False
      then show ?thesis by (simp add: slots_def)
    qed
  qed
qed

lemma put_slot_same_page:
  assumes "pt_wf m pt" "v < 1024" "Q \<notin> {L4_of m pt 0, L4_of m pt 1}"
  shows "same_page m (put_slot m pt v e) Q"
proof -
  have "v div 512 = 0 \<or> v div 512 = 1" using assms(2) by auto
  then show ?thesis
    unfolding put_slot_def using assms pt_wf_aligned
    by (intro set_pt_entry_same_page) auto
qed

lemma put_slot_self:
  assumes wf: "pt_wf m pt" and v: "v < 1024"
  shows "pt_wf (put_slot m pt v e) pt" "pt_pages (put_slot m pt v e) pt = pt_pages m pt"
    "slots (put_slot m pt v e) pt = (slots m pt)(v := e)"
proof -
  let ?m = "put_slot m pt v e"
  note al = pt_wf_aligned[OF wf]
  have dist: "distinct (pt_pages m pt)" using wf by (simp add: pt_wf_def)
  have same: "same_page m ?m p" if "p \<in> {pt, L2_of m pt, L3_of m pt}" for p
    using that dist wf v by (intro put_slot_same_page) (auto simp: pt_pages_def)
  have en: "pt_entry ?m p i = pt_entry m p i" if "p \<in> {pt, L2_of m pt, L3_of m pt}" "i < 512" for p i
    using pt_entry_same_page[OF same_page_sym[OF same[OF that(1)]] _ that(2)] that(1) al by auto
  have l: "L2_of ?m pt = L2_of m pt" "L3_of ?m pt = L3_of m pt" "i < 512 \<Longrightarrow> L4_of ?m pt i = L4_of m pt i" for i
    using en by (simp_all add: L2_of_def L3_of_def L4_of_def)
  show p: "pt_pages ?m pt = pt_pages m pt" by (simp add: pt_pages_def l)
  show "pt_wf ?m pt" using wf unfolding pt_wf_def p l by (auto simp: en)
  show "slots ?m pt = (slots m pt)(v := e)"
  proof
    fix n
    show "slots ?m pt n = ((slots m pt)(v := e)) n"
    proof (cases "n < 1024")
      case True
      have inj: "L4_of m pt (v div 512) = L4_of m pt (n div 512) \<longleftrightarrow> v div 512 = n div 512"
      proof -
        have "v div 512 \<in> {0, 1}" "n div 512 \<in> {0, 1}" using v True by auto
        then show ?thesis using dist by (auto simp: pt_pages_def)
      qed
      have "v div 512 = n div 512 \<and> v mod 512 = n mod 512 \<longleftrightarrow> v = n"
        by (metis div_mult_mod_eq)
      moreover have "slots ?m pt n = pt_entry ?m (L4_of m pt (n div 512)) (n mod 512)"
        using True by (simp add: slots_def l)
      ultimately show ?thesis
        using True al inj unfolding put_slot_def by (auto simp: slots_def pt_entry_set)
    next
      case False
      then show ?thesis using v by (simp add: slots_def)
    qed
  qed
qed

interpretation pt: address_spaces pt_wf slots pt_pages put_slot "\<lambda>v. v < 1024"
proof (unfold_locales, goal_cases)
  case (4 m p v q e)
  have "same_page m (put_slot m p v e) x" if "x \<in> set (pt_pages m q)" for x
    using 4 that by (intro put_slot_same_page) (auto simp: pt_pages_def)
  from same_pages_slots[OF 4(3) this] show ?case by simp
qed (simp_all add: put_slot_self)

section \<open>Mapping a range\<close>

text \<open>The entry \<open>virtual_memory_map\<close> writes for the \<open>k\<close>-th page of a range.\<close>

definition map_entry :: "64 word \<Rightarrow> int \<Rightarrow> nat \<Rightarrow> 64 word" where
  "map_entry pa perm k =
     (if word_of_int perm AND PTE_P \<noteq> 0 then pa + of_nat k * PAGESIZE + word_of_int perm
      else word_of_int perm)"

definition put_range :: "nat \<Rightarrow> nat \<Rightarrow> (nat \<Rightarrow> 64 word) \<Rightarrow> memory \<Rightarrow> 64 word \<Rightarrow> memory" where
  "put_range v n e m pt = fold (\<lambda>k m. put_slot m pt (v + k) (e k)) [0..<n] m"

lemma put_range_0 [simp]: "put_range v 0 e m pt = m"
  by (simp add: put_range_def)

lemma put_range_Suc: "put_range v (Suc n) e m pt =
    put_range (Suc v) n (\<lambda>k. e (Suc k)) (put_slot m pt v (e 0)) pt"
proof -
  have "[0..<Suc n] = 0 # map Suc [0..<n]" by (simp add: map_Suc_upt upt_conv_Cons del: upt_Suc)
  then show ?thesis by (simp add: put_range_def fold_map o_def del: upt_Suc)
qed

lemma fold_upd_range: "fold (\<lambda>k s. s(v + k := e k)) [0..<n] s =
    (\<lambda>j. if v \<le> j \<and> j < v + n then e (j - v) else s j)"
  by (induction n) (auto simp: fun_eq_iff)

lemma put_range_self:
  assumes "pt_wf m pt" "v + n \<le> 1024"
  shows "pt_wf (put_range v n e m pt) pt" "pt_pages (put_range v n e m pt) pt = pt_pages m pt"
    "slots (put_range v n e m pt) pt = (\<lambda>j. if v \<le> j \<and> j < v + n then e (j - v) else slots m pt j)"
  using pt.put_fold[OF assms(1), of "[0..<n]" "\<lambda>k. v + k" e] assms(2)
  by (simp_all add: put_range_def fold_upd_range)

lemma put_range_other:
  assumes "pt_wf m pt" "pt_wf m q" "set (pt_pages m pt) \<inter> set (pt_pages m q) = {}" "v + n \<le> 1024"
  shows "pt_wf (put_range v n e m pt) q" "pt_pages (put_range v n e m pt) q = pt_pages m q"
    "slots (put_range v n e m pt) q = slots m q"
  using pt.put_fold_other[OF assms(1-3), of "[0..<n]" "\<lambda>k. v + k" e] assms(4)
  by (simp_all add: put_range_def)

lemma put_range_same_page:
  assumes "pt_wf m pt" "v + n \<le> 1024" "Q \<notin> {L4_of m pt 0, L4_of m pt 1}"
  shows "same_page m (put_range v n e m pt) Q"
  using assms
proof (induction n arbitrary: v e m)
  case 0
  then show ?case by simp
next
  case (Suc n)
  then have v: "v < 1024" by simp
  let ?m = "put_slot m pt v (e 0)"
  have "L4_of ?m pt 0 = L4_of m pt 0" "L4_of ?m pt 1 = L4_of m pt 1"
    using put_slot_self(2)[OF Suc.prems(1) v, of "e 0"] by (simp_all add: pt_pages_def)
  then have "same_page ?m (put_range (Suc v) n (\<lambda>k. e (Suc k)) ?m pt) Q"
    using Suc.prems put_slot_self(1)[OF Suc.prems(1) v] by (intro Suc.IH) auto
  with put_slot_same_page[OF Suc.prems(1) v Suc.prems(3)] show ?case
    unfolding put_range_Suc by (rule same_page_trans)
qed

lemma cur_index_low:
  assumes "unat va < 0x400000"
  shows "sint (ucast (drop_bit 21 va) :: 32 word) = int (vpn va div 512)"
proof -
  have d: "drop_bit 21 va = of_nat (vpn va div 512)"
  proof (rule word_unat_eq_iff[THEN iffD2])
    have "unat (drop_bit 21 va) = unat va div 2 ^ 21" by (simp add: drop_bit_eq_div unat_div)
    moreover have "vpn va div 512 = unat va div 2 ^ 21"
      using assms by (simp add: vpn_low div_mult2_eq [symmetric])
    moreover have "unat va div 2 ^ 21 < 2 ^ 64" using assms by simp
    ultimately show "unat (drop_bit 21 va) = unat (of_nat (vpn va div 512) :: 64 word)"
      by (simp only: unat_of_nat64)
  qed
  have "vpn va div 512 < 2 ^ 31" using assms by (simp add: vpn_low)
  then show ?thesis
    unfolding d by (simp add: ucast_of_nat32 signed_of_nat signed_take_bit_int_eq_self)
qed

lemma vpn_add_page:
  assumes "unat va + 4096 < 2 ^ 48"
  shows "vpn (va + PAGESIZE) = Suc (vpn va)" "unat (va + PAGESIZE) = unat va + 4096"
proof -
  show u: "unat (va + PAGESIZE) = unat va + 4096" using assms by (simp add: unat_word_ariths)
  show "vpn (va + PAGESIZE) = Suc (vpn va)"
    using assms by (subst (1 2) vpn_low) (simp_all add: u)
qed

lemma map_loop_range:
  assumes "pt_wf m pt" "unat va + 4096 * n \<le> 0x400000"
    and "\<And>i. i < 2 \<Longrightarrow> li = int i \<Longrightarrow> l4 = L4_of m pt i"
  shows "map_loop n m pt va pa perm li l4 = Inr (0, put_range (vpn va) n (map_entry pa perm) m pt)"
  using assms
proof (induction n arbitrary: m va pa li l4)
  case 0
  then show ?case by simp
next
  case (Suc n)
  then have low: "unat va < 0x400000" by simp
  then have v: "vpn va < 1024" by (simp add: vpn_low)
  define i where "i = vpn va div 512"
  have i: "i < 2" using v by (auto simp: i_def)
  have cur: "sint (ucast (drop_bit 21 va) :: 32 word) = int i" by (simp only: cur_index_low[OF low] i_def)
  have l4: "(if int i \<noteq> li then lookup_l4pagetable m pt va perm else Inr l4) = Inr (L4_of m pt i)"
    using Suc.prems(3)[OF i] lookup_l4_wf[OF Suc.prems(1), of va perm] v by (auto simp: i_def)
  have nz: "L4_of m pt i \<noteq> 0" by (rule L4_of_nonzero(1)[OF Suc.prems(1) i])
  let ?m = "put_slot m pt (vpn va) (map_entry pa perm 0)"
  have put: "set_pt_entry m (L4_of m pt i) (pageindex va 3) (map_entry pa perm 0) = ?m"
    by (simp add: put_slot_def i_def pageindex_vpn)
  note self = put_slot_self[OF Suc.prems(1) v, of "map_entry pa perm 0"]
  have l4': "L4_of ?m pt j = L4_of m pt j" if "j < 2" for j
    using self(2) that by (auto simp: pt_pages_def less_2_cases_iff)
  have e: "map_entry pa perm (Suc k) = map_entry (pa + PAGESIZE) perm k" for k
    by (simp add: map_entry_def algebra_simps)
  have "map_loop (Suc n) m pt va pa perm li l4
      = map_loop n ?m pt (va + PAGESIZE) (pa + PAGESIZE) perm (int i) (L4_of m pt i)"
    using nz put[symmetric] by (simp add: Let_def cur l4 map_entry_def)
  also have "\<dots> = Inr (0, put_range (Suc (vpn va)) n (map_entry (pa + PAGESIZE) perm) ?m pt)"
  proof (cases n)
    case 0
    then show ?thesis by simp
  next
    case (Suc k)
    then have "unat va + 4096 < 2 ^ 48" using Suc.prems(2) by simp
    note step = vpn_add_page[OF this]
    show ?thesis
      unfolding step(1)[symmetric]
      by (rule Suc.IH) (use self(1) Suc.prems step(2) l4' i in auto)
  qed
  finally show ?case by (simp add: put_range_Suc e[abs_def])
qed

lemma size_args:
  assumes "4096 * n < 2 ^ 64"
  shows "unat (of_nat n * PAGESIZE) = 4096 * n" "unat (of_nat n * PAGESIZE div PAGESIZE) = n"
    "of_nat n * PAGESIZE mod PAGESIZE = 0"
proof -
  have sz: "of_nat n * PAGESIZE = (of_nat (4096 * n) :: 64 word)" by simp
  show usz: "unat (of_nat n * PAGESIZE) = 4096 * n" unfolding sz by (rule unat_of_nat64[OF assms])
  show "unat (of_nat n * PAGESIZE div PAGESIZE) = n" by (simp only: unat_div usz) simp
  show "of_nat n * PAGESIZE mod PAGESIZE = 0" by (simp only: word_unat_eq_iff unat_mod usz) simp
qed

lemma plus_size:
  assumes "unat a + 4096 * n < 2 ^ 64"
  shows "unat (a + of_nat n * PAGESIZE) = unat a + 4096 * n" "a \<le> a + of_nat n * PAGESIZE"
proof -
  have n: "4096 * n < 2 ^ 64" using assms by simp
  show u: "unat (a + of_nat n * PAGESIZE) = unat a + 4096 * n"
    unfolding unat_word_ariths(1) size_args[OF n] using assms by simp
  show "a \<le> a + of_nat n * PAGESIZE" unfolding word_le_nat_alt u by simp
qed

lemma phys_size: "unat pa + 4096 * n \<le> 0x200000 \<Longrightarrow> pa + of_nat n * PAGESIZE \<le> MEMSIZE_PHYSICAL"
  unfolding word_le_nat_alt by (subst plus_size) simp_all

lemma virtual_memory_map_range:
  assumes wf: "pt_wf m pt" and al: "page_aligned va" and low: "unat va + 4096 * n \<le> 0x400000"
    and perm: "0 \<le> perm" "perm < 0x1000"
    and pa: "word_of_int perm AND PTE_P \<noteq> 0 \<Longrightarrow> page_aligned pa \<and> unat pa + 4096 * n \<le> 0x200000"
  shows "virtual_memory_map m pt va pa (of_nat n * PAGESIZE) perm =
    Inr (0, put_range (vpn va) n (map_entry pa perm) m pt)"
proof -
  have "4096 * n < 2 ^ 64" "unat va + 4096 * n < 2 ^ 64" using low by simp_all
  note args = size_args[OF this(1)] plus_size[OF this(2)]
  have "pa mod PAGESIZE = 0 \<and> pa \<le> pa + of_nat n * PAGESIZE \<and> pa + of_nat n * PAGESIZE \<le> MEMSIZE_PHYSICAL"
    if "word_of_int perm AND PTE_P \<noteq> 0"
    using pa[OF that] plus_size(2)[of pa n] phys_size[of pa n] by (simp add: mod_PAGESIZE)
  moreover have "map_loop n m pt va pa perm (-1) 0 = Inr (0, put_range (vpn va) n (map_entry pa perm) m pt)"
    by (rule map_loop_range[OF wf low]) simp
  ultimately show ?thesis
    using args al perm pt_wf_aligned(1)[OF wf] unfolding virtual_memory_map_def
    by (simp add: mod_PAGESIZE)
qed

section \<open>What the mapped range looks like\<close>

lemma and_1_plus:
  assumes "page_aligned P" "off < 4096"
  shows "(P + off) AND 1 = off AND 1"
proof -
  have "(P + off) AND 1 = ((P + off) AND 0xFFF) AND 1" by (simp add: and.assoc)
  also have "\<dots> = off AND 1" using assms by (simp only: PAGEOFFSET_def aligned_plus_off)
  finally show ?thesis .
qed

lemma word_of_perm:
  assumes "0 \<le> perm" "perm < 0x1000"
  shows "(word_of_int perm :: 64 word) < 4096" "uint (word_of_int perm :: 64 word) = perm"
proof -
  show u: "uint (word_of_int perm :: 64 word) = perm" using assms by (simp add: take_bit_int_eq_self unsigned_of_int)
  show "(word_of_int perm :: 64 word) < 4096" using assms by (simp only: word_less_def u) simp
qed

lemma vam_of_mapped:
  assumes "page_aligned P" "unat P < 2 ^ 42" "0 \<le> perm" "perm < 0x1000" "word_of_int perm AND PTE_P \<noteq> 0"
  shows "vam_of (P + word_of_int perm) va =
    \<lparr>vam_pn = int (unat P div 4096), vam_pa = P + PAGEOFFSET va, vam_perm = perm\<rparr>"
proof -
  note w = word_of_perm[OF assms(3,4)]
  have u: "unat (P + word_of_int perm) = unat P + unat (word_of_int perm :: 64 word)"
    using assms(2) w(1) by (simp add: unat_word_ariths word_less_nat_alt)
  have "unat P mod 4096 = 0" using assms(1) by (simp add: page_aligned_nat)
  then have "PAGENUMBER (P + word_of_int perm) = int (unat P div 4096)"
    using w(1) assms(2) by (subst PAGENUMBER_nat) (auto simp: u word_less_nat_alt)
  then show ?thesis
    using assms w by (simp add: vam_of_def and_1_plus PTE_ADDR_plus PTE_FLAGS_plus)
qed

lemma vpn_offset:
  assumes "page_aligned va" "unat va + X < 2 ^ 48"
  shows "vpn (va + of_nat X) = vpn va + X div 4096" "PAGEOFFSET (va + of_nat X) = of_nat (X mod 4096)"
    "unat (va + of_nat X) = unat va + X"
proof -
  have X: "unat (of_nat X :: 64 word) = X" using assms(2) by (intro unat_of_nat64) simp
  show u: "unat (va + of_nat X) = unat va + X" unfolding unat_word_ariths(1) X using assms(2) by simp
  have "unat va mod 4096 = 0" using assms(1) by (simp add: page_aligned_nat)
  then obtain q where q: "unat va = 4096 * q" by auto
  show "vpn (va + of_nat X) = vpn va + X div 4096"
    using assms(2) by (subst (1 2) vpn_low) (simp_all add: u q)
  show "PAGEOFFSET (va + of_nat X) = of_nat (X mod 4096)"
    by (simp only: word_unat_eq_iff PAGEOFFSET_nat u q) (simp add: unat_of_nat64)
qed

lemma same_slot:
  assumes "page_aligned va" "unat va + 4096 * n \<le> 0x400000" "unat va' < 2 ^ 48"
  shows "vpn va \<le> vpn va' \<and> vpn va' < vpn va + n \<longleftrightarrow> unat va \<le> unat va' \<and> unat va' < unat va + 4096 * n"
proof -
  have "unat va mod 4096 = 0" using assms(1) by (simp add: page_aligned_nat)
  then obtain q where q: "unat va = 4096 * q" by auto
  have "vpn va = q" "vpn va' = unat va' div 4096" using assms q by (simp_all add: vpn_low)
  then show ?thesis unfolding q by auto
qed

section \<open>Building the five tables\<close>

definition link_tables ::
  "memory \<Rightarrow> 64 word \<Rightarrow> 64 word \<Rightarrow> 64 word \<Rightarrow> 64 word \<Rightarrow> 64 word \<Rightarrow> memory" where
  "link_tables m L1 L2 L3 L4a L4b =
     set_pt_entry (set_pt_entry (set_pt_entry (set_pt_entry m L1 0 (L2 OR 7)) L2 0 (L3 OR 7))
       L3 0 (L4a OR 7)) L3 1 (L4b OR 7)"

definition zero_page :: "memory \<Rightarrow> 64 word \<Rightarrow> bool" where
  "zero_page m P \<longleftrightarrow> (\<forall>x. PTE_ADDR x = P \<longrightarrow> m x = 0)"

lemma load_le_zero: "load_le (\<lambda>_. 0) a n = 0"
  by (induction n arbitrary: a) simp_all

lemma pt_entry_zero_page:
  assumes "zero_page m P" "page_aligned P" "i < 512"
  shows "pt_entry m P i = 0"
proof -
  have "same_page m (\<lambda>_. 0) P" using assms(1) by (simp add: zero_page_def same_page_def)
  from pt_entry_same_page[OF this assms(2,3)] show ?thesis by (simp add: pt_entry_def load_le_zero)
qed

lemma aligned_or_7:
  assumes "page_aligned P"
  shows "P OR 7 = P + 7" "PTE_ADDR (P OR 7) = P" "linked (P OR 7)"
proof -
  show "P OR 7 = P + 7" using assms aligned_plus_or[of P 7] by (simp add: PAGEOFFSET_def)
  then show "PTE_ADDR (P OR 7) = P" using assms by (simp add: PTE_ADDR_plus)
  show "linked (P OR 7)"
  proof (rule bit_word_eqI)
    fix k assume "k < LENGTH(64)"
    have "\<not> bit (PTE_ADDR P) 7" unfolding PTE_ADDR_def mask12 by (simp add: bit_simps)
    then have "\<not> bit P 7" unfolding PTE_ADDR_self[OF assms] .
    then show "bit ((P OR 7) AND 0x87) k = bit (7 :: 64 word) k" unfolding mask_87 by (auto simp only: bit_and_iff bit_or_iff bit_7 bit_128)
  qed
qed

lemma link_tables_wf:
  assumes dist: "distinct [L1, L2, L3, L4a, L4b]"
    and al: "\<forall>p \<in> {L1, L2, L3, L4a, L4b}. page_aligned p \<and> p \<noteq> 0 \<and> p < MEMSIZE_PHYSICAL"
    and zero: "\<forall>p \<in> {L1, L2, L3, L4a, L4b}. zero_page m p"
  defines "m' \<equiv> link_tables m L1 L2 L3 L4a L4b"
  shows "pt_wf m' L1" "pt_pages m' L1 = [L1, L2, L3, L4a, L4b]" "slots m' L1 = (\<lambda>_. 0)"
    "Q \<notin> {L1, L2, L3} \<Longrightarrow> same_page m m' Q"
proof -
  have a: "page_aligned L1" "page_aligned L2" "page_aligned L3" "page_aligned L4a" "page_aligned L4b"
    using al by simp_all
  have z: "pt_entry m p i = 0" if "p \<in> {L1, L2, L3, L4a, L4b}" "i < 512" for p i
    using pt_entry_zero_page[of m p i] zero al that by auto
  have e: "pt_entry m' p i =
      (if p = L1 \<and> i = 0 then L2 OR 7 else if p = L2 \<and> i = 0 then L3 OR 7
       else if p = L3 \<and> i = 0 then L4a OR 7 else if p = L3 \<and> i = 1 then L4b OR 7 else 0)"
    if "p \<in> {L1, L2, L3, L4a, L4b}" "i < 512" for p i
  proof -
    have "page_aligned p" using al that by auto
    then show ?thesis
      unfolding m'_def link_tables_def using that a dist
      by (auto simp: pt_entry_set z)
  qed
  have ne: "L2 \<noteq> L1" "L3 \<noteq> L1" "L3 \<noteq> L2" "L4a \<noteq> L1" "L4a \<noteq> L2" "L4a \<noteq> L3"
    "L4b \<noteq> L1" "L4b \<noteq> L2" "L4b \<noteq> L3" using dist by auto
  have l: "L2_of m' L1 = L2" "L3_of m' L1 = L3" "L4_of m' L1 0 = L4a" "L4_of m' L1 1 = L4b"
    using ne a by (simp_all add: L2_of_def L3_of_def L4_of_def e aligned_or_7(2,3))
  show p: "pt_pages m' L1 = [L1, L2, L3, L4a, L4b]" by (simp only: pt_pages_def l)
  show "pt_wf m' L1"
    unfolding pt_wf_def p l using dist ne al a by (simp add: e aligned_or_7(2,3))
  show "slots m' L1 = (\<lambda>_. 0)"
  proof
    fix n :: nat
    have "n div 512 = 0 \<or> n div 512 = 1" if "n < 1024" using that by auto
    then show "slots m' L1 n = 0" using ne by (auto simp: slots_def l[unfolded One_nat_def] e)
  qed
  show "same_page m m' Q" if "Q \<notin> {L1, L2, L3}"
    unfolding m'_def link_tables_def using that a
    by (auto intro!: same_page_trans[OF _ set_pt_entry_same_page] set_pt_entry_same_page)
qed

lemma diff_less_page:
  assumes "page_aligned P"
  shows "x - P < 4096 \<longleftrightarrow> PTE_ADDR x = P"
proof
  assume "x - P < 4096"
  from PTE_ADDR_plus[OF assms this] show "PTE_ADDR x = P" by simp
next
  assume "PTE_ADDR x = P"
  moreover have "x = PTE_ADDR x + PAGEOFFSET x"
    unfolding PTE_ADDR_def PAGEOFFSET_def by (rule addr_plus_off [symmetric])
  ultimately have "x - P = PAGEOFFSET x" by (metis add_diff_cancel_left')
  then show "x - P < 4096" by (simp add: PAGEOFFSET_def and_FFF_less)
qed

lemma memset_page:
  assumes "page_aligned P"
  shows "zero_page (memset m P 0 PAGESIZE) P" "Q \<noteq> P \<Longrightarrow> same_page m (memset m P 0 PAGESIZE) Q"
  using diff_less_page[OF assms] by (auto simp: memset_effect zero_page_def same_page_def)

lemma lookup_put_range:
  assumes wf: "pt_wf m pt" and al: "page_aligned va" "page_aligned pa"
    and low: "unat va + 4096 * n \<le> 0x400000" "unat pa + 4096 * n \<le> 0x200000"
    and perm: "0 \<le> perm" "perm < 0x1000" "word_of_int perm AND PTE_P \<noteq> 0"
    and X: "X < 4096 * n"
  shows "virtual_memory_lookup (put_range (vpn va) n (map_entry pa perm) m pt) pt (va + of_nat X) =
      \<lparr>vam_pn = int ((unat pa + X) div 4096), vam_pa = pa + of_nat X, vam_perm = perm\<rparr>"
proof -
  let ?m = "put_range (vpn va) n (map_entry pa perm) m pt"
  let ?P = "pa + of_nat (X div 4096 * 4096)"
  have vn: "vpn va + n \<le> 1024" using low(1) by (simp add: vpn_low)
  note self = put_range_self[OF wf vn, of "map_entry pa perm"]
  have "unat va + X < 2 ^ 48" "unat pa + X div 4096 * 4096 < 2 ^ 48" using X low by auto
  note v = vpn_offset[OF al(1) this(1)] and p = vpn_offset[OF al(2) this(2)]
  have k: "X div 4096 < n" using X by auto
  then have "slots ?m pt (vpn va + X div 4096) = ?P + word_of_int perm"
    using perm(3) by (simp add: self map_entry_def)
  moreover have "page_aligned ?P" unfolding p(2) by simp
  moreover have "unat ?P < 2 ^ 42" unfolding p(3) using X low(2) by auto
  ultimately have "virtual_memory_lookup ?m pt (va + of_nat X) =
      \<lparr>vam_pn = int (unat ?P div 4096), vam_pa = ?P + PAGEOFFSET (va + of_nat X), vam_perm = perm\<rparr>"
    using vam_of_mapped[of ?P perm "va + of_nat X"] perm
    by (simp only: lookup_slots[OF self(1)] v(1) simp_thms)
  moreover have "?P + PAGEOFFSET (va + of_nat X) = pa + of_nat X"
    unfolding v(2) by (metis (no_types, lifting) add.assoc of_nat_add div_mult_mod_eq)
  moreover have "unat ?P div 4096 = (unat pa + X) div 4096"
    unfolding p(3) using al(2) by (simp add: page_aligned_nat div_add1_eq)
  ultimately show ?thesis by simp
qed

section \<open>Properties of mapping and lookup\<close>

text \<open>C15: \<open>virtual_memory_map\<close> does what its comment promises. On a well-formed table, for a
  page-aligned range below the end of the table (4 MB) and physical pages that exist, the call
  succeeds; afterwards every byte \<open>va + X\<close> of the range translates to \<open>pa + X\<close> with exactly
  the requested permissions, every other address translates as before, the table keeps its
  shape, and no page of memory other than the two last-level tables is written.\<close>

theorem map_then_lookup:
  assumes "pt_wf m pt" "page_aligned va" "page_aligned pa"
    and "unat va + 4096 * n \<le> 0x400000" "unat pa + 4096 * n \<le> 0x200000"
    and "0 \<le> perm" "perm < 0x1000" "word_of_int perm AND PTE_P \<noteq> 0"
  shows "\<exists>m'. virtual_memory_map m pt va pa (of_nat n * PAGESIZE) perm = Inr (0, m')
    \<and> pt_wf m' pt \<and> pt_pages m' pt = pt_pages m pt
    \<and> (\<forall>X < 4096 * n. virtual_memory_lookup m' pt (va + of_nat X) =
         \<lparr>vam_pn = int ((unat pa + X) div 4096), vam_pa = pa + of_nat X, vam_perm = perm\<rparr>)
    \<and> (\<forall>va'. unat va' < 2 ^ 48 \<longrightarrow> \<not> (unat va \<le> unat va' \<and> unat va' < unat va + 4096 * n) \<longrightarrow>
         virtual_memory_lookup m' pt va' = virtual_memory_lookup m pt va')
    \<and> (\<forall>Q. Q \<notin> {L4_of m pt 0, L4_of m pt 1} \<longrightarrow> same_page m m' Q)"
proof -
  let ?m = "put_range (vpn va) n (map_entry pa perm) m pt"
  have vn: "vpn va + n \<le> 1024" using assms(4) by (simp add: vpn_low)
  note self = put_range_self[OF assms(1) vn, of "map_entry pa perm"]
  have out: "virtual_memory_lookup ?m pt va' = virtual_memory_lookup m pt va'"
    if "unat va' < 2 ^ 48" "\<not> (unat va \<le> unat va' \<and> unat va' < unat va + 4096 * n)" for va'
    using same_slot[OF assms(2,4) that(1)] that(2)
    by (simp only: lookup_slots[OF self(1)] lookup_slots[OF assms(1)] self(3) if_False)
  have "virtual_memory_map m pt va pa (of_nat n * PAGESIZE) perm = Inr (0, ?m)"
    using assms by (intro virtual_memory_map_range) auto
  then show ?thesis
    using self out lookup_put_range[OF assms] put_range_same_page[OF assms(1) vn] by blast
qed

text \<open>\<open>virtual_memory_map\<close> checks its arguments. A misaligned virtual address or size, a
  misaligned or non-existent physical range of a present mapping, and permissions that do not
  fit 12 bits each end in the assertion on the line that checks it, before memory is touched.\<close>

theorem map_asserts:
  "(va mod PAGESIZE \<noteq> 0 \<longrightarrow> virtual_memory_map m pt va pa sz perm = Inl (Assert_fail ''vm.c'' 102)) \<and>
   (va mod PAGESIZE = 0 \<and> sz mod PAGESIZE \<noteq> 0 \<longrightarrow>
      virtual_memory_map m pt va pa sz perm = Inl (Assert_fail ''vm.c'' 103)) \<and>
   (va mod PAGESIZE = 0 \<and> sz mod PAGESIZE = 0 \<and> va \<le> va + sz \<and> word_of_int perm AND PTE_P \<noteq> 0 \<and>
    pa mod PAGESIZE \<noteq> 0 \<longrightarrow> virtual_memory_map m pt va pa sz perm = Inl (Assert_fail ''vm.c'' 106)) \<and>
   (va mod PAGESIZE = 0 \<and> sz mod PAGESIZE = 0 \<and> va \<le> va + sz \<and> word_of_int perm AND PTE_P \<noteq> 0 \<and>
    pa mod PAGESIZE = 0 \<and> pa \<le> pa + sz \<and> MEMSIZE_PHYSICAL < pa + sz \<longrightarrow>
      virtual_memory_map m pt va pa sz perm = Inl (Assert_fail ''vm.c'' 108)) \<and>
   (virtual_memory_map m pt va pa sz perm = Inr r \<longrightarrow>
      0 \<le> perm \<and> perm < 0x1000 \<and> page_aligned pt \<and> page_aligned va)"
proof -
  have "virtual_memory_map m pt va pa sz perm = Inr r \<Longrightarrow>
      0 \<le> perm \<and> perm < 0x1000 \<and> page_aligned pt \<and> page_aligned va"
    unfolding virtual_memory_map_def by (auto simp: bindR_eq_Inr assertR_eq_Inr mod_PAGESIZE)
  then show ?thesis
    unfolding virtual_memory_map_def assertR_def by (auto simp: not_le[symmetric])
qed

text \<open>
  A concrete page table for the witnesses: five zeroed pages at \<open>0x1000\<close> to \<open>0x5000\<close>,
  linked, with an empty address space.
\<close>

definition example_memory :: memory where
  "example_memory = link_tables (\<lambda>_. 0) 0x1000 0x2000 0x3000 0x4000 0x5000"

lemma example_memory_wf:
  "pt_wf example_memory 0x1000" "pt_pages example_memory 0x1000 = [0x1000, 0x2000, 0x3000, 0x4000, 0x5000]"
  "slots example_memory 0x1000 = (\<lambda>_. 0)"
  unfolding example_memory_def
  by (rule link_tables_wf; simp add: zero_page_def page_aligned_nat)+

theorem map_then_lookup_witness:
  "\<exists>m'. virtual_memory_map example_memory 0x1000 0x100000 0x8000 (of_nat 3 * PAGESIZE) 7 = Inr (0, m')
    \<and> virtual_memory_lookup m' 0x1000 (0x100000 + of_nat 0x1234) =
        \<lparr>vam_pn = 9, vam_pa = 0x8000 + of_nat 0x1234, vam_perm = 7\<rparr>"
proof -
  have "page_aligned 0x100000" "page_aligned 0x8000" by (simp_all add: page_aligned_nat)
  from map_then_lookup[OF example_memory_wf(1) this, where n = 3 and perm = 7] obtain m' where
    "virtual_memory_map example_memory 0x1000 0x100000 0x8000 (of_nat 3 * PAGESIZE) 7 = Inr (0, m')"
    "\<forall>X < 4096 * 3. virtual_memory_lookup m' 0x1000 (0x100000 + of_nat X) =
       \<lparr>vam_pn = int ((unat (0x8000 :: 64 word) + X) div 4096), vam_pa = 0x8000 + of_nat X, vam_perm = 7\<rparr>"
    by auto
  from this(1) spec[OF this(2), of "0x1234"] show ?thesis by auto
qed

theorem map_asserts_witness:
  "virtual_memory_map example_memory 0x1000 0x100001 0x8000 PAGESIZE 7 = Inl (Assert_fail ''vm.c'' 102)"
  using map_asserts[of "0x100001" example_memory "0x1000" "0x8000" PAGESIZE 7 "(0, example_memory)"] by simp

lemma cur_index_not_minus_1:
  fixes va :: "64 word"
  assumes "unat va < 2 ^ 48"
  shows "sint (ucast (drop_bit 21 va) :: 32 word) \<noteq> -1"
proof -
  define n where "n = unat va div 2 ^ 21"
  have n: "n < 2 ^ 31" using assms by (simp add: n_def less_mult_imp_div_less)
  have d: "drop_bit 21 va = of_nat n"
    by (simp only: word_unat_eq_iff) (use n in \<open>simp add: drop_bit_eq_div unat_div n_def unat_of_nat64\<close>)
  show ?thesis
    unfolding d using n by (simp add: ucast_of_nat32 signed_of_nat signed_take_bit_int_eq_self)
qed

text \<open>Beyond the two last-level tables (4 MB) nothing can be mapped: a present mapping is
  refused with -1 and memory is untouched, as the comment of \<open>virtual_memory_map\<close> says.\<close>

theorem map_no_table:
  assumes "pt_wf m pt" "page_aligned va" "page_aligned pa"
    and "0x400000 \<le> unat va" "unat va + 4096 * Suc n < 2 ^ 48" "unat pa + 4096 * Suc n \<le> 0x200000"
    and "0 \<le> perm" "perm < 0x1000" "word_of_int perm AND PTE_P \<noteq> 0"
  shows "virtual_memory_map m pt va pa (of_nat (Suc n) * PAGESIZE) perm = Inr (-1, m)"
proof -
  have "4096 * Suc n < 2 ^ 64" "unat va + 4096 * Suc n < 2 ^ 64" "unat pa + 4096 * Suc n < 2 ^ 64"
    using assms(5,6) by simp_all
  note args = size_args[OF this(1)] plus_size[OF this(2)] plus_size[OF this(3)] phys_size[OF assms(6)]
  have v: "\<not> vpn va < 1024" using assms(4,5) by (simp add: vpn_low)
  have "sint (ucast (drop_bit 21 va) :: 32 word) \<noteq> -1"
    using assms(5) by (intro cur_index_not_minus_1) simp
  then have "map_loop (Suc n) m pt va pa perm (-1) 0 = Inr (-1, m)"
    using assms(9) v by (simp add: Let_def lookup_l4_wf[OF assms(1)])
  then show ?thesis
    using args assms(2,3,7,8) pt_wf_aligned(1)[OF assms(1)] unfolding virtual_memory_map_def
    by (simp add: mod_PAGESIZE del: of_nat_Suc)
qed

theorem map_no_table_witness:
  "virtual_memory_map example_memory 0x1000 0x400000 0x8000 (of_nat (Suc 0) * PAGESIZE) 7 = Inr (-1, example_memory)"
  by (rule map_no_table[OF example_memory_wf(1)]) (simp_all add: page_aligned_nat)

section \<open>The kernel page table\<close>

text \<open>
  What the link script guarantees of the symbols: \<open>kernel_pagetables\<close> is page-aligned, lies in
  the kernel's data, and the kernel image ends below its stack page. The interrupt handler
  and \<open>virtual_memory_map\<close> are code of the kernel image.
\<close>

definition syms_ok :: "link_symbols \<Rightarrow> bool" where
  "syms_ok syms \<longleftrightarrow>
     page_aligned (sym_kernel_pagetables syms) \<and>
     KERNEL_START_ADDR \<le> sym_start_data syms \<and>
     sym_start_data syms \<le> sym_kernel_pagetables syms \<and>
     unat (sym_kernel_pagetables syms) + 5 * 4096 \<le> unat (sym_end syms) \<and>
     unat (sym_end syms) \<le> 0x7F000 \<and>
     KERNEL_START_ADDR \<le> sym_default_int_handler syms \<and> sym_default_int_handler syms < sym_end syms \<and>
     KERNEL_START_ADDR \<le> sym_virtual_memory_map syms \<and> sym_virtual_memory_map syms < sym_end syms"

definition example_syms :: link_symbols where
  "example_syms = \<lparr>sym_start_data = 0x45000, sym_end = 0x57008, sym_kernel_pagetables = 0x52000,
     sym_default_int_handler = 0x4009C, sym_virtual_memory_map = 0x42E14\<rparr>"

lemma example_syms_ok: "syms_ok example_syms"
  by (simp add: syms_ok_def example_syms_def page_aligned_nat)

definition kernel_tables :: "link_symbols \<Rightarrow> 64 word list" where
  "kernel_tables syms = map (\<lambda>i. sym_kernel_pagetables syms + of_nat i * PAGESIZE) [0..<5]"

definition identity_map :: "memory \<Rightarrow> 64 word \<Rightarrow> bool" where
  "identity_map m pt \<longleftrightarrow>
     (\<forall>va. unat va < 0x200000 \<longrightarrow> vam_pa (virtual_memory_lookup m pt va) = va)"

lemma init_check_ok:
  assumes "\<And>X. X < 4096 * n \<Longrightarrow> vam_pa (virtual_memory_lookup m pt (va + of_nat X)) = va + of_nat X"
    and "\<And>X. X < 4096 * n \<Longrightarrow> vam_perm (virtual_memory_lookup m pt (va + of_nat X)) = 7"
  shows "init_check n m pt va = Inr ()"
  using assms
proof (induction n arbitrary: va)
  case 0
  then show ?case by simp
next
  case (Suc n)
  have "init_check n m pt (va + PAGESIZE) = Inr ()"
    using Suc.prems[of "4096 + _"] by (intro Suc.IH) (simp_all add: add.assoc)
  then show ?case using Suc.prems[of 0] by (simp add: Let_def)
qed

lemma kernel_tables_ok:
  assumes "syms_ok syms"
  shows "distinct (kernel_tables syms)"
    "\<forall>p \<in> set (kernel_tables syms). page_aligned p \<and> p \<noteq> 0 \<and> p < MEMSIZE_PHYSICAL"
    "\<forall>p \<in> set (kernel_tables syms). zero_page (memset m (sym_kernel_pagetables syms) 0 (5 * PAGESIZE)) p"
    "Q \<notin> set (kernel_tables syms) \<Longrightarrow>
       same_page m (memset m (sym_kernel_pagetables syms) 0 (5 * PAGESIZE)) Q"
proof -
  define kp where "kp = sym_kernel_pagetables syms"
  have al: "page_aligned kp" and lo: "0x40000 \<le> unat kp" and hi: "unat kp + 5 * 4096 \<le> 0x7F000"
    using assms by (auto simp: syms_ok_def kp_def word_le_nat_alt)
  have u: "unat (kp + of_nat i * PAGESIZE) = unat kp + 4096 * i" if "i < 5" for i
    using hi that by (intro plus_size) simp
  have set_k: "set (kernel_tables syms) = {kp + of_nat i * PAGESIZE | i. i < 5}"
    by (auto simp: kernel_tables_def kp_def)
  show "distinct (kernel_tables syms)"
    unfolding kernel_tables_def distinct_map kp_def[symmetric]
    by (auto intro!: inj_onI dest!: arg_cong[where f = unat] simp: u)
  have ok: "page_aligned (kp + of_nat i * PAGESIZE)" "kp + of_nat i * PAGESIZE \<noteq> 0"
    "kp + of_nat i * PAGESIZE < MEMSIZE_PHYSICAL" if "i < 5" for i
  proof -
    show "page_aligned (kp + of_nat i * PAGESIZE)"
      unfolding page_aligned_nat u[OF that] using al by (auto simp: page_aligned_nat)
    show "kp + of_nat i * PAGESIZE < MEMSIZE_PHYSICAL"
      unfolding word_less_nat_alt u[OF that] using hi that by simp
    show "kp + of_nat i * PAGESIZE \<noteq> 0" using u[OF that] lo by auto
  qed
  then show "\<forall>p \<in> set (kernel_tables syms). page_aligned p \<and> p \<noteq> 0 \<and> p < MEMSIZE_PHYSICAL"
    unfolding set_k by auto
  have in_iff: "x - kp < 5 * PAGESIZE \<longleftrightarrow> PTE_ADDR x \<in> set (kernel_tables syms)" for x
  proof
    assume l: "x - kp < 5 * PAGESIZE"
    define d where "d = unat (x - kp)"
    then have d: "d div 4096 < 5" using l by (simp add: word_less_nat_alt)
    have "x = kp + of_nat d" by (simp add: d_def)
    then have x: "x = kp + of_nat (d div 4096) * PAGESIZE + of_nat (d mod 4096)"
      by (metis (no_types, lifting) add.assoc div_mult_mod_eq of_nat_add of_nat_mult of_nat_numeral)
    have "(of_nat (d mod 4096) :: 64 word) < 4096"
      unfolding word_less_nat_alt by (subst unat_of_nat64) simp_all
    then have "PTE_ADDR x = kp + of_nat (d div 4096) * PAGESIZE"
      using ok(1)[OF d] unfolding x by (rule PTE_ADDR_plus[rotated])
    with d show "PTE_ADDR x \<in> set (kernel_tables syms)" unfolding set_k by auto
  next
    assume "PTE_ADDR x \<in> set (kernel_tables syms)"
    then obtain i where i: "i < 5" "PTE_ADDR x = kp + of_nat i * PAGESIZE" unfolding set_k by auto
    then have "x - (kp + of_nat i * PAGESIZE) < 4096" using diff_less_page[OF ok(1)] by simp
    moreover define r where "r = unat (x - (kp + of_nat i * PAGESIZE))"
    ultimately have r: "r < 4096" by (simp add: word_less_nat_alt)
    have eq: "x - kp = of_nat (4096 * i + r)" by (simp add: r_def)
    show "x - kp < 5 * PAGESIZE"
      unfolding eq word_less_nat_alt by (subst unat_of_nat64) (use i(1) r in auto)
  qed
  show "\<forall>p \<in> set (kernel_tables syms). zero_page (memset m (sym_kernel_pagetables syms) 0 (5 * PAGESIZE)) p"
    unfolding kp_def[symmetric] by (auto simp: zero_page_def memset_effect in_iff[simplified])
  show "same_page m (memset m (sym_kernel_pagetables syms) 0 (5 * PAGESIZE)) Q"
    if "Q \<notin> set (kernel_tables syms)"
    unfolding kp_def[symmetric] using that by (auto simp: same_page_def memset_effect in_iff[simplified])
qed

lemma vpn_of_page: "unat va < 2 ^ 48 \<Longrightarrow> of_nat (vpn va) * PAGESIZE + PAGEOFFSET va = va"
proof -
  assume va: "unat va < 2 ^ 48"
  have "unat va = unat va div 4096 * 4096 + unat va mod 4096" by simp
  then have "of_nat (unat va) = (of_nat (unat va div 4096) * 4096 + of_nat (unat va mod 4096) :: 64 word)"
    by (metis of_nat_add of_nat_mult of_nat_numeral)
  moreover have "PAGEOFFSET va = of_nat (unat va mod 4096)"
    by (simp add: word_unat_eq_iff PAGEOFFSET_nat unat_of_nat64)
  ultimately show ?thesis using va by (simp add: vpn_low)
qed

lemma virtual_memory_init_slots:
  assumes "syms_ok syms"
  obtains m' where "virtual_memory_init syms m = Inr (sym_kernel_pagetables syms, m')"
    "pt_wf m' (sym_kernel_pagetables syms)" "pt_pages m' (sym_kernel_pagetables syms) = kernel_tables syms"
    "slots m' (sym_kernel_pagetables syms) = (\<lambda>v. if v < 512 then of_nat v * PAGESIZE + 7 else 0)"
    "\<And>Q. Q \<notin> set (kernel_tables syms) \<Longrightarrow> same_page m m' Q"
proof -
  define kp where "kp = sym_kernel_pagetables syms"
  define m0 where "m0 = memset m kp 0 (5 * PAGESIZE)"
  note kt = kernel_tables_ok[OF assms]
  have ks: "kernel_tables syms = [kp, kp + PAGESIZE, kp + 2 * PAGESIZE, kp + 3 * PAGESIZE, kp + 4 * PAGESIZE]"
    by (simp add: kernel_tables_def kp_def upt_rec)
  define m1 where "m1 = link_tables m0 kp (kp + PAGESIZE) (kp + 2 * PAGESIZE) (kp + 3 * PAGESIZE) (kp + 4 * PAGESIZE)"
  note k = kt(1,2) kt(3)[of m, folded kp_def, folded m0_def] kt(4)[of _ m, folded kp_def, folded m0_def]
  note link = link_tables_wf[OF k(1-3)[unfolded ks list.set], folded m1_def ks]
  let ?m = "put_range (vpn 0) 512 (map_entry 0 7) m1 kp"
  have zero: "page_aligned 0" by (simp add: page_aligned_nat)
  have v0: "vpn 0 + 512 \<le> 1024" by (simp add: vpn_def)
  have 7: "PTE_W OR (PTE_P OR PTE_U) = 7" "PTE_P OR PTE_W OR PTE_U = 7" by simp_all
  have low: "virtual_memory_lookup ?m kp va = \<lparr>vam_pn = int (unat va div 4096), vam_pa = va, vam_perm = 7\<rparr>"
    if "unat va < 0x200000" for va
    using lookup_put_range[OF link(1) zero zero, of 512 7 "unat va"] that by simp
  have "Inr (0, ?m) = virtual_memory_map m1 kp 0 0 (of_nat 512 * PAGESIZE) 7"
    by (rule virtual_memory_map_range[symmetric, OF link(1) zero]) (simp_all add: zero)
  then have map: "virtual_memory_map m1 kp 0 0 MEMSIZE_PHYSICAL 7 = Inr (0, ?m)" by simp
  have check: "init_check 512 ?m kp 0 = Inr ()"
    by (rule init_check_ok) (simp_all add: low unat_of_nat64)
  have below: "unat (sym_default_int_handler syms) < 0x200000" "unat (sym_virtual_memory_map syms) < 0x200000"
    "unat kp < 0x200000" "page_aligned kp"
    using assms by (auto simp: syms_ok_def kp_def word_less_nat_alt)
  have setp: "set_pagetable syms ?m kp = Inr kp"
    unfolding set_pagetable_def kp_def[symmetric] using below by (simp add: low)
  have "virtual_memory_init syms m = Inr (kp, ?m)"
    unfolding virtual_memory_init_def Let_def kp_def[symmetric]
    using map check setp by (simp add: m1_def link_tables_def m0_def)
  moreover have "slots ?m kp = (\<lambda>v. if v < 512 then of_nat v * PAGESIZE + 7 else 0)"
    using put_range_self(3)[OF link(1) v0, of "map_entry 0 7"]
    by (auto simp: fun_eq_iff vpn_def map_entry_def link(3))
  moreover have "same_page m ?m Q" if "Q \<notin> set (kernel_tables syms)" for Q
    using k(4)[OF that] link(4)[of Q] put_range_same_page[OF link(1) v0, of Q] that link(2)
    by (auto simp: pt_pages_def ks intro: same_page_trans)
  ultimately show thesis
    using that[of ?m] put_range_self(1,2)[OF link(1) v0, of "map_entry 0 7"] link(2) by (simp add: kp_def)
qed

text \<open>C16: \<open>virtual_memory_init\<close> returns: none of its assertions, nor those of
  \<open>virtual_memory_map\<close> and \<open>set_pagetable\<close>, can fail. It leaves CR3 at a well-formed kernel
  page table over the five pages of \<open>kernel_pagetables\<close>, in which exactly the 2 MB of
  physical memory are mapped, each address to itself with P, W and U, and it writes no other page.\<close>

theorem virtual_memory_init_ok:
  assumes "syms_ok syms"
  shows "\<exists>m'. virtual_memory_init syms m = Inr (sym_kernel_pagetables syms, m')
    \<and> pt_wf m' (sym_kernel_pagetables syms)
    \<and> pt_pages m' (sym_kernel_pagetables syms) = kernel_tables syms
    \<and> (\<forall>va. unat va < 0x200000 \<longrightarrow> virtual_memory_lookup m' (sym_kernel_pagetables syms) va =
          \<lparr>vam_pn = int (unat va div 4096), vam_pa = va, vam_perm = 7\<rparr>)
    \<and> (\<forall>va. 0x200000 \<le> unat va \<and> unat va < 2 ^ 48 \<longrightarrow>
          virtual_memory_lookup m' (sym_kernel_pagetables syms) va = \<lparr>vam_pn = -1, vam_pa = -1, vam_perm = 0\<rparr>)
    \<and> (\<forall>Q. Q \<notin> set (kernel_tables syms) \<longrightarrow> same_page m m' Q)"
proof -
  let ?kp = "sym_kernel_pagetables syms"
  obtain m' where m': "virtual_memory_init syms m = Inr (?kp, m')" "pt_wf m' ?kp" "pt_pages m' ?kp = kernel_tables syms"
    "slots m' ?kp = (\<lambda>v. if v < 512 then of_nat v * PAGESIZE + 7 else 0)"
    "\<And>Q. Q \<notin> set (kernel_tables syms) \<Longrightarrow> same_page m m' Q"
    by (rule virtual_memory_init_slots[OF assms, of m]) blast
  have "virtual_memory_lookup m' ?kp va = \<lparr>vam_pn = int (unat va div 4096), vam_pa = va, vam_perm = 7\<rparr>"
    if "unat va < 0x200000" for va
  proof -
    have v: "vpn va = unat va div 4096" "vpn va < 512" using that by (simp_all add: vpn_low)
    have u: "unat (of_nat (vpn va) * PAGESIZE) = 4096 * vpn va" using v(2) by (intro size_args(1)) simp
    have "of_nat (vpn va) * PAGESIZE + PAGEOFFSET va = va" using that by (intro vpn_of_page) simp
    with vam_of_mapped[of "of_nat (vpn va) * PAGESIZE" 7 va] u v show ?thesis
      by (simp add: lookup_slots[OF m'(2)] m'(4) page_aligned_nat)
  qed
  moreover have "virtual_memory_lookup m' ?kp va = \<lparr>vam_pn = -1, vam_pa = -1, vam_perm = 0\<rparr>"
    if "0x200000 \<le> unat va \<and> unat va < 2 ^ 48" for va
  proof -
    have "\<not> vpn va < 512" using that by (simp add: vpn_low not_less less_eq_div_iff_mult_less_eq)
    then show ?thesis by (simp add: lookup_slots[OF m'(2)] m'(4) vam_of_def)
  qed
  ultimately show ?thesis using m' by blast
qed

theorem virtual_memory_init_ok_witness:
  "\<exists>m'. virtual_memory_init example_syms (\<lambda>_. 0) = Inr (0x52000, m') \<and> pt_wf m' 0x52000
    \<and> vam_pa (virtual_memory_lookup m' 0x52000 0x1FFFFF) = 0x1FFFFF"
proof -
  have kp: "sym_kernel_pagetables example_syms = 0x52000" by (simp add: example_syms_def)
  from virtual_memory_init_ok[OF example_syms_ok, of "\<lambda>_. 0", unfolded kp] obtain m' where
    "virtual_memory_init example_syms (\<lambda>_. 0) = Inr (0x52000, m')" "pt_wf m' 0x52000"
    and low: "\<forall>va. unat va < 0x200000 \<longrightarrow> virtual_memory_lookup m' 0x52000 va =
          \<lparr>vam_pn = int (unat va div 4096), vam_pa = va, vam_perm = 7\<rparr>"
    by auto
  with spec[OF low, of "0x1FFFFF"] show ?thesis by auto
qed

section \<open>Permissions of a walk\<close>

text \<open>The entries that a walk for \<open>va\<close> meets on its four levels, whatever the tables are.\<close>

primrec level_entry :: "memory \<Rightarrow> 64 word \<Rightarrow> 64 word \<Rightarrow> nat \<Rightarrow> 64 word" where
  "level_entry m pt va 0 = pt_entry m pt (pageindex va 0)"
| "level_entry m pt va (Suc i) = pt_entry m (PTE_ADDR (level_entry m pt va i)) (pageindex va (Suc i))"

lemma and_perm_step:
  fixes e x :: "64 word"
  shows "(e AND NOT (x AND 6)) AND 1 = e AND 1" "PTE_ADDR (e AND NOT (x AND 6)) = PTE_ADDR e"
    "PAGENUMBER (e AND NOT (x AND 6)) = PAGENUMBER e" "PTE_FLAGS (e AND NOT (x AND 6)) = PTE_FLAGS e AND NOT (x AND 6)"
proof -
  show "(e AND NOT (x AND 6)) AND 1 = e AND 1"
    by (rule bit_word_eqI) (auto simp only: bit_and_iff bit_not_iff bit_6 bit_1_iff possible_bit_word)
  have "drop_bit 12 (e AND NOT (x AND 6)) = drop_bit 12 e"
    by (rule bit_word_eqI) (auto simp only: bit_and_iff bit_not_iff bit_6 bit_drop_bit_eq comp_apply possible_bit_word dest: bit_imp_le_length)
  then show "PAGENUMBER (e AND NOT (x AND 6)) = PAGENUMBER e" by (simp only: PAGENUMBER_def)
  show "PTE_FLAGS (e AND NOT (x AND 6)) = PTE_FLAGS e AND NOT (x AND 6)" by (simp only: PTE_FLAGS_def ac_simps)
  show "PTE_ADDR (e AND NOT (x AND 6)) = PTE_ADDR e"
    unfolding PTE_ADDR_def mask12 by (rule bit_word_eqI) (auto simp only: bit_and_iff bit_not_iff bit_6 bit_mask_iff possible_bit_word)
qed

lemma or_6: "(PTE_W OR PTE_U :: 64 word) = 6"
  by simp

lemma or_7: "(PTE_W OR PTE_U OR PTE_P :: 64 word) = 7"
  by simp

lemma lookup_step_present:
  assumes "pe AND 1 \<noteq> 0"
  shows "lookup_levels (i # is) m va pt pe =
    (let e = pt_entry m pt (pageindex va i) in lookup_levels is m va (PTE_ADDR e) (e AND NOT (pe AND 6)))"
  using assms by (simp only: lookup_levels.simps Let_def and_perm_step if_True or_6 simp_thms)

text \<open>The alternation of the walk: the W and U bits of the first entry are cleared, those of the second are kept, and so on.\<close>

lemma walk_perms:
  fixes e0 e1 e2 e3 :: "64 word"
  shows "e3 AND NOT ((e2 AND NOT ((e1 AND NOT ((e0 AND NOT (7 AND 6)) AND 6)) AND 6)) AND 6) = e3 AND NOT ((e2 AND NOT e1) AND 6)"
  by (rule bit_word_eqI) (auto simp: bit_simps bit_6 bit_7)

text \<open>C19: what \<open>virtual_memory_lookup\<close> reports for an address that is present on all four levels, in any page table. The physical address is the one
  of the last entry. Its W and U permissions are those of the last entry without the ones that the third entry grants and the second
  withholds. That is what all four levels together grant when the first three grant W and U, as in every table that the kernel
  builds; but when the third entry grants neither, the permissions of the last entry are reported in full. The line that
  removes bits, \<open>vm.c\<close> line 198, removes those that the level before grants instead of those that it withholds.\<close>

theorem lookup_permissions:
  fixes m :: memory and pt va :: "64 word"
  defines "e \<equiv> level_entry m pt va"
  assumes "e 0 AND PTE_P \<noteq> 0" "e 1 AND PTE_P \<noteq> 0" "e 2 AND PTE_P \<noteq> 0" "e 3 AND PTE_P \<noteq> 0"
  shows "virtual_memory_lookup m pt va =
      \<lparr>vam_pn = PAGENUMBER (e 3), vam_pa = PTE_ADDR (e 3) + PAGEOFFSET va,
       vam_perm = uint (PTE_FLAGS (e 3) AND NOT ((e 2 AND NOT (e 1)) AND (PTE_W OR PTE_U)))\<rparr> \<and>
    (e 0 AND e 1 AND e 2 AND (PTE_W OR PTE_U) = (PTE_W OR PTE_U) \<longrightarrow>
       word_of_int (vam_perm (virtual_memory_lookup m pt va)) AND (PTE_W OR PTE_U) = e 0 AND e 1 AND e 2 AND e 3 AND (PTE_W OR PTE_U)) \<and>
    (e 2 AND (PTE_W OR PTE_U) = 0 \<longrightarrow> vam_perm (virtual_memory_lookup m pt va) = uint (PTE_FLAGS (e 3)))"
proof -
  have ee: "e 0 = pt_entry m pt (pageindex va 0)" "e 1 = pt_entry m (PTE_ADDR (e 0)) (pageindex va 1)"
    "e 2 = pt_entry m (PTE_ADDR (e 1)) (pageindex va 2)" "e 3 = pt_entry m (PTE_ADDR (e 2)) (pageindex va 3)"
    unfolding e_def by (simp_all add: numeral_2_eq_2 numeral_3_eq_3)
  define q0 where "q0 = e 0 AND NOT (7 AND 6)"
  define q1 where "q1 = e 1 AND NOT (q0 AND 6)"
  define q2 where "q2 = e 2 AND NOT (q1 AND 6)"
  have q: "(7 :: 64 word) AND 1 \<noteq> 0" "q0 AND 1 \<noteq> 0" "q1 AND 1 \<noteq> 0" "q2 AND 1 \<noteq> 0"
    using assms(2-4) unfolding q0_def q1_def q2_def and_perm_step by simp_all
  have "lookup_levels [0, 1, 2, 3] m va pt 7 = lookup_levels [1, 2, 3] m va (PTE_ADDR (e 0)) q0"
    unfolding lookup_step_present[OF q(1)] Let_def ee(1)[symmetric] q0_def ..
  also have "\<dots> = lookup_levels [2, 3] m va (PTE_ADDR (e 1)) q1" unfolding lookup_step_present[OF q(2)] Let_def ee(2)[symmetric] q1_def ..
  also have "\<dots> = lookup_levels [3] m va (PTE_ADDR (e 2)) q2" unfolding lookup_step_present[OF q(3)] Let_def ee(3)[symmetric] q2_def ..
  also have "\<dots> = e 3 AND NOT (q2 AND 6)" unfolding lookup_step_present[OF q(4)] Let_def ee(4)[symmetric] lookup_levels.simps(1) ..
  also have "\<dots> = e 3 AND NOT ((e 2 AND NOT (e 1)) AND 6)" unfolding q2_def q1_def q0_def by (rule walk_perms)
  finally have l: "lookup_levels [0, 1, 2, 3] m va pt 7 = e 3 AND NOT ((e 2 AND NOT (e 1)) AND 6)" .
  define x where "x = e 2 AND NOT (e 1)"
  have v: "virtual_memory_lookup m pt va =
      \<lparr>vam_pn = PAGENUMBER (e 3), vam_pa = PTE_ADDR (e 3) + PAGEOFFSET va, vam_perm = uint (PTE_FLAGS (e 3) AND NOT (x AND 6))\<rparr>"
    unfolding virtual_memory_lookup_def or_7 l x_def[symmetric] Let_def and_perm_step using assms(5) by (simp only: if_True simp_thms)
  have 1: "(PTE_FLAGS (e 3) AND NOT (x AND 6)) AND 6 = e 0 AND e 1 AND e 2 AND e 3 AND 6" if "e 0 AND e 1 AND e 2 AND 6 = 6"
  proof (rule bit_word_eqI)
    fix k assume "k < LENGTH(64)"
    have "bit (e 0 AND e 1 AND e 2 AND 6) k = bit (6 :: 64 word) k" using that by (simp only:)
    then show "bit ((PTE_FLAGS (e 3) AND NOT (x AND 6)) AND 6) k = bit (e 0 AND e 1 AND e 2 AND e 3 AND 6) k"
      unfolding x_def PTE_FLAGS_def mask12 by (simp only: bit_and_iff bit_not_iff bit_6 bit_mask_iff possible_bit_word) auto
  qed
  have 2: "PTE_FLAGS (e 3) AND NOT (x AND 6) = PTE_FLAGS (e 3)" if "e 2 AND 6 = 0"
  proof -
    have "x AND 6 = NOT (e 1) AND (e 2 AND 6)" unfolding x_def by (simp only: ac_simps)
    then show ?thesis unfolding that by simp
  qed
  show ?thesis unfolding v or_6 using 1 2 unfolding x_def by (simp only: word_of_int_uint vamapping.simps simp_thms) (intro conjI impI, assumption, simp only:)
qed

theorem lookup_permissions_witness:
  "\<exists>m. level_entry m 0x1000 0 2 = 0x4001 \<and> level_entry m 0x1000 0 3 = 0x8007 \<and>
     virtual_memory_lookup m 0x1000 0 = \<lparr>vam_pn = 8, vam_pa = 0x8000, vam_perm = 7\<rparr>"
proof -
  define m where "m = set_pt_entry (set_pt_entry example_memory 0x3000 0 (0x4000 OR PTE_P)) 0x4000 0 (0x8000 OR 7)"
  have al: "page_aligned 0x1000" "page_aligned 0x2000" "page_aligned 0x3000" "page_aligned 0x4000"
    by (simp_all add: page_aligned_nat)
  have i: "pageindex 0 k = 0" if "k \<le> 3" for k using that by (simp add: pageindex_nat)
  have e: "pt_entry m 0x1000 0 = 0x2007" "pt_entry m 0x2000 0 = 0x3007" "pt_entry m 0x3000 0 = 0x4001" "pt_entry m 0x4000 0 = 0x8007"
    unfolding m_def example_memory_def link_tables_def using al by (simp_all add: pt_entry_set)
  have a: "PTE_ADDR 0x2007 = 0x2000" "PTE_ADDR 0x3007 = 0x3000" "PTE_ADDR 0x4001 = 0x4000" "PTE_ADDR 0x8007 = 0x8000" by (simp_all add: PTE_ADDR_def)
  have l: "level_entry m 0x1000 0 0 = 0x2007" "level_entry m 0x1000 0 1 = 0x3007" "level_entry m 0x1000 0 2 = 0x4001" "level_entry m 0x1000 0 3 = 0x8007"
    by (simp_all add: numeral_2_eq_2 numeral_3_eq_3 i e a)
  have "virtual_memory_lookup m 0x1000 0 = \<lparr>vam_pn = PAGENUMBER 0x8007, vam_pa = PTE_ADDR 0x8007 + PAGEOFFSET 0, vam_perm = 7\<rparr>"
    using lookup_permissions[of m "0x1000" 0] unfolding l by (simp add: PTE_FLAGS_def)
  then show ?thesis using l by (intro exI[of _ m]) (simp add: a PAGENUMBER_def PAGEOFFSET_def)
qed

section \<open>The processor's walk\<close>

text \<open>
  The walk of the processor, which the C code relies on when it runs on a page table. An address must be canonical: bits 48 to 63 equal bit 47.
  Every level must be present; an access is writable, or allowed to user code, only if all levels say so. An entry of the second or third
  level with the flag PS ends the walk at a large page of 1 GB or 2 MB; on the first level the flag is reserved. The processor also
  sets the flags A and D of the entries it uses. The model leaves that out: no test in the C code depends on them.
\<close>

definition canonical :: "64 word \<Rightarrow> bool" where
  "canonical va \<longleftrightarrow> va < 0x800000000000 \<or> 0xFFFF800000000000 \<le> va"

definition large_page :: "nat \<Rightarrow> 64 word \<Rightarrow> 64 word \<Rightarrow> 64 word" where
  "large_page i e va = (e AND NOT (mask (39 - 9 * i))) + (va AND mask (39 - 9 * i))"

primrec hw_levels :: "nat list \<Rightarrow> memory \<Rightarrow> 64 word \<Rightarrow> 64 word \<Rightarrow> 64 word \<Rightarrow> (64 word \<times> 64 word) option" where
  "hw_levels [] m va pt acc = Some (pt + PAGEOFFSET va, acc)"
| "hw_levels (i # is) m va pt acc =
     (let e = pt_entry m pt (pageindex va i) in
      if e AND PTE_P = 0 then None
      else if i < 3 \<and> e AND PTE_PS \<noteq> 0 then (if i = 0 then None else Some (large_page i e va, acc AND e))
      else hw_levels is m va (PTE_ADDR e) (acc AND e))"

definition hw_translate :: "memory \<Rightarrow> 64 word \<Rightarrow> 64 word \<Rightarrow> (64 word \<times> 64 word) option" where
  "hw_translate m pt va = (if canonical va then hw_levels [0, 1, 2, 3] m va pt (PTE_W OR PTE_U) else None)"

lemma canonical_low: "unat va < 0x800000000000 \<Longrightarrow> canonical va"
  by (simp add: canonical_def word_less_nat_alt)

lemma hw_step:
  assumes "linked (pt_entry m p (pageindex va i))"
  shows "hw_levels (i # is) m va p 6 = hw_levels is m va (PTE_ADDR (pt_entry m p (pageindex va i))) 6"
  using linked_masks[OF assms] by (simp add: Let_def and.commute)

lemma hw_stop: "pt_entry m p (pageindex va i) AND 1 = 0 \<Longrightarrow> hw_levels (i # is) m va p acc = None"
  by (simp add: Let_def)

lemma hw_slots:
  assumes wf: "pt_wf m pt"
  shows "hw_translate m pt va =
    (let e = slots m pt (vpn va) in
     if canonical va \<and> e AND 1 \<noteq> 0 then Some (PTE_ADDR e + PAGEOFFSET va, 6 AND e) else None)"
proof -
  let ?i = "pageindex va"
  have lt: "?i 0 < 512" "?i 1 < 512" "?i 2 < 512" by (simp_all add: pageindex_less)
  have s0: "hw_levels [0, 1, 2, 3] m va pt 6 = hw_levels [1, 2, 3] m va (L2_of m pt) 6" if "?i 0 = 0"
    using hw_step[of m pt va 0] pt_wf_links(1)[OF wf] by (simp only: that L2_of_def)
  have s1: "hw_levels [1, 2, 3] m va (L2_of m pt) 6 = hw_levels [2, 3] m va (L3_of m pt) 6" if "?i 1 = 0"
    using hw_step[of m "L2_of m pt" va 1] pt_wf_links(2)[OF wf] by (simp only: that L3_of_def)
  have s2: "hw_levels [2, 3] m va (L3_of m pt) 6 = hw_levels [3] m va (L4_of m pt (?i 2)) 6" if "?i 2 < 2"
    using hw_step[of m "L3_of m pt" va 2] pt_wf_links(3)[OF wf that] by (simp only: L4_of_def)
  have out: "hw_levels [0, 1, 2, 3] m va pt 6 = None" if "\<not> vpn va < 1024"
  proof -
    have "?i 0 \<noteq> 0 \<or> ?i 0 = 0 \<and> ?i 1 \<noteq> 0 \<or> ?i 0 = 0 \<and> ?i 1 = 0 \<and> \<not> ?i 2 < 2"
      using that low_indices[of va] by satx
    then show ?thesis
      using pt_wf_unlinked(1)[OF wf lt(1)] pt_wf_unlinked(2)[OF wf lt(2)] pt_wf_unlinked(3)[OF wf lt(3)]
      by (elim disjE conjE) (simp_all only: s0 s1 hw_stop simp_thms)
  qed
  show ?thesis
  proof (cases "vpn va < 1024")
    case True
    then have i: "?i 0 = 0" "?i 1 = 0" "?i 2 < 2" using low_indices by auto
    have s: "slots m pt (vpn va) = pt_entry m (L4_of m pt (?i 2)) (?i 3)"
      using True by (simp add: slots_def index2_low pageindex_vpn(4))
    show ?thesis
      unfolding hw_translate_def s or_6 s0[OF i(1)] s1[OF i(2)] s2[OF i(3)] by (simp add: Let_def)
  next
    case False
    then show ?thesis unfolding hw_translate_def or_6 out[OF False] by (simp add: slots_def)
  qed
qed

text \<open>The disagreement that \<open>lookup_permissions\<close> describes, on one table: with a supervisor-only, read-only third-level entry the processor
  gives user code no access, yet \<open>virtual_memory_lookup\<close> reports P, W and U.\<close>

theorem lookup_overreports:
  defines "m \<equiv> set_pt_entry (set_pt_entry example_memory 0x3000 0 (0x4000 OR PTE_P)) 0x4000 0 (0x8000 OR 7)"
  shows "vam_perm (virtual_memory_lookup m 0x1000 0) = 7 \<and> hw_translate m 0x1000 0 = Some (0x8000, 0)"
proof -
  have al: "page_aligned 0x1000" "page_aligned 0x2000" "page_aligned 0x3000" "page_aligned 0x4000"
    by (simp_all add: page_aligned_nat)
  have i: "pageindex 0 k = 0" if "k \<le> 3" for k using that by (simp add: pageindex_nat)
  have e: "pt_entry m 0x1000 0 = 0x2007" "pt_entry m 0x2000 0 = 0x3007"
     "pt_entry m 0x3000 0 = 0x4001" "pt_entry m 0x4000 0 = 0x8007"
    unfolding m_def example_memory_def link_tables_def using al by (simp_all add: pt_entry_set)
  have a: "PTE_ADDR 0x2007 = 0x2000" "PTE_ADDR 0x3007 = 0x3000" "PTE_ADDR 0x4001 = 0x4000"
     "PTE_ADDR 0x8007 = 0x8000" "PTE_ADDR 0x2001 = 0x2000"
    by (simp_all add: PTE_ADDR_def)
  show ?thesis
    by (simp add: virtual_memory_lookup_def hw_translate_def walk_simps i e a Let_def PTE_FLAGS_def PAGEOFFSET_def canonical_def)
qed

end
