(* ===== verification/Kernel_State.thy ===== *)
theory Kernel_State
  imports VM
begin

text \<open>
  The kernel's data model, from \<open>kernel.h\<close> and the file-level variables of \<open>kernel.c\<close> and
  \<open>lib.h\<close>: process descriptors, the \<open>pageinfo\<close> array, and the kernel state as one record.
  Kernel routines take the state and return it updated.

  The arrays \<open>pageinfo\<close> and \<open>processes\<close> are functions of an \<open>int\<close> index, because the code
  indexes them with signed integers and does not always check the index: an index outside the
  array stands for the memory next to it. The typed variables are kept apart from the byte
  memory \<open>k_mem\<close>; the kernel's own image inside \<open>k_mem\<close> is not a view of them. Physical
  memory is reached through the kernel's identity mapping, so a kernel pointer is a physical address.
\<close>

unbundle bit_operations_syntax

datatype procstate = P_FREE | P_RUNNABLE | P_BLOCKED | P_BROKEN

record proc =
  p_pid :: int
  p_registers :: x86_64_registers
  p_state :: procstate
  p_pagetable :: "64 word"
  display_status :: "8 word"

record physical_pageinfo =
  pi_owner :: "8 word"      \<comment> \<open>\<open>int8_t owner\<close>\<close>
  pi_refcount :: "8 word"   \<comment> \<open>\<open>int8_t refcount\<close>\<close>

abbreviation (input) PO_FREE :: int where "PO_FREE \<equiv> 0"
abbreviation (input) PO_RESERVED :: int where "PO_RESERVED \<equiv> -1"
abbreviation (input) PO_KERNEL :: int where "PO_KERNEL \<equiv> -2"

record kernel_state =
  k_mem :: memory
  k_pageinfo :: "int \<Rightarrow> physical_pageinfo"
  k_processes :: "int \<Rightarrow> proc"
  k_current :: int            \<comment> \<open>index of \<open>current\<close> in \<open>processes\<close>\<close>
  k_ticks :: "32 word"
  k_disp_global :: "8 word"
  k_cr3 :: "64 word"
  k_last_ticks :: "32 word"   \<comment> \<open>static of \<open>memshow_virtual_animate\<close>\<close>
  k_showing :: int            \<comment> \<open>static of \<open>memshow_virtual_animate\<close>\<close>

text \<open>Assignments to one array element or one field of a process descriptor.\<close>

definition set_pageinfo :: "int \<Rightarrow> physical_pageinfo \<Rightarrow> kernel_state \<Rightarrow> kernel_state" where
  "set_pageinfo pn i s = s\<lparr>k_pageinfo := (k_pageinfo s)(pn := i)\<rparr>"

definition upd_proc :: "int \<Rightarrow> (proc \<Rightarrow> proc) \<Rightarrow> kernel_state \<Rightarrow> kernel_state" where
  "upd_proc pid f s = s\<lparr>k_processes := (k_processes s)(pid := f (k_processes s pid))\<rparr>"

definition upd_regs :: "int \<Rightarrow> (x86_64_registers \<Rightarrow> x86_64_registers) \<Rightarrow> kernel_state \<Rightarrow> kernel_state" where
  "upd_regs pid f = upd_proc pid (\<lambda>p. p\<lparr>p_registers := f (p_registers p)\<rparr>)"

lemma set_pageinfo_simps [simp]:
  "k_pageinfo (set_pageinfo pn i s) = (k_pageinfo s)(pn := i)"
  "k_mem (set_pageinfo pn i s) = k_mem s"
  "k_processes (set_pageinfo pn i s) = k_processes s"
  "k_current (set_pageinfo pn i s) = k_current s"
  "k_cr3 (set_pageinfo pn i s) = k_cr3 s"
  by (simp_all add: set_pageinfo_def)

lemma upd_proc_simps [simp]:
  "k_pageinfo (upd_proc pid f s) = k_pageinfo s"
  "k_mem (upd_proc pid f s) = k_mem s"
  "k_processes (upd_proc pid f s) = (k_processes s)(pid := f (k_processes s pid))"
  "k_current (upd_proc pid f s) = k_current s"
  "k_cr3 (upd_proc pid f s) = k_cr3 s"
  by (simp_all add: upd_proc_def)

lemma upd_regs_simps [simp]:
  "k_pageinfo (upd_regs pid f s) = k_pageinfo s"
  "k_mem (upd_regs pid f s) = k_mem s"
  "k_current (upd_regs pid f s) = k_current s"
  "k_cr3 (upd_regs pid f s) = k_cr3 s"
  "p_state (k_processes (upd_regs pid f s) q) = p_state (k_processes s q)"
  "p_pagetable (k_processes (upd_regs pid f s) q) = p_pagetable (k_processes s q)"
  "p_pid (k_processes (upd_regs pid f s) q) = p_pid (k_processes s q)"
  by (simp_all add: upd_regs_def)

end
