(* ===== verification/Pageinfo.thy ===== *)
theory Pageinfo
  imports Kernel_State
begin

text \<open>
  Physical page allocation, from \<open>kernel.c\<close> and \<open>k-hardware.c\<close>: \<open>pageinfo_init\<close> with
  \<open>physical_memory_isreserved\<close>, \<open>assign_physical_page\<close>, the two allocators
  \<open>alloc_page_process\<close> and \<open>sys_page_alloc_find_free\<close>, and \<open>duplicate_pagetable\<close>, which
  builds the page table of a new process.
\<close>

unbundle bit_operations_syntax

section \<open>Operations\<close>

definition physical_memory_isreserved :: "64 word \<Rightarrow> bool" where
  "physical_memory_isreserved pa \<longleftrightarrow> pa = 0 \<or> (0xA0000 \<le> pa \<and> pa < 0x100000)"

definition init_owner :: "link_symbols \<Rightarrow> 64 word \<Rightarrow> int" where
  "init_owner syms addr =
     (if physical_memory_isreserved addr then PO_RESERVED
      else if (addr \<ge> KERNEL_START_ADDR \<and> addr < sym_end syms) \<or> addr = KERNEL_STACK_TOP - PAGESIZE
      then PO_KERNEL
      else PO_FREE)"

text \<open>The loop of \<open>pageinfo_init\<close>, over the remaining pages.\<close>

primrec pageinfo_init_loop ::
  "nat \<Rightarrow> link_symbols \<Rightarrow> 64 word \<Rightarrow> (int \<Rightarrow> physical_pageinfo) \<Rightarrow> (int \<Rightarrow> physical_pageinfo)" where
  "pageinfo_init_loop 0 syms addr pinfo = pinfo"
| "pageinfo_init_loop (Suc n) syms addr pinfo =
     (let own = init_owner syms addr in
      pageinfo_init_loop n syms (addr + PAGESIZE)
        (pinfo(PAGENUMBER addr := \<lparr>pi_owner = word_of_int own,
                                    pi_refcount = (if own \<noteq> PO_FREE then 1 else 0)\<rparr>)))"

definition pageinfo_init :: "link_symbols \<Rightarrow> kernel_state \<Rightarrow> kernel_state" where
  "pageinfo_init syms s =
     s\<lparr>k_pageinfo := pageinfo_init_loop (unat (MEMSIZE_PHYSICAL div PAGESIZE)) syms 0 (k_pageinfo s)\<rparr>"

definition assign_physical_page :: "64 word \<Rightarrow> 8 word \<Rightarrow> kernel_state \<Rightarrow> int \<times> kernel_state" where
  "assign_physical_page addr own s =
     (if addr AND 0xFFF \<noteq> 0 \<or> addr \<ge> MEMSIZE_PHYSICAL
         \<or> pi_refcount (k_pageinfo s (PAGENUMBER addr)) \<noteq> 0
      then (-1, s)
      else (0, set_pageinfo (PAGENUMBER addr) \<lparr>pi_owner = own, pi_refcount = 1\<rparr> s))"

text \<open>The search loop of \<open>alloc_page_process\<close>; it stops at \<open>NPAGES\<close> when nothing is free.\<close>

primrec scan_free :: "nat \<Rightarrow> (int \<Rightarrow> physical_pageinfo) \<Rightarrow> int \<Rightarrow> int" where
  "scan_free 0 pinfo p = p"
| "scan_free (Suc n) pinfo p =
     (if pi_refcount (pinfo p) = 0 then p else scan_free n pinfo (p + 1))"

definition alloc_page_process :: "int \<Rightarrow> kernel_state \<Rightarrow> 64 word \<times> kernel_state" where
  "alloc_page_process pid s =
     (let p = scan_free (nat (NPAGES - 1)) (k_pageinfo s) 1;
          (r, s') = assign_physical_page (PAGEADDRESS p) (word_of_int pid) s
      in (if r > -1 then PAGEADDRESS p else 0, s'))"

text \<open>The search loop of \<open>sys_page_alloc_find_free\<close>; \<open>None\<close> is its early \<open>return -1\<close>.\<close>

primrec scan_alloc :: "nat \<Rightarrow> (int \<Rightarrow> physical_pageinfo) \<Rightarrow> int \<Rightarrow> int option" where
  "scan_alloc 0 pinfo p = Some p"
| "scan_alloc (Suc n) pinfo p =
     (if pi_refcount (pinfo p) = 0 then Some p
      else if p = NPAGES - 1 then None
      else scan_alloc n pinfo (p + 1))"

definition sys_page_alloc_find_free ::
  "64 word \<Rightarrow> int \<Rightarrow> 64 word \<Rightarrow> kernel_state \<Rightarrow> kfault + (int \<times> kernel_state)" where
  "sys_page_alloc_find_free pagetable pid addr s =
     (case scan_alloc (nat (NPAGES - 1)) (k_pageinfo s) 1 of
        None \<Rightarrow> Inr (-1, s)
      | Some p \<Rightarrow>
          let (r0, s1) = assign_physical_page (PAGEADDRESS p) (word_of_int pid) s;
              r = (if addr < PROC_START_ADDR then -1 else r0)
          in if r \<ge> 0 then
               bindR (virtual_memory_map (k_mem s1) pagetable addr (PAGEADDRESS p) PAGESIZE
                        (uint (PTE_P OR PTE_W OR PTE_U)))
                 (\<lambda>(_, m). Inr (r, s1\<lparr>k_mem := m\<rparr>))
             else Inr (r, s1))"

text \<open>The copy loop of \<open>duplicate_pagetable\<close>, over the pages below \<open>PROC_START_ADDR\<close>.\<close>

primrec dup_loop :: "nat \<Rightarrow> memory \<Rightarrow> 64 word \<Rightarrow> 64 word \<Rightarrow> 64 word \<Rightarrow> kfault + memory" where
  "dup_loop 0 m pagetable fill_pagetable va = Inr m"
| "dup_loop (Suc n) m pagetable fill_pagetable va =
     (let map = virtual_memory_lookup m pagetable va in
      bindR (virtual_memory_map m fill_pagetable va (vam_pa map) PAGESIZE (vam_perm map)) (\<lambda>(_, m').
      dup_loop n m' pagetable fill_pagetable (va + PAGESIZE)))"

definition duplicate_pagetable ::
  "64 word \<Rightarrow> int \<Rightarrow> kernel_state \<Rightarrow> kfault + (64 word \<times> kernel_state)" where
  "duplicate_pagetable pagetable pid s =
     (let (L1, s) = alloc_page_process pid s;
          (L2, s) = alloc_page_process pid s;
          (L3, s) = alloc_page_process pid s;
          (L4_1, s) = alloc_page_process pid s;
          (L4_2, s) = alloc_page_process pid s;
          m = memset (k_mem s) L1 0 PAGESIZE;
          m = memset m L2 0 PAGESIZE;
          m = memset m L3 0 PAGESIZE;
          m = memset m L4_1 0 PAGESIZE;
          m = memset m L4_2 0 PAGESIZE
      in if L1 \<noteq> 0 \<and> L2 \<noteq> 0 \<and> L3 \<noteq> 0 \<and> L4_1 \<noteq> 0 \<and> L4_2 \<noteq> 0 then
           let m = set_pt_entry m L1 0 (L2 OR PTE_P OR PTE_W OR PTE_U);
               m = set_pt_entry m L2 0 (L3 OR PTE_P OR PTE_W OR PTE_U);
               m = set_pt_entry m L3 0 (L4_1 OR PTE_P OR PTE_W OR PTE_U);
               m = set_pt_entry m L3 1 (L4_2 OR PTE_P OR PTE_W OR PTE_U)
           in bindR (dup_loop (unat (PROC_START_ADDR div PAGESIZE)) m pagetable L1 0)
                (\<lambda>m. Inr (L1, s\<lparr>k_mem := m\<rparr>))
         else Inr (0, s\<lparr>k_mem := m\<rparr>))"

section \<open>The initial page information\<close>

lemma pageinfo_init_loop_eq:
  assumes "unat addr = 4096 * k" "k + n \<le> 512"
  shows "pageinfo_init_loop n syms addr pinfo =
    (\<lambda>pn. if int k \<le> pn \<and> pn < int (k + n) then
            \<lparr>pi_owner = word_of_int (init_owner syms (PAGEADDRESS pn)),
             pi_refcount = (if init_owner syms (PAGEADDRESS pn) \<noteq> PO_FREE then 1 else 0)\<rparr>
          else pinfo pn)"
  using assms
proof (induction n arbitrary: addr k pinfo)
  case 0
  then show ?case by (auto simp: fun_eq_iff)
next
  case (Suc n)
  have pn: "PAGENUMBER addr = int k" using Suc.prems by (simp add: PAGENUMBER_nat)
  have pa: "PAGEADDRESS (int k) = addr"
    using Suc.prems by (simp add: word_unat_eq_iff PAGEADDRESS_nat)
  have u: "unat (addr + PAGESIZE) = 4096 * (k + 1)"
    using Suc.prems by (simp add: unat_word_ariths)
  show ?case
    using Suc.prems(2) by (auto simp: Suc.IH[OF u] Let_def pn pa fun_eq_iff)
qed

lemma init_owner_page:
  assumes "0 \<le> pn" "pn < NPAGES"
  shows "init_owner syms (PAGEADDRESS pn) =
      (if pn = 0 \<or> (0xA0 \<le> pn \<and> pn < 0x100) then -1
       else if (0x40 \<le> pn \<and> 4096 * pn < uint (sym_end syms)) \<or> pn = 0x7F then -2 else 0)"
proof -
  have u: "unat (PAGEADDRESS pn) = 4096 * nat pn" using assms by (simp add: PAGEADDRESS_nat)
  have r: "physical_memory_isreserved (PAGEADDRESS pn) \<longleftrightarrow> pn = 0 \<or> (0xA0 \<le> pn \<and> pn < 0x100)"
    using assms unfolding physical_memory_isreserved_def unat_eq_0[symmetric] word_le_nat_alt word_less_nat_alt u
    by auto
  have k: "(PAGEADDRESS pn \<ge> KERNEL_START_ADDR \<and> PAGEADDRESS pn < sym_end syms)
      \<longleftrightarrow> 0x40 \<le> pn \<and> 4096 * pn < uint (sym_end syms)"
  proof -
    obtain j where j: "pn = int j" using assms nonneg_int_cases by blast
    have "unat (KERNEL_START_ADDR) = 0x40000" by simp
    then show ?thesis unfolding word_le_nat_alt word_less_nat_alt u uint_nat unfolding j by linarith
  qed
  have st: "PAGEADDRESS pn = KERNEL_STACK_TOP - PAGESIZE \<longleftrightarrow> pn = 0x7F"
    using assms unfolding word_unat_eq_iff u by auto
  show "init_owner syms (PAGEADDRESS pn) =
      (if pn = 0 \<or> (0xA0 \<le> pn \<and> pn < 0x100) then -1
       else if (0x40 \<le> pn \<and> 4096 * pn < uint (sym_end syms)) \<or> pn = 0x7F then -2 else 0)"
    unfolding init_owner_def r k st by (rule refl)
qed

lemma pageinfo_init_at:
  "0 \<le> pn \<Longrightarrow> pn < NPAGES \<Longrightarrow> k_pageinfo (pageinfo_init syms s) pn =
      \<lparr>pi_owner = word_of_int (init_owner syms (PAGEADDRESS pn)),
       pi_refcount = (if init_owner syms (PAGEADDRESS pn) \<noteq> PO_FREE then 1 else 0)\<rparr>"
  by (simp add: pageinfo_init_def pageinfo_init_loop_eq[of 0 0])

text \<open>C18: \<open>pageinfo_init\<close> classifies every physical page as its comment says: page 0 and the I/O
  hole are reserved, the kernel image and its stack page belong to the kernel, each with one
  reference, and every other page is free with no reference. Nothing outside the array changes.\<close>

theorem pageinfo_init_spec:
  "k_pageinfo (pageinfo_init syms s) pn =
     (if 0 \<le> pn \<and> pn < NPAGES then
        (if pn = 0 \<or> (0xA0 \<le> pn \<and> pn < 0x100) then \<lparr>pi_owner = -1, pi_refcount = 1\<rparr>
         else if (0x40 \<le> pn \<and> 4096 * pn < uint (sym_end syms)) \<or> pn = 0x7F
         then \<lparr>pi_owner = -2, pi_refcount = 1\<rparr>
         else \<lparr>pi_owner = 0, pi_refcount = 0\<rparr>)
      else k_pageinfo s pn)"
proof (cases "0 \<le> pn \<and> pn < NPAGES")
  case True
  then show ?thesis by (simp add: pageinfo_init_at init_owner_page)
next
  case False
  have "k_pageinfo (pageinfo_init syms s) pn = k_pageinfo s pn"
    using False by (auto simp: pageinfo_init_def pageinfo_init_loop_eq[of 0 0])
  with False show ?thesis by (simp only: if_False)
qed

section \<open>Allocation as an interface\<close>

lemma scan_free_spec:
  assumes "scan_free n pinfo p = q"
  shows "p \<le> q" "q \<le> p + int n" "\<And>r. p \<le> r \<Longrightarrow> r < q \<Longrightarrow> pi_refcount (pinfo r) \<noteq> 0"
    "q < p + int n \<Longrightarrow> pi_refcount (pinfo q) = 0"
  using assms
proof (induction n arbitrary: p)
  case (Suc n)
  { case 1 then show ?case using Suc.IH(1)[of "p + 1"] by (auto split: if_splits) }
  { case 2 then show ?case using Suc.IH(2)[of "p + 1"] by (auto split: if_splits) }
  { case (3 r)
    then show ?case using Suc.IH(3)[of "p + 1" r] by (cases "r = p") (auto split: if_splits) }
  { case 4 then show ?case using Suc.IH(4)[of "p + 1"] by (auto split: if_splits) }
qed auto

text \<open>The two search loops look for the same page.\<close>

lemma scan_alloc_scan_free:
  assumes "p + int n = NPAGES" "p < NPAGES"
  shows "scan_alloc n pinfo p = (if scan_free n pinfo p < NPAGES then Some (scan_free n pinfo p) else None)"
  using assms
proof (induction n arbitrary: p)
  case (Suc n)
  show ?case
  proof (cases "p = NPAGES - 1")
    case True
    with Suc.prems have "n = 0" by simp
    with True show ?thesis by simp
  next
    case False
    with Suc show ?thesis by simp
  qed
qed simp

text \<open>
  What the callers of the page allocator rely on. A page has a number and an entry of
  information; an allocation takes a usable page that was free, marks it as fresh for the
  owner and changes nothing else, and fails with \<open>null\<close>, changing nothing, only when no usable
  page is free.
\<close>

primrec alloc_many :: "('o \<Rightarrow> 's \<Rightarrow> 'a \<times> 's) \<Rightarrow> nat \<Rightarrow> 'o \<Rightarrow> 's \<Rightarrow> 'a list \<times> 's" where
  "alloc_many alloc 0 pid s = ([], s)"
| "alloc_many alloc (Suc n) pid s =
     (let (a, s1) = alloc pid s; (as, s2) = alloc_many alloc n pid s1 in (a # as, s2))"

locale page_allocator =
  fixes alloc :: "'o \<Rightarrow> 's \<Rightarrow> 'a \<times> 's"
    and null :: 'a
    and num :: "'a \<Rightarrow> 'n"
    and page :: "'n \<Rightarrow> 'a"
    and info :: "'s \<Rightarrow> 'n \<Rightarrow> 'i"
    and set_info :: "'n \<Rightarrow> 'i \<Rightarrow> 's \<Rightarrow> 's"
    and is_free :: "'i \<Rightarrow> bool"
    and fresh :: "'o \<Rightarrow> 'i"
    and usable :: "'n set"
    and frame :: "'s \<Rightarrow> 'f"
  assumes alloc_ok: "alloc pid s = (a, s') \<Longrightarrow> a \<noteq> null \<Longrightarrow>
      num a \<in> usable \<and> page (num a) = a \<and> is_free (info s (num a)) \<and> s' = set_info (num a) (fresh pid) s"
    and alloc_null: "alloc pid s = (null, s') \<Longrightarrow> s' = s \<and> (\<forall>n \<in> usable. \<not> is_free (info s n))"
    and info_set: "info (set_info n i s) = (info s)(n := i)"
    and fresh_used: "\<not> is_free (fresh pid)"
    and usable_finite: "finite usable"
    and frame_set: "frame (set_info n i s) = frame s"
begin

definition free_set :: "'s \<Rightarrow> 'n set" where
  "free_set s = {n \<in> usable. is_free (info s n)}"

lemma free_finite: "finite (free_set s)"
  by (simp add: free_set_def usable_finite)

lemma free_set_alloc:
  assumes "alloc pid s = (a, s')" "a \<noteq> null"
  shows "num a \<in> free_set s" "free_set s' = free_set s - {num a}" "info s' = (info s)(num a := fresh pid)"
    "frame s' = frame s" "page (num a) = a"
proof -
  have ok: "num a \<in> usable" "is_free (info s (num a))" "s' = set_info (num a) (fresh pid) s"
    using alloc_ok[OF assms] by blast+
  show "num a \<in> free_set s" "free_set s' = free_set s - {num a}" "info s' = (info s)(num a := fresh pid)"
    "frame s' = frame s"
    using ok fresh_used by (auto simp: free_set_def info_set frame_set)
  show "page (num a) = a" using alloc_ok[OF assms] by blast
qed

lemma alloc_not_null:
  assumes "alloc pid s = (a, s')" "free_set s \<noteq> {}"
  shows "a \<noteq> null"
  using assms alloc_null by (auto simp: free_set_def)

lemma alloc_many_ok:
  assumes "n \<le> card (free_set s)" "alloc_many alloc n pid s = (as, s')"
  shows "length as = n \<and> null \<notin> set as \<and> (\<forall>a \<in> set as. page (num a) = a) \<and> distinct (map num as) \<and> num ` set as \<subseteq> free_set s
    \<and> info s' = (\<lambda>q. if q \<in> num ` set as then fresh pid else info s q)
    \<and> free_set s' = free_set s - num ` set as \<and> frame s' = frame s"
  using assms
proof (induction n arbitrary: s as)
  case 0
  then show ?case by simp
next
  case (Suc n)
  obtain a s1 where a: "alloc pid s = (a, s1)" by fastforce
  obtain bs where bs: "alloc_many alloc n pid s1 = (bs, s')" "as = a # bs"
    using Suc.prems(2) a by (auto split: prod.splits)
  have ne: "free_set s \<noteq> {}" using Suc.prems(1) by auto
  note nn = alloc_not_null[OF a ne]
  note f = free_set_alloc[OF a nn]
  have "n \<le> card (free_set s1)" using Suc.prems(1) f(1,2) free_finite by simp
  note ih = Suc.IH[OF this bs(1)]
  have "num a \<notin> num ` set bs" "num ` set bs \<subseteq> free_set s" using ih f(2) by auto
  moreover have "info s' = (\<lambda>q. if q \<in> num ` set (a # bs) then fresh pid else info s q)"
    using ih f(3) by (auto simp: fun_eq_iff)
  moreover have "free_set s' = free_set s - num ` set (a # bs)" using ih f(2) by auto
  ultimately show ?case using ih f(1,4,5) nn unfolding bs(2) by simp
qed

lemma alloc_many_null:
  assumes "card (free_set s) < n" "alloc_many alloc n pid s = (as, s')"
  shows "null \<in> set as"
  using assms
proof (induction n arbitrary: s as)
  case 0
  then show ?case by simp
next
  case (Suc n)
  obtain a s1 where a: "alloc pid s = (a, s1)" by fastforce
  obtain bs where bs: "alloc_many alloc n pid s1 = (bs, s')" "as = a # bs"
    using Suc.prems(2) a by (auto split: prod.splits)
  show ?case
  proof (cases "a = null")
    case False
    note f = free_set_alloc[OF a False]
    have "card (free_set s1) < n"
      using Suc.prems(1) f(1,2) free_finite[of s] card_Suc_Diff1[of "free_set s" "num a"] by simp
    from Suc.IH[OF this bs(1)] show ?thesis by (simp add: bs(2))
  qed (simp add: bs(2))
qed

lemma alloc_many_full:
  assumes "card (free_set s) \<le> n" "alloc_many alloc n pid s = (as, s')"
  shows "free_set s' = {} \<and> info s' = (\<lambda>q. if q \<in> free_set s then fresh pid else info s q) \<and> frame s' = frame s
    \<and> (\<forall>a \<in> set as. a = null \<or> num a \<in> free_set s \<and> page (num a) = a)"
  using assms
proof (induction n arbitrary: s as)
  case 0
  then show ?case using free_finite by simp
next
  case (Suc n)
  obtain a s1 where a: "alloc pid s = (a, s1)" by fastforce
  obtain bs where bs: "alloc_many alloc n pid s1 = (bs, s')" "as = a # bs"
    using Suc.prems(2) a by (auto split: prod.splits)
  show ?case
  proof (cases "a = null")
    case True
    then have "free_set s1 = {}" "s1 = s" using alloc_null a by (auto simp: free_set_def)
    then show ?thesis using Suc.IH[OF _ bs(1)] True bs(2) by simp
  next
    case False
    note f = free_set_alloc[OF a False]
    have "card (free_set s1) \<le> n"
      using Suc.prems(1) f(1,2) free_finite[of s] card_Suc_Diff1[of "free_set s" "num a"] by simp
    note ih = Suc.IH[OF this bs(1)]
    have "info s' = (\<lambda>q. if q \<in> free_set s then fresh pid else info s q)"
      using ih f(1-3) by (auto simp: fun_eq_iff)
    then show ?thesis using ih f by (auto simp: bs(2))
  qed
qed

end

section \<open>The kernel's allocator\<close>

definition pn_usable :: "int set" where
  "pn_usable = {1..<NPAGES}"

definition fresh_page :: "int \<Rightarrow> physical_pageinfo" where
  "fresh_page pid = \<lparr>pi_owner = word_of_int pid, pi_refcount = 1\<rparr>"

definition page_frame :: "kernel_state \<Rightarrow> kernel_state" where
  "page_frame s = s\<lparr>k_pageinfo := \<lambda>_. fresh_page 0\<rparr>"

lemma page_frame_eqD:
  assumes "page_frame s' = page_frame s"
  shows "k_mem s' = k_mem s" "k_processes s' = k_processes s" "k_current s' = k_current s"
    "s' = s\<lparr>k_pageinfo := k_pageinfo s'\<rparr>"
  using assms by (cases s; cases s'; simp add: page_frame_def)+

lemma PAGEADDRESS_aligned: "page_aligned (PAGEADDRESS p)"
proof -
  have "PAGEADDRESS p AND 0xFFF = 0"
    unfolding PAGEADDRESS_def mask12 by (rule bit_word_eqI) (auto simp: bit_simps)
  then show ?thesis by (simp add: PAGEOFFSET_def)
qed

lemma PAGENUMBER_PAGEADDRESS:
  assumes "0 \<le> p" "p < 2 ^ 31"
  shows "PAGENUMBER (PAGEADDRESS p) = p"
  using assms PAGEADDRESS_nat[of p] by (subst PAGENUMBER_nat) auto

lemma alloc_page_process_eq:
  "alloc_page_process pid s =
     (let p = scan_free 511 (k_pageinfo s) 1 in
      if p < NPAGES then (PAGEADDRESS p, set_pageinfo p (fresh_page pid) s) else (0, s))"
proof -
  define p where "p = scan_free 511 (k_pageinfo s) 1"
  note sp = scan_free_spec[OF p_def[symmetric]]
  have r: "1 \<le> p" "p \<le> 512" using sp(1,2) by auto
  then have u: "unat (PAGEADDRESS p) = 4096 * nat p" by (intro PAGEADDRESS_nat) auto
  have a: "PAGEADDRESS p AND 0xFFF = 0" using PAGEADDRESS_aligned by (simp add: PAGEOFFSET_def)
  have l: "MEMSIZE_PHYSICAL \<le> PAGEADDRESS p \<longleftrightarrow> \<not> p < NPAGES"
    unfolding word_le_nat_alt u using r by auto
  have n: "PAGENUMBER (PAGEADDRESS p) = p" using r by (intro PAGENUMBER_PAGEADDRESS) auto
  show ?thesis
    using sp(4) r unfolding alloc_page_process_def assign_physical_page_def p_def[symmetric]
    by (auto simp: Let_def a l[simplified] n fresh_page_def p_def[symmetric])
qed

interpretation pages: page_allocator alloc_page_process 0 PAGENUMBER PAGEADDRESS k_pageinfo set_pageinfo
  "\<lambda>i. pi_refcount i = 0" fresh_page pn_usable page_frame
proof unfold_locales
  fix pid :: int and a :: "64 word" and s s' :: kernel_state
  let ?p = "scan_free 511 (k_pageinfo s) 1"
  note sp = scan_free_spec[OF refl[of ?p]]
  have r: "1 \<le> ?p" "?p \<le> 512" using sp(1,2) by auto
  have n: "PAGENUMBER (PAGEADDRESS ?p) = ?p" using r by (intro PAGENUMBER_PAGEADDRESS) auto
  have z: "PAGEADDRESS ?p \<noteq> 0" using PAGEADDRESS_nat[of ?p] r by auto
  show "PAGENUMBER a \<in> pn_usable \<and> PAGEADDRESS (PAGENUMBER a) = a \<and> pi_refcount (k_pageinfo s (PAGENUMBER a)) = 0
      \<and> s' = set_pageinfo (PAGENUMBER a) (fresh_page pid) s"
    if "alloc_page_process pid s = (a, s')" "a \<noteq> 0"
    using that r n sp(4) by (auto simp: alloc_page_process_eq Let_def pn_usable_def split: if_splits)
  show "s' = s \<and> (\<forall>n \<in> pn_usable. \<not> pi_refcount (k_pageinfo s n) = 0)"
    if "alloc_page_process pid s = (0, s')"
    using that r z sp(3) by (auto simp: alloc_page_process_eq Let_def pn_usable_def split: if_splits)
next
  show "k_pageinfo (set_pageinfo n i s) = (k_pageinfo s)(n := i)" for n i and s :: kernel_state by simp
  show "\<not> pi_refcount (fresh_page pid) = 0" for pid by (simp add: fresh_page_def)
  show "finite pn_usable" by (simp add: pn_usable_def)
  show "page_frame (set_pageinfo n i s) = page_frame s" for n i and s :: kernel_state
    by (simp add: page_frame_def set_pageinfo_def)
qed

definition free_pages :: "kernel_state \<Rightarrow> int set" where
  "free_pages s = {pn. 1 \<le> pn \<and> pn < NPAGES \<and> pi_refcount (k_pageinfo s pn) = 0}"

lemma pages_free_set: "pages.free_set s = free_pages s"
  unfolding pages.free_set_def by (auto simp: free_pages_def pn_usable_def)

section \<open>Mapping one page\<close>

lemma map_one_page:
  assumes "pt_wf m pt" "page_aligned va" "unat va < 0x400000" "0 \<le> perm" "perm < 0x1000"
    and "word_of_int perm AND PTE_P \<noteq> 0 \<Longrightarrow> page_aligned pa \<and> pa < MEMSIZE_PHYSICAL"
  shows "virtual_memory_map m pt va pa PAGESIZE perm =
    Inr (0, put_slot m pt (vpn va) (if word_of_int perm AND PTE_P \<noteq> 0 then pa + word_of_int perm else word_of_int perm))"
proof -
  have al: "unat x + 4096 * 1 \<le> n" if "page_aligned x" "unat x < n" "4096 dvd n" for x and n :: nat
    using that by (auto simp: page_aligned_nat elim!: dvdE)
  have "virtual_memory_map m pt va pa (of_nat 1 * PAGESIZE) perm =
      Inr (0, put_range (vpn va) 1 (map_entry pa perm) m pt)"
    using assms al[of va "0x400000"] al[of pa "0x200000"]
    by (intro virtual_memory_map_range) (auto simp: word_less_nat_alt)
  then show ?thesis by (simp add: put_range_def map_entry_def)
qed

lemma lookup_put_slot:
  assumes "pt_wf m pt" "v < 1024"
  shows "virtual_memory_lookup (put_slot m pt v e) pt va =
    vam_of (if vpn va = v then e else slots m pt (vpn va)) va"
  using lookup_slots[OF put_slot_self(1)[OF assms]] put_slot_self(3)[OF assms] by simp

text \<open>What copying a slot through \<open>vamapping\<close> preserves: present entries whole, others as 0.\<close>

definition present :: "64 word \<Rightarrow> 64 word" where
  "present e = (if e AND PTE_P = 0 then 0 else e)"

lemma vam_of_perm: "0 \<le> vam_perm (vam_of e va)" "vam_perm (vam_of e va) < 0x1000"
proof -
  have "uint (PTE_FLAGS e) < 4096"
    using and_FFF_less[of e] unfolding PTE_FLAGS_def word_less_def by simp
  then show "0 \<le> vam_perm (vam_of e va)" "vam_perm (vam_of e va) < 0x1000"
    by (simp_all add: vam_of_def)
qed

lemma vam_of_present: "word_of_int (vam_perm (vam_of e va)) AND PTE_P = (0 :: 64 word) \<longleftrightarrow> e AND PTE_P = 0"
proof -
  have "(e AND 0xFFF) AND 1 = e AND 1" by (simp add: and.assoc)
  then show ?thesis by (simp add: vam_of_def PTE_FLAGS_def)
qed

lemma copy_entry:
  assumes "page_aligned va"
  shows "(if word_of_int (vam_perm (vam_of e va)) AND PTE_P \<noteq> 0
          then vam_pa (vam_of e va) + word_of_int (vam_perm (vam_of e va))
          else word_of_int (vam_perm (vam_of e va))) = present e"
  using addr_plus_off[of e] assms unfolding vam_of_present
  by (simp add: present_def vam_of_def PTE_ADDR_def PTE_FLAGS_def)

lemma map_copy_page:
  assumes "pt_wf m q" "page_aligned va" "unat va < 0x400000" "e AND PTE_P \<noteq> 0 \<Longrightarrow> PTE_ADDR e < MEMSIZE_PHYSICAL"
  shows "virtual_memory_map m q va (vam_pa (vam_of e va)) PAGESIZE (vam_perm (vam_of e va)) =
    Inr (0, put_slot m q (vpn va) (present e))"
proof -
  have "page_aligned (vam_pa (vam_of e va)) \<and> vam_pa (vam_of e va) < MEMSIZE_PHYSICAL"
    if "e AND PTE_P \<noteq> 0"
    using that assms(2,4) by (simp add: vam_of_def)
  then show ?thesis
    using map_one_page[OF assms(1-3) vam_of_perm, of e va "vam_pa (vam_of e va)",
        unfolded copy_entry[OF assms(2)], unfolded vam_of_present] by blast
qed

lemma dup_loop_range:
  assumes "pt_wf m pt" "pt_wf m q" "set (pt_pages m q) \<inter> set (pt_pages m pt) = {}"
    and "page_aligned va" "unat va + 4096 * n \<le> 0x400000"
    and "\<And>v. vpn va \<le> v \<Longrightarrow> v < vpn va + n \<Longrightarrow> slots m pt v AND PTE_P \<noteq> 0 \<Longrightarrow> PTE_ADDR (slots m pt v) < MEMSIZE_PHYSICAL"
  shows "dup_loop n m pt q va = Inr (put_range (vpn va) n (\<lambda>k. present (slots m pt (vpn va + k))) m q)"
  using assms
proof (induction n arbitrary: m va)
  case 0
  then show ?case by simp
next
  case (Suc n)
  let ?e = "slots m pt (vpn va)"
  let ?m = "put_slot m q (vpn va) (present ?e)"
  have low: "unat va < 0x400000" "unat va + 4096 < 2 ^ 48" using Suc.prems(5) by simp_all
  have v: "vpn va < 1024" using low(1) by (simp add: vpn_low)
  note self = put_slot_self[OF Suc.prems(2) v, of "present ?e"]
  note other = pt.put_other[OF Suc.prems(2) v Suc.prems(1,3), of "present ?e"]
  note step = vpn_add_page[OF low(2)]
  have "dup_loop n ?m pt q (va + PAGESIZE) =
      Inr (put_range (vpn (va + PAGESIZE)) n (\<lambda>k. present (slots ?m pt (vpn (va + PAGESIZE) + k))) ?m q)"
    using Suc.prems self other step by (intro Suc.IH) (auto simp: page_aligned_nat)
  moreover have "virtual_memory_map m q va (vam_pa (vam_of ?e va)) PAGESIZE (vam_perm (vam_of ?e va)) = Inr (0, ?m)"
    using Suc.prems low by (intro map_copy_page) auto
  ultimately show ?case
    using other by (simp add: Let_def lookup_slots[OF Suc.prems(1)] step(1) put_range_Suc)
qed

section \<open>Properties of the allocators\<close>

lemma free_pages_finite: "finite (free_pages s)"
  by (rule finite_subset[of _ "{1..<512}"]) (auto simp: free_pages_def)

lemma scan_free_Min:
  "scan_free 511 (k_pageinfo s) 1 = (if free_pages s = {} then NPAGES else Min (free_pages s))"
proof -
  define p where "p = scan_free 511 (k_pageinfo s) 1"
  note sp = scan_free_spec[OF p_def[symmetric]]
  have r: "1 \<le> p" "p \<le> 512" using sp(1,2) by auto
  have above: "p \<le> q" if "q \<in> free_pages s" for q
    using sp(3)[of q] that by (force simp: free_pages_def)
  show ?thesis
  proof (cases "p = 512")
    case True
    then have "free_pages s = {}" using above by (force simp: free_pages_def)
    with True show ?thesis by (simp add: p_def)
  next
    case False
    then have "p \<in> free_pages s" using r sp(4) by (simp add: free_pages_def)
    with above free_pages_finite have "Min (free_pages s) = p" by (intro Min_eqI) auto
    with \<open>p \<in> free_pages s\<close> show ?thesis by (auto simp: p_def[symmetric])
  qed
qed

lemma Min_free_pages:
  assumes "free_pages s \<noteq> {}"
  shows "Min (free_pages s) \<in> free_pages s" "0 < Min (free_pages s)" "Min (free_pages s) < NPAGES"
  using Min_in[OF free_pages_finite assms] by (auto simp: free_pages_def)

text \<open>\<open>alloc_page_process\<close> returns the lowest free physical page and makes the caller its only
  owner, or \<open>NULL\<close> without any change when every page is in use.\<close>

theorem alloc_page_process_spec:
  "alloc_page_process pid s =
     (if free_pages s = {} then (0, s)
      else (PAGEADDRESS (Min (free_pages s)),
            set_pageinfo (Min (free_pages s)) \<lparr>pi_owner = word_of_int pid, pi_refcount = 1\<rparr> s))"
  using Min_free_pages[of s] by (simp add: alloc_page_process_eq scan_free_Min fresh_page_def Let_def)

lemma sys_page_alloc_eq:
  "sys_page_alloc_find_free pt pid addr s =
     (if free_pages s = {} then Inr (-1, s)
      else let p = Min (free_pages s); s1 = set_pageinfo p (fresh_page pid) s in
           if addr < PROC_START_ADDR then Inr (-1, s1)
           else bindR (virtual_memory_map (k_mem s) pt addr (PAGEADDRESS p) PAGESIZE 7)
                  (\<lambda>(_, m). Inr (0, s1\<lparr>k_mem := m\<rparr>)))"
proof (cases "free_pages s = {}")
  case True
  then show ?thesis
    unfolding sys_page_alloc_find_free_def by (simp add: scan_alloc_scan_free scan_free_Min)
next
  case False
  note p = Min_free_pages[OF False]
  have a: "PAGEADDRESS (Min (free_pages s)) AND 0xFFF = 0" using PAGEADDRESS_aligned by (simp add: PAGEOFFSET_def)
  have l: "\<not> MEMSIZE_PHYSICAL \<le> PAGEADDRESS (Min (free_pages s))"
    unfolding word_le_nat_alt using p by (subst PAGEADDRESS_nat) auto
  have n: "PAGENUMBER (PAGEADDRESS (Min (free_pages s))) = Min (free_pages s)"
    using p by (intro PAGENUMBER_PAGEADDRESS) auto
  have f: "pi_refcount (k_pageinfo s (Min (free_pages s))) = 0" using p(1) by (simp add: free_pages_def)
  show ?thesis
    using False p unfolding sys_page_alloc_find_free_def assign_physical_page_def
    by (simp add: scan_alloc_scan_free scan_free_Min a l[simplified] n f fresh_page_def Let_def)
qed

lemma PAGEADDRESS_usable:
  assumes "0 < p" "p < NPAGES"
  shows "page_aligned (PAGEADDRESS p)" "PAGEADDRESS p < MEMSIZE_PHYSICAL" "PAGEADDRESS p \<noteq> 0"
    "unat (PAGEADDRESS p) = 4096 * nat p" "PAGENUMBER (PAGEADDRESS p) = p"
proof -
  show "page_aligned (PAGEADDRESS p)" by (rule PAGEADDRESS_aligned)
  show u: "unat (PAGEADDRESS p) = 4096 * nat p" using assms by (intro PAGEADDRESS_nat) auto
  show "PAGEADDRESS p < MEMSIZE_PHYSICAL" unfolding word_less_nat_alt u using assms by auto
  show "PAGEADDRESS p \<noteq> 0" using u assms by auto
  show "PAGENUMBER (PAGEADDRESS p) = p" using assms by (intro PAGENUMBER_PAGEADDRESS) auto
qed

text \<open>The \<open>page_alloc\<close> system call. On a page-aligned user address below 4 MB and with a free
  page left, it returns 0, takes the lowest free page for the process and maps it there with P, W
  and U; the translation of every other address is unchanged, and so is the rest of the state.\<close>

theorem page_alloc_maps:
  assumes "pt_wf (k_mem s) pt" "page_aligned addr" "PROC_START_ADDR \<le> addr" "unat addr < 0x400000"
    and "free_pages s \<noteq> {}"
  defines "p \<equiv> Min (free_pages s)"
  shows "\<exists>m. sys_page_alloc_find_free pt pid addr s =
        Inr (0, set_pageinfo p \<lparr>pi_owner = word_of_int pid, pi_refcount = 1\<rparr> s\<lparr>k_mem := m\<rparr>)
    \<and> pt_wf m pt \<and> pt_pages m pt = pt_pages (k_mem s) pt
    \<and> virtual_memory_lookup m pt addr = \<lparr>vam_pn = p, vam_pa = PAGEADDRESS p, vam_perm = 7\<rparr>
    \<and> (\<forall>va. unat va < 2 ^ 48 \<and> PTE_ADDR va \<noteq> addr \<longrightarrow>
         virtual_memory_lookup m pt va = virtual_memory_lookup (k_mem s) pt va)"
proof -
  note p = Min_free_pages[OF assms(5), folded p_def]
  note u = PAGEADDRESS_usable[OF p(2,3)]
  have v: "vpn addr < 1024" using assms(4) by (simp add: vpn_low)
  let ?m = "put_slot (k_mem s) pt (vpn addr) (PAGEADDRESS p + 7)"
  have map: "virtual_memory_map (k_mem s) pt addr (PAGEADDRESS p) PAGESIZE 7 = Inr (0, ?m)"
    using map_one_page[OF assms(1,2,4), of 7 "PAGEADDRESS p"] u by simp
  have "sys_page_alloc_find_free pt pid addr s = Inr (0, set_pageinfo p (fresh_page pid) s\<lparr>k_mem := ?m\<rparr>)"
    using assms(3,5) map by (simp add: sys_page_alloc_eq Let_def p_def[symmetric] not_less[symmetric])
  moreover have "virtual_memory_lookup ?m pt addr = \<lparr>vam_pn = p, vam_pa = PAGEADDRESS p, vam_perm = 7\<rparr>"
    using lookup_put_slot[OF assms(1) v, of "PAGEADDRESS p + 7" addr]
      vam_of_mapped[of "PAGEADDRESS p" 7 addr] u p assms(2) by auto
  moreover have "virtual_memory_lookup ?m pt va = virtual_memory_lookup (k_mem s) pt va"
    if "unat va < 2 ^ 48" "PTE_ADDR va \<noteq> addr" for va
  proof -
    have "unat (PTE_ADDR va) = unat addr" if "vpn va = vpn addr"
      using that \<open>unat va < 2 ^ 48\<close> assms(2,4)
      by (simp add: vpn_low PTE_ADDR_nat page_aligned_nat minus_mod_eq_mult_div) auto
    with that(2) have "vpn va \<noteq> vpn addr" by (auto simp: word_unat_eq_iff)
    then show ?thesis by (simp add: lookup_put_slot[OF assms(1) v] lookup_slots[OF assms(1)])
  qed
  ultimately show ?thesis
    using put_slot_self(1,2)[OF assms(1) v] by (intro exI[of _ ?m]) (simp add: fresh_page_def)
qed

text \<open>
  A state for the witnesses: the example page table at pages 1 to 5, owned by process 1, and
  pages 6 to 511 free.
\<close>

definition example_state :: kernel_state where
  "example_state =
     \<lparr>k_mem = example_memory,
      k_pageinfo = (\<lambda>pn. if 6 \<le> pn \<and> pn < NPAGES then \<lparr>pi_owner = 0, pi_refcount = 0\<rparr>
                         else \<lparr>pi_owner = 1, pi_refcount = 1\<rparr>),
      k_processes = (\<lambda>pid. \<lparr>p_pid = pid, p_registers = \<lparr>reg_rax = 0, reg_rcx = 0, reg_rdx = 0, reg_rbx = 0,
          reg_rbp = 0, reg_rsi = 0, reg_rdi = 0, reg_r8 = 0, reg_r9 = 0, reg_r10 = 0, reg_r11 = 0,
          reg_r12 = 0, reg_r13 = 0, reg_r14 = 0, reg_r15 = 0, reg_fs = 0, reg_gs = 0, reg_intno = 0,
          reg_err = 0, reg_rip = 0, reg_cs = 0, reg_rflags = 0, reg_rsp = 0, reg_ss = 0\<rparr>,
          p_state = P_FREE, p_pagetable = 0, display_status = 0\<rparr>),
      k_current = 1, k_ticks = 0, k_disp_global = 1, k_cr3 = 0x1000,
      k_last_ticks = 0, k_showing = 1\<rparr>"

lemma example_state_simps:
  "k_mem example_state = example_memory" "free_pages example_state = {6..<NPAGES}"
  "k_pageinfo example_state pn = (if 6 \<le> pn \<and> pn < NPAGES then \<lparr>pi_owner = 0, pi_refcount = 0\<rparr>
     else \<lparr>pi_owner = 1, pi_refcount = 1\<rparr>)"
  by (auto simp: example_state_def free_pages_def)

lemma example_Min: "Min (free_pages example_state) = 6"
  unfolding example_state_simps by (rule Min_eqI) auto

theorem page_alloc_maps_witness:
  "\<exists>m. sys_page_alloc_find_free 0x1000 1 0x2FF000 example_state =
      Inr (0, set_pageinfo 6 \<lparr>pi_owner = 1, pi_refcount = 1\<rparr> example_state\<lparr>k_mem := m\<rparr>)
    \<and> virtual_memory_lookup m 0x1000 0x2FF000 = \<lparr>vam_pn = 6, vam_pa = 0x6000, vam_perm = 7\<rparr>"
proof -
  have "pt_wf (k_mem example_state) 0x1000" by (simp add: example_state_simps example_memory_wf)
  moreover have "page_aligned 0x2FF000" by (simp add: page_aligned_nat)
  ultimately show ?thesis
    using page_alloc_maps[of example_state "0x1000" "0x2FF000" 1, unfolded example_Min]
    by (auto simp: example_state_simps PAGEADDRESS_def push_bit_eq_mult)
qed

text \<open>C20: the refusals of \<open>page_alloc\<close>. With no free page it returns -1 and changes nothing. On an
  address below \<open>PROC_START_ADDR\<close> it returns -1 too, but only after it has taken the lowest free page,
  which stays owned by the process and mapped nowhere. A user address that is not page-aligned
  is not refused: the kernel fails the assertion in \<open>virtual_memory_map\<close>.\<close>

theorem page_alloc_refusals:
  "(free_pages s = {} \<longrightarrow> sys_page_alloc_find_free pt pid addr s = Inr (-1, s)) \<and>
   (free_pages s \<noteq> {} \<and> addr < PROC_START_ADDR \<longrightarrow>
      sys_page_alloc_find_free pt pid addr s =
        Inr (-1, set_pageinfo (Min (free_pages s)) \<lparr>pi_owner = word_of_int pid, pi_refcount = 1\<rparr> s)) \<and>
   (free_pages s \<noteq> {} \<and> PROC_START_ADDR \<le> addr \<and> \<not> page_aligned addr \<longrightarrow>
      sys_page_alloc_find_free pt pid addr s = Inl (Assert_fail ''vm.c'' 102))"
  by (auto simp: sys_page_alloc_eq Let_def fresh_page_def virtual_memory_map_def mod_PAGESIZE not_le[symmetric])

theorem page_alloc_refusals_witness:
  "sys_page_alloc_find_free 0x1000 1 0xFF000 example_state =
     Inr (-1, set_pageinfo 6 \<lparr>pi_owner = 1, pi_refcount = 1\<rparr> example_state)
   \<and> sys_page_alloc_find_free 0x1000 1 0x100001 example_state = Inl (Assert_fail ''vm.c'' 102)"
proof -
  have "\<not> page_aligned 0x100001" by (simp add: page_aligned_nat)
  then show ?thesis
    using page_alloc_refusals[of example_state "0x1000" 1 "0xFF000", unfolded example_Min]
      page_alloc_refusals[of example_state "0x1000" 1 "0x100001"]
    by (simp add: example_state_simps)
qed

section \<open>Duplicating a page table\<close>

lemma memset_pages:
  assumes "\<forall>P \<in> set Ps. page_aligned P"
  shows "if P \<in> set Ps then zero_page (fold (\<lambda>P m. memset m P 0 PAGESIZE) Ps m) P
    else same_page m (fold (\<lambda>P m. memset m P 0 PAGESIZE) Ps m) P"
  using assms
proof (induction Ps arbitrary: m)
  case (Cons R Ps)
  let ?m = "memset m R 0 PAGESIZE"
  have "zero_page ?m R" "P \<noteq> R \<Longrightarrow> same_page m ?m P" using memset_page[of R] Cons.prems by simp_all
  with Cons.IH[of ?m] Cons.prems show ?case
    by (auto simp: zero_page_def same_page_def split: if_splits)
qed simp

definition page_nums :: "memory \<Rightarrow> 64 word \<Rightarrow> int set" where
  "page_nums m pt = PAGENUMBER ` set (pt_pages m pt)"

lemma page_frame_mem:
  "page_frame s' = page_frame s \<Longrightarrow> s'\<lparr>k_mem := m\<rparr> = s\<lparr>k_mem := m, k_pageinfo := k_pageinfo s'\<rparr>"
  by (cases s; cases s') (simp add: page_frame_def)

lemma alloc_five:
  assumes "5 \<le> card (free_pages s)"
  obtains L1 L2 L3 L4 L5 s' where
    "alloc_many alloc_page_process 5 pid s = ([L1, L2, L3, L4, L5], s')"
    "distinct (map PAGENUMBER [L1, L2, L3, L4, L5])"
    "\<forall>p \<in> {L1, L2, L3, L4, L5}. page_aligned p \<and> p \<noteq> 0 \<and> p < MEMSIZE_PHYSICAL \<and> PAGENUMBER p \<in> free_pages s"
    "k_pageinfo s' = (\<lambda>q. if q \<in> PAGENUMBER ` {L1, L2, L3, L4, L5} then fresh_page pid else k_pageinfo s q)"
    "page_frame s' = page_frame s"
proof -
  obtain as s' where al: "alloc_many alloc_page_process 5 pid s = (as, s')" by fastforce
  have "5 \<le> card (pages.free_set s)" using assms by (simp add: pages_free_set)
  from pages.alloc_many_ok[OF this al] have len: "length as = 5" 
    and addr: "\<forall>a \<in> set as. PAGEADDRESS (PAGENUMBER a) = a"
    and dn: "distinct (map PAGENUMBER as)" and sub: "PAGENUMBER ` set as \<subseteq> free_pages s"
    and info: "k_pageinfo s' = (\<lambda>q. if q \<in> PAGENUMBER ` set as then fresh_page pid else k_pageinfo s q)"
    and frame: "page_frame s' = page_frame s"
    by (auto simp: pages_free_set)
  have usable: "page_aligned a \<and> a \<noteq> 0 \<and> a < MEMSIZE_PHYSICAL \<and> PAGENUMBER a \<in> free_pages s" if "a \<in> set as" for a
  proof -
    have "PAGENUMBER a \<in> free_pages s" using sub that by auto
    then show ?thesis
      using bspec[OF addr that] PAGEADDRESS_usable[of "PAGENUMBER a"] by (auto simp: free_pages_def)
  qed
  obtain L1 L2 L3 L4 L5 where as: "as = [L1, L2, L3, L4, L5]"
    using len by (auto simp: eval_nat_numeral length_Suc_conv)
  show thesis
    by (rule that[OF al[unfolded as] dn[unfolded as] _ _ frame]) (use usable info in \<open>simp_all add: as\<close>)
qed

text \<open>Zeroing and linking five fresh pages gives an empty address space and touches nothing else.\<close>

lemma fresh_tables:
  fixes m :: memory
  assumes dist: "distinct [L1, L2, L3, L4, L5]"
    and ok: "\<forall>p \<in> {L1, L2, L3, L4, L5}. page_aligned p \<and> p \<noteq> 0 \<and> p < MEMSIZE_PHYSICAL"
  defines "m' \<equiv> link_tables (fold (\<lambda>P m. memset m P 0 PAGESIZE) [L1, L2, L3, L4, L5] m) L1 L2 L3 L4 L5"
  shows "pt_wf m' L1" "pt_pages m' L1 = [L1, L2, L3, L4, L5]" "slots m' L1 = (\<lambda>_. 0)"
    "Q \<notin> {L1, L2, L3, L4, L5} \<Longrightarrow> same_page m m' Q"
proof -
  let ?as = "[L1, L2, L3, L4, L5]"
  let ?m = "fold (\<lambda>P m. memset m P 0 PAGESIZE) ?as m"
  have al: "\<forall>P \<in> set ?as. page_aligned P" using ok by simp
  have z: "\<forall>p \<in> {L1, L2, L3, L4, L5}. zero_page ?m p"
  proof
    fix p assume "p \<in> {L1, L2, L3, L4, L5}"
    then have "p \<in> set ?as" by simp
    then show "zero_page ?m p" using memset_pages[OF al, of p m] by (simp only: if_True)
  qed
  note link = link_tables_wf[OF dist ok z, folded m'_def]
  show "pt_wf m' L1" "pt_pages m' L1 = [L1, L2, L3, L4, L5]" "slots m' L1 = (\<lambda>_. 0)" by (fact link)+
  show "same_page m m' Q" if "Q \<notin> {L1, L2, L3, L4, L5}"
  proof -
    have "Q \<notin> set ?as" using that by simp
    then have "same_page m ?m Q" using memset_pages[OF al, of Q m] by (simp only: if_False)
    also have "same_page ?m m' Q" using that by (intro link(4)) simp
    finally show ?thesis .
  qed
qed

lemma duplicate_pagetable_alloc:
  assumes "alloc_many alloc_page_process 5 pid s = ([L1, L2, L3, L4, L5], s')"
    and "0 \<notin> {L1, L2, L3, L4, L5}"
  shows "duplicate_pagetable pt pid s =
    bindR (dup_loop 256 (link_tables (fold (\<lambda>P m. memset m P 0 PAGESIZE) [L1, L2, L3, L4, L5] (k_mem s')) L1 L2 L3 L4 L5) pt L1 0)
      (\<lambda>m. Inr (L1, s'\<lparr>k_mem := m\<rparr>))"
proof -
  have 5: "(5 :: nat) = Suc (Suc (Suc (Suc (Suc 0))))" by simp
  have "L OR PTE_P OR PTE_W OR PTE_U = L OR 7" for L by (simp add: or.assoc)
  moreover obtain s1 s2 s3 s4 where "alloc_page_process pid s = (L1, s1)" "alloc_page_process pid s1 = (L2, s2)"
    "alloc_page_process pid s2 = (L3, s3)" "alloc_page_process pid s3 = (L4, s4)"
    "alloc_page_process pid s4 = (L5, s')"
    using assms(1) unfolding 5 by (auto simp: Let_def split: prod.splits)
  ultimately show ?thesis
    using assms(2) unfolding duplicate_pagetable_def link_tables_def by simp
qed

lemma duplicate_pagetable_lemma:
  assumes wf: "pt_wf (k_mem s) pt" and used: "page_nums (k_mem s) pt \<inter> free_pages s = {}"
    and room: "5 \<le> card (free_pages s)"
    and src: "\<forall>v < 256. slots (k_mem s) pt v AND PTE_P \<noteq> 0 \<longrightarrow> PTE_ADDR (slots (k_mem s) pt v) < MEMSIZE_PHYSICAL"
  obtains L s' where "duplicate_pagetable pt pid s = Inr (L, s')" "L \<noteq> 0" "pt_wf (k_mem s') L"
    "slots (k_mem s') L = (\<lambda>v. if v < 256 then present (slots (k_mem s) pt v) else 0)"
    "page_nums (k_mem s') L \<subseteq> free_pages s" "card (page_nums (k_mem s') L) = 5"
    "k_pageinfo s' = (\<lambda>q. if q \<in> page_nums (k_mem s') L then fresh_page pid else k_pageinfo s q)"
    "\<forall>Q. Q \<notin> set (pt_pages (k_mem s') L) \<longrightarrow> same_page (k_mem s) (k_mem s') Q"
    "s' = s\<lparr>k_mem := k_mem s', k_pageinfo := k_pageinfo s'\<rparr>"
proof -
  obtain L1 L2 L3 L4 L5 s1 where al: "alloc_many alloc_page_process 5 pid s = ([L1, L2, L3, L4, L5], s1)"
    and dn: "distinct (map PAGENUMBER [L1, L2, L3, L4, L5])"
    and ok: "\<forall>p \<in> {L1, L2, L3, L4, L5}. page_aligned p \<and> p \<noteq> 0 \<and> p < MEMSIZE_PHYSICAL \<and> PAGENUMBER p \<in> free_pages s"
    and info: "k_pageinfo s1 = (\<lambda>q. if q \<in> PAGENUMBER ` {L1, L2, L3, L4, L5} then fresh_page pid else k_pageinfo s q)"
    and frame: "page_frame s1 = page_frame s"
    by (rule alloc_five[OF room])
  define m1 where "m1 = link_tables (fold (\<lambda>P m. memset m P 0 PAGESIZE) [L1, L2, L3, L4, L5] (k_mem s)) L1 L2 L3 L4 L5"
  have ok': "\<forall>p \<in> {L1, L2, L3, L4, L5}. page_aligned p \<and> p \<noteq> 0 \<and> p < MEMSIZE_PHYSICAL" using ok by blast
  have dist: "distinct [L1, L2, L3, L4, L5]" using dn by (metis distinct_map)
  note ft = fresh_tables[OF dist ok', where m = "k_mem s", folded m1_def]
  have disj: "p \<notin> set (pt_pages (k_mem s) pt)" if "p \<in> {L1, L2, L3, L4, L5}" for p
    using used bspec[OF ok that] unfolding page_nums_def by blast
  have same: "same_page (k_mem s) m1 p" if "p \<in> set (pt_pages (k_mem s) pt)" for p
    using that disj by (intro ft(4)) blast
  have old: "pt_pages m1 pt = pt_pages (k_mem s) pt" "pt_wf m1 pt" "slots m1 pt = slots (k_mem s) pt"
    by (rule same_pages_slots[OF wf], erule same)+
  let ?m = "put_range 0 256 (\<lambda>k. present (slots (k_mem s) pt k)) m1 L1"
  have v0: "vpn 0 = 0" "page_aligned 0" by (simp_all add: vpn_def page_aligned_nat)
  have dj: "set (pt_pages m1 L1) \<inter> set (pt_pages m1 pt) = {}" unfolding ft(2) old(1) by (simp add: disj)
  have "dup_loop 256 m1 pt L1 0 = Inr (put_range (vpn 0) 256 (\<lambda>k. present (slots m1 pt (vpn 0 + k))) m1 L1)"
    by (rule dup_loop_range[OF old(2) ft(1) dj v0(2)]) (use src in \<open>simp_all add: old(3) v0(1)\<close>)
  then have "dup_loop 256 m1 pt L1 0 = Inr ?m" by (simp only: old(3) v0(1) add_0)
  moreover have "0 \<notin> {L1, L2, L3, L4, L5}" using ok by fastforce
  ultimately have dup: "duplicate_pagetable pt pid s = Inr (L1, s1\<lparr>k_mem := ?m\<rparr>)"
    using duplicate_pagetable_alloc[OF al] page_frame_eqD(1)[OF frame] by (simp add: m1_def)
  note pr = put_range_self[OF ft(1), of 0 256 "\<lambda>k. present (slots (k_mem s) pt k)", simplified]
  have pages: "pt_pages ?m L1 = [L1, L2, L3, L4, L5]" by (simp only: pr ft)
  then have nums: "page_nums ?m L1 = PAGENUMBER ` {L1, L2, L3, L4, L5}" by (simp add: page_nums_def)
  show thesis
  proof (rule that[OF dup])
    show "L1 \<noteq> 0" using ok by auto
    show "pt_wf (k_mem (s1\<lparr>k_mem := ?m\<rparr>)) L1" using pr by simp
    show "slots (k_mem (s1\<lparr>k_mem := ?m\<rparr>)) L1 = (\<lambda>v. if v < 256 then present (slots (k_mem s) pt v) else 0)"
      using pr by (simp add: ft(3) fun_eq_iff)
    show "page_nums (k_mem (s1\<lparr>k_mem := ?m\<rparr>)) L1 \<subseteq> free_pages s" using nums ok by auto
    show "card (page_nums (k_mem (s1\<lparr>k_mem := ?m\<rparr>)) L1) = 5"
      using nums distinct_card[OF dn] by simp
    show "k_pageinfo (s1\<lparr>k_mem := ?m\<rparr>) =
        (\<lambda>q. if q \<in> page_nums (k_mem (s1\<lparr>k_mem := ?m\<rparr>)) L1 then fresh_page pid else k_pageinfo s q)"
      using nums info by simp
    show "\<forall>Q. Q \<notin> set (pt_pages (k_mem (s1\<lparr>k_mem := ?m\<rparr>)) L1) \<longrightarrow> same_page (k_mem s) (k_mem (s1\<lparr>k_mem := ?m\<rparr>)) Q"
    proof (intro allI impI)
      fix Q assume "Q \<notin> set (pt_pages (k_mem (s1\<lparr>k_mem := ?m\<rparr>)) L1)"
      then have Q: "Q \<notin> {L1, L2, L3, L4, L5}" using pages by simp
      then have "same_page m1 ?m Q"
        using ft(2) by (intro put_range_same_page[OF ft(1)]) (auto simp: pt_pages_def)
      with ft(4)[OF Q] show "same_page (k_mem s) (k_mem (s1\<lparr>k_mem := ?m\<rparr>)) Q"
        by (auto intro: same_page_trans)
    qed
    show "s1\<lparr>k_mem := ?m\<rparr> = s\<lparr>k_mem := k_mem (s1\<lparr>k_mem := ?m\<rparr>), k_pageinfo := k_pageinfo (s1\<lparr>k_mem := ?m\<rparr>)\<rparr>"
      using page_frame_mem[OF frame] by simp
  qed
qed

lemma vam_of_0: "vam_of 0 va = \<lparr>vam_pn = -1, vam_pa = -1, vam_perm = 0\<rparr>"
  by (simp add: vam_of_def)

lemma vam_of_copy: "vam_of (present e) va = vam_of e va"
  by (simp add: present_def vam_of_def)

text \<open>C17: \<open>duplicate_pagetable\<close> with five free pages left. It returns a new well-formed page table
  made of five previously free pages, which now belong to the process with one reference each.
  The new table translates every address below \<open>PROC_START_ADDR\<close> as the given one and maps
  nothing above; the given table still translates every address as before, and every page of
  memory other than the five new ones is untouched.\<close>

theorem duplicate_pagetable_ok:
  assumes "pt_wf (k_mem s) pt" "page_nums (k_mem s) pt \<inter> free_pages s = {}" "5 \<le> card (free_pages s)"
    and "\<And>va. unat va < 0x100000 \<Longrightarrow> vam_perm (virtual_memory_lookup (k_mem s) pt va) \<noteq> 0 \<Longrightarrow>
           vam_pa (virtual_memory_lookup (k_mem s) pt va) < MEMSIZE_PHYSICAL"
  shows "\<exists>L s'. duplicate_pagetable pt pid s = Inr (L, s') \<and> L \<noteq> 0 \<and> pt_wf (k_mem s') L
    \<and> page_nums (k_mem s') L \<subseteq> free_pages s \<and> card (page_nums (k_mem s') L) = 5
    \<and> k_pageinfo s' = (\<lambda>q. if q \<in> page_nums (k_mem s') L
        then \<lparr>pi_owner = word_of_int pid, pi_refcount = 1\<rparr> else k_pageinfo s q)
    \<and> (\<forall>va. unat va < 2 ^ 48 \<longrightarrow> virtual_memory_lookup (k_mem s') L va =
         (if unat va < 0x100000 then virtual_memory_lookup (k_mem s) pt va
          else \<lparr>vam_pn = -1, vam_pa = -1, vam_perm = 0\<rparr>))
    \<and> (\<forall>va. virtual_memory_lookup (k_mem s') pt va = virtual_memory_lookup (k_mem s) pt va)
    \<and> (\<forall>Q. Q \<notin> set (pt_pages (k_mem s') L) \<longrightarrow> same_page (k_mem s) (k_mem s') Q)"
proof -
  note wf = assms(1)
  have "PTE_ADDR (slots (k_mem s) pt v) < MEMSIZE_PHYSICAL"
    if v: "v < 256" and p: "slots (k_mem s) pt v AND PTE_P \<noteq> 0" for v
  proof -
    let ?va = "of_nat (4096 * v) :: 64 word"
    have u: "unat ?va = 4096 * v" using v by (intro unat_of_nat64) simp
    have "vpn ?va = v" "page_aligned ?va" using v by (simp_all add: vpn_def page_aligned_nat u del: of_nat_mult)
    then have l: "virtual_memory_lookup (k_mem s) pt ?va = vam_of (slots (k_mem s) pt v) ?va"
      "PAGEOFFSET ?va = 0" by (simp_all add: lookup_slots[OF wf] del: of_nat_mult)
    have "vam_perm (vam_of (slots (k_mem s) pt v) ?va) \<noteq> 0"
      using p vam_of_present[of "slots (k_mem s) pt v" ?va] by (auto simp del: of_nat_mult)
    with assms(4)[of ?va] v p show ?thesis unfolding l(1) u using l(2) by (simp add: vam_of_def del: of_nat_mult)
  qed
  then have "\<forall>v < 256. slots (k_mem s) pt v AND PTE_P \<noteq> 0 \<longrightarrow> PTE_ADDR (slots (k_mem s) pt v) < MEMSIZE_PHYSICAL" by blast
  from wf assms(2,3) this obtain L s' where d: "duplicate_pagetable pt pid s = Inr (L, s')" "L \<noteq> 0" "pt_wf (k_mem s') L"
    and sl: "slots (k_mem s') L = (\<lambda>v. if v < 256 then present (slots (k_mem s) pt v) else 0)"
    and nums: "page_nums (k_mem s') L \<subseteq> free_pages s" "card (page_nums (k_mem s') L) = 5"
      "k_pageinfo s' = (\<lambda>q. if q \<in> page_nums (k_mem s') L then fresh_page pid else k_pageinfo s q)"
    and same: "\<forall>Q. Q \<notin> set (pt_pages (k_mem s') L) \<longrightarrow> same_page (k_mem s) (k_mem s') Q"
    and "s' = s\<lparr>k_mem := k_mem s', k_pageinfo := k_pageinfo s'\<rparr>"
    by (rule duplicate_pagetable_lemma[where pid = pid])
  have "same_page (k_mem s) (k_mem s') p" if "p \<in> set (pt_pages (k_mem s) pt)" for p
    using that assms(2) nums(1) by (intro same[rule_format]) (auto simp: page_nums_def)
  then have old: "pt_wf (k_mem s') pt" "slots (k_mem s') pt = slots (k_mem s) pt"
    using same_pages_slots[OF wf] by blast+
  have "virtual_memory_lookup (k_mem s') L va =
       (if unat va < 0x100000 then virtual_memory_lookup (k_mem s) pt va
          else \<lparr>vam_pn = -1, vam_pa = -1, vam_perm = 0\<rparr>)" if "unat va < 2 ^ 48" for va
    using that by (auto simp: lookup_slots[OF d(3)] lookup_slots[OF wf] sl vpn_low vam_of_0 vam_of_copy)
  moreover have "virtual_memory_lookup (k_mem s') pt va = virtual_memory_lookup (k_mem s) pt va" for va
    by (simp add: lookup_slots[OF wf] lookup_slots[OF old(1)] old(2))
  ultimately show ?thesis using d nums[unfolded fresh_page_def] same by (intro exI[of _ L] exI[of _ s']) simp
qed

lemma alloc_many_aligned:
  "alloc_many alloc_page_process n pid s = (as, s') \<Longrightarrow> \<forall>a \<in> set as. page_aligned a"
proof (induction n arbitrary: s as)
  case (Suc n)
  obtain a s1 where a: "alloc_page_process pid s = (a, s1)" by fastforce
  obtain bs where bs: "alloc_many alloc_page_process n pid s1 = (bs, s')" "as = a # bs"
    using Suc.prems a by (auto split: prod.splits)
  have "page_aligned a"
    using a PAGEADDRESS_aligned by (auto simp: alloc_page_process_eq Let_def page_aligned_nat split: if_splits)
  with Suc.IH[OF bs(1)] bs(2) show ?case by simp
qed simp

lemma duplicate_exhausted_lemma:
  assumes "card (free_pages s) < 5"
  obtains s' where "duplicate_pagetable pt pid s = Inr (0, s')" "free_pages s' = {}" "zero_page (k_mem s') 0"
    "k_processes s' = k_processes s" "k_current s' = k_current s"
    "k_pageinfo s' = (\<lambda>q. if q \<in> free_pages s then fresh_page pid else k_pageinfo s q)"
    "\<And>P. P \<noteq> 0 \<Longrightarrow> PAGENUMBER P \<notin> free_pages s \<Longrightarrow> same_page (k_mem s) (k_mem s') P"
proof -
  obtain as s1 where al: "alloc_many alloc_page_process 5 pid s = (as, s1)" by fastforce
  have c: "card (pages.free_set s) < 5" "card (pages.free_set s) \<le> 5" using assms by (simp_all add: pages_free_set)
  note z = pages.alloc_many_null[OF c(1) al] and full = pages.alloc_many_full[OF c(2) al, unfolded pages_free_set]
  have 5: "(5 :: nat) = Suc (Suc (Suc (Suc (Suc 0))))" by simp
  obtain L1 L2 L3 L4 L5 s2 s3 s4 s5 where st: "alloc_page_process pid s = (L1, s2)"
    "alloc_page_process pid s2 = (L2, s3)" "alloc_page_process pid s3 = (L3, s4)"
    "alloc_page_process pid s4 = (L4, s5)" "alloc_page_process pid s5 = (L5, s1)"
    and as: "as = [L1, L2, L3, L4, L5]"
    using al unfolding 5 by (auto simp: Let_def split: prod.splits)
  let ?m = "fold (\<lambda>P m. memset m P 0 PAGESIZE) as (k_mem s1)"
  note fr = page_frame_eqD[of s1 s] and me = memset_pages[OF alloc_many_aligned[OF al], of _ "k_mem s1"]
  show thesis
  proof (rule that[of "s1\<lparr>k_mem := ?m\<rparr>"])
    show "duplicate_pagetable pt pid s = Inr (0, s1\<lparr>k_mem := ?m\<rparr>)"
      using z st unfolding duplicate_pagetable_def as by auto
    show "free_pages (s1\<lparr>k_mem := ?m\<rparr>) = {}" using full by (simp add: free_pages_def fresh_page_def)
    show "zero_page (k_mem (s1\<lparr>k_mem := ?m\<rparr>)) 0" using me[of 0] z by simp
    show "same_page (k_mem s) (k_mem (s1\<lparr>k_mem := ?m\<rparr>)) P" if "P \<noteq> 0" "PAGENUMBER P \<notin> free_pages s" for P
      using me[of P] full that fr(1) by (auto split: if_splits)
  qed (use full fr in simp_all)
qed

text \<open>C21: \<open>duplicate_pagetable\<close> with fewer than five free pages returns \<open>NULL\<close>, but not cleanly:
  every page that was still free is now taken, and the zeroing of the pages it did not get has
  cleared physical page 0.\<close>

theorem duplicate_pagetable_exhausted:
  assumes "card (free_pages s) < 5"
  shows "\<exists>s'. duplicate_pagetable pt pid s = Inr (0, s') \<and> free_pages s' = {} \<and> zero_page (k_mem s') 0"
  using duplicate_exhausted_lemma[OF assms] by metis

theorem duplicate_pagetable_ok_witness:
  "\<exists>L s'. duplicate_pagetable 0x1000 2 example_state = Inr (L, s') \<and> L \<noteq> 0 \<and> pt_wf (k_mem s') L
     \<and> page_nums (k_mem s') L \<subseteq> {6..<512}"
proof -
  note w = example_memory_wf
  have wf: "pt_wf (k_mem example_state) 0x1000" by (simp add: example_state_simps w)
  have "PAGENUMBER 0x1000 = 1" "PAGENUMBER 0x2000 = 2" "PAGENUMBER 0x3000 = 3" "PAGENUMBER 0x4000 = 4"
    "PAGENUMBER 0x5000 = 5" by (simp_all add: PAGENUMBER_nat)
  then have n: "page_nums (k_mem example_state) 0x1000 \<inter> free_pages example_state = {}"
    by (simp add: page_nums_def example_state_simps w)
  have "vam_perm (virtual_memory_lookup (k_mem example_state) 0x1000 va) = 0" for va
    unfolding lookup_slots[OF wf] by (simp add: example_state_simps w vam_of_def)
  then show ?thesis
    using duplicate_pagetable_ok[OF wf n, of 2] by (auto simp: example_state_simps)
qed

theorem duplicate_pagetable_exhausted_witness:
  "\<exists>s'. duplicate_pagetable 0x1000 2 (example_state\<lparr>k_pageinfo := \<lambda>_. \<lparr>pi_owner = 1, pi_refcount = 1\<rparr>\<rparr>) = Inr (0, s')
     \<and> free_pages s' = {} \<and> zero_page (k_mem s') 0"
  by (rule duplicate_pagetable_exhausted) (simp add: free_pages_def)

end
