(* ===== verification/Printer.thy ===== *)
theory Printer
  imports Kernel_State "HOL-Library.Monad_Syntax"
begin

text \<open>
  The print library of \<open>lib.c\<close>: \<open>fill_numbuf\<close>, the format interpreter \<open>printer_vprintf\<close>, and
  its two printers, the console (\<open>console_putc\<close>, \<open>console_vprintf\<close>, \<open>console_clear\<close>) and the
  bounded string buffer (\<open>string_putc\<close>, \<open>vsnprintf\<close>).

  A \<open>printer\<close> is its \<open>putc\<close> function on the printer's state. A \<open>char*\<close> argument is modelled by
  the string it points to, a \<open>va_list\<close> by the list of arguments still to be read; a missing
  argument or one of the wrong kind is undefined in C and gives \<open>None\<close>.
\<close>

unbundle bit_operations_syntax

section \<open>Arguments and numbers\<close>

datatype va_argument = VNum "64 word" | VStr string

type_synonym va_list = "va_argument list"

fun va_num :: "va_list \<Rightarrow> (64 word \<times> va_list) option" where
  "va_num (VNum w # val) = Some (w, val)"
| "va_num _ = None"

fun va_str :: "va_list \<Rightarrow> (string \<times> va_list) option" where
  "va_str (VStr s # val) = Some (takeWhile (\<lambda>c. c \<noteq> CHR 0x00) s, val)"
| "va_str _ = None"

definition va_int :: "64 word \<Rightarrow> int" where
  "va_int w = sint (ucast w :: 32 word)"

definition upper_digits :: string where
  "upper_digits = ''0123456789ABCDEF''"

definition lower_digits :: string where
  "lower_digits = ''0123456789abcdef''"

text \<open>The \<open>do \<dots> while\<close> loop of \<open>fill_numbuf\<close>; the digits are written from the end backwards.\<close>

partial_function (option) fill_loop :: "string \<Rightarrow> nat \<Rightarrow> nat \<Rightarrow> string \<Rightarrow> string option" where
  "fill_loop digits base v buf =
     (let buf' = digits ! (v mod base) # buf; v' = v div base in
      if v' \<noteq> 0 then fill_loop digits base v' buf' else Some buf')"

definition fill_numbuf :: "64 word \<Rightarrow> int \<Rightarrow> string option" where
  "fill_numbuf v base =
     (if base < 0 then fill_loop lower_digits (nat (- base)) (unat v) []
      else fill_loop upper_digits (nat base) (unat v) [])"

section \<open>The format interpreter\<close>

abbreviation (input) FLAG_ALT :: "32 word" where "FLAG_ALT \<equiv> 1"
abbreviation (input) FLAG_ZERO :: "32 word" where "FLAG_ZERO \<equiv> 2"
abbreviation (input) FLAG_LEFTJUSTIFY :: "32 word" where "FLAG_LEFTJUSTIFY \<equiv> 4"
abbreviation (input) FLAG_SPACEPOSITIVE :: "32 word" where "FLAG_SPACEPOSITIVE \<equiv> 8"
abbreviation (input) FLAG_PLUSPOSITIVE :: "32 word" where "FLAG_PLUSPOSITIVE \<equiv> 16"
abbreviation (input) FLAG_NUMERIC :: "32 word" where "FLAG_NUMERIC \<equiv> 32"
abbreviation (input) FLAG_SIGNED :: "32 word" where "FLAG_SIGNED \<equiv> 64"
abbreviation (input) FLAG_NEGATIVE :: "32 word" where "FLAG_NEGATIVE \<equiv> 128"
abbreviation (input) FLAG_ALT2 :: "32 word" where "FLAG_ALT2 \<equiv> 256"

text \<open>The bit of a character of \<open>flag_chars\<close>; \<open>None\<close> when \<open>strchr\<close> does not find it.\<close>

definition flag_of :: "char \<Rightarrow> (32 word) option" where
  "flag_of c =
     (if c = CHR ''#'' then Some FLAG_ALT else if c = CHR ''0'' then Some FLAG_ZERO
      else if c = CHR ''-'' then Some FLAG_LEFTJUSTIFY else if c = CHR '' '' then Some FLAG_SPACEPOSITIVE
      else if c = CHR ''+'' then Some FLAG_PLUSPOSITIVE else None)"

fun parse_flags :: "string \<Rightarrow> 32 word \<Rightarrow> 32 word \<times> string" where
  "parse_flags [] flags = (flags, [])"
| "parse_flags (c # cs) flags =
     (case flag_of c of Some f \<Rightarrow> parse_flags cs (flags OR f) | None \<Rightarrow> (flags, c # cs))"

definition is_digit :: "char \<Rightarrow> bool" where
  "is_digit c \<longleftrightarrow> 48 \<le> (of_char c :: nat) \<and> (of_char c :: nat) \<le> 57"

fun parse_digits :: "int \<Rightarrow> string \<Rightarrow> int \<times> string" where
  "parse_digits acc (c # cs) =
     (if is_digit c then parse_digits (10 * acc + (of_char c - 48)) cs else (acc, c # cs))"
| "parse_digits acc [] = (acc, [])"

fun parse_width :: "string \<Rightarrow> va_list \<Rightarrow> (int \<times> string \<times> va_list) option" where
  "parse_width (c # cs) val =
     (if is_digit c \<and> c \<noteq> CHR ''0'' then
        let (w, cs') = parse_digits 0 (c # cs) in Some (w, cs', val)
      else if c = CHR ''*'' then
        do { (w, val') \<leftarrow> va_num val; Some (va_int w, cs, val') }
      else Some (-1, c # cs, val))"
| "parse_width [] val = Some (-1, [], val)"

fun parse_precision :: "string \<Rightarrow> va_list \<Rightarrow> (int \<times> string \<times> va_list) option" where
  "parse_precision (CHR ''.'' # cs) val =
     (case cs of
        c # cs' \<Rightarrow>
          if is_digit c then let (p, r) = parse_digits 0 cs in Some (p, r, val)
          else if c = CHR ''*'' then
            do { (w, val') \<leftarrow> va_num val; Some (max 0 (va_int w), cs', val') }
          else Some (0, cs, val)
      | [] \<Rightarrow> Some (0, [], val))"
| "parse_precision cs val = Some (-1, cs, val)"

text \<open>The \<open>again:\<close> loop over \<open>l\<close> and \<open>z\<close>.\<close>

fun parse_length :: "string \<Rightarrow> bool \<Rightarrow> bool \<times> string" where
  "parse_length (c # cs) len = (if c = CHR ''l'' \<or> c = CHR ''z'' then parse_length cs True else (len, c # cs))"
| "parse_length [] len = (len, [])"

text \<open>What the conversion character determines; \<open>Set_color\<close> is \<open>%C\<close>, which prints nothing.\<close>

datatype conversion =
    Set_color int
  | Convert int "64 word" "32 word" string  \<comment> \<open>\<open>base\<close>, \<open>num\<close>, \<open>flags\<close>, \<open>data\<close>\<close>

definition convert_unsigned ::
  "int \<Rightarrow> bool \<Rightarrow> 32 word \<Rightarrow> va_list \<Rightarrow> (conversion \<times> va_list) option" where
  "convert_unsigned base len flags val =
     do { (w, val') \<leftarrow> va_num val;
          Some (Convert base (if len then w else ucast (ucast w :: 32 word)) (flags OR FLAG_NUMERIC) [], val') }"

fun convert :: "string \<Rightarrow> bool \<Rightarrow> 32 word \<Rightarrow> va_list \<Rightarrow> (conversion \<times> va_list) option" where
  "convert [] len flags val = Some (Convert 10 0 flags ''%'', val)"
| "convert (c # cs) len flags val =
     (if c = CHR ''d'' \<or> c = CHR ''i'' then
        do { (w, val') \<leftarrow> va_num val;
             let x = (if len then sint w else va_int w);
             let negative = (if x < 0 then FLAG_NEGATIVE else 0);
             Some (Convert 10 (word_of_int (if x < 0 then - x else x))
                     (flags OR FLAG_NUMERIC OR FLAG_SIGNED OR negative) [], val') }
      else if c = CHR ''u'' then convert_unsigned 10 len flags val
      else if c = CHR ''x'' then convert_unsigned (-16) len flags val
      else if c = CHR ''X'' then convert_unsigned 16 len flags val
      else if c = CHR ''p'' then
        do { (w, val') \<leftarrow> va_num val;
             Some (Convert (-16) w (flags OR FLAG_ALT OR FLAG_ALT2 OR FLAG_NUMERIC) [], val') }
      else if c = CHR ''s'' then
        do { (s, val') \<leftarrow> va_str val; Some (Convert 10 0 flags s, val') }
      else if c = CHR ''C'' then
        do { (w, val') \<leftarrow> va_num val; Some (Set_color (va_int w), val') }
      else if c = CHR ''c'' then
        do { (w, val') \<leftarrow> va_num val;
             let ch = char_of (unat (ucast w :: 8 word));
             Some (Convert 10 0 flags (if ch = CHR 0x00 then [] else [ch]), val') }
      else Some (Convert 10 0 flags [c], val))"

definition prefix_of :: "int \<Rightarrow> 64 word \<Rightarrow> 32 word \<Rightarrow> string" where
  "prefix_of base num flags =
     (if flags AND FLAG_NUMERIC \<noteq> 0 \<and> flags AND FLAG_SIGNED \<noteq> 0 then
        (if flags AND FLAG_NEGATIVE \<noteq> 0 then ''-''
         else if flags AND FLAG_PLUSPOSITIVE \<noteq> 0 then ''+''
         else if flags AND FLAG_SPACEPOSITIVE \<noteq> 0 then '' '' else '''')
      else if flags AND FLAG_NUMERIC \<noteq> 0 \<and> flags AND FLAG_ALT \<noteq> 0 \<and> (base = 16 \<or> base = -16)
              \<and> (num \<noteq> 0 \<or> flags AND FLAG_ALT2 \<noteq> 0)
      then (if base = -16 then ''0x'' else ''0X'')
      else '''')"

primrec put_times :: "(char \<Rightarrow> int \<Rightarrow> 's \<Rightarrow> 's) \<Rightarrow> nat \<Rightarrow> char \<Rightarrow> int \<Rightarrow> 's \<Rightarrow> 's" where
  "put_times putc 0 c color p = p"
| "put_times putc (Suc n) c color p = put_times putc n c color (putc c color p)"

primrec put_string :: "(char \<Rightarrow> int \<Rightarrow> 's \<Rightarrow> 's) \<Rightarrow> string \<Rightarrow> int \<Rightarrow> 's \<Rightarrow> 's" where
  "put_string putc [] color p = p"
| "put_string putc (c # cs) color p = put_string putc cs color (putc c color p)"

text \<open>The output part of a conversion: padding, prefix, zeros, data, padding.\<close>

definition put_field ::
  "(char \<Rightarrow> int \<Rightarrow> 's \<Rightarrow> 's) \<Rightarrow> int \<Rightarrow> int \<Rightarrow> int \<Rightarrow> int \<Rightarrow> 64 word \<Rightarrow> 32 word \<Rightarrow> string \<Rightarrow> 's \<Rightarrow> 's" where
  "put_field putc color width precision base num flags data p =
     (let prefix = prefix_of base num flags;
          plen = int (length prefix);
          len = (if precision \<ge> 0 \<and> flags AND FLAG_NUMERIC = 0
                 then min (int (length data)) precision else int (length data));
          zeros = (if flags AND FLAG_NUMERIC \<noteq> 0 \<and> precision \<ge> 0
                   then (if precision > len then precision - len else 0)
                   else if flags AND FLAG_NUMERIC \<noteq> 0 \<and> flags AND FLAG_ZERO \<noteq> 0
                           \<and> flags AND FLAG_LEFTJUSTIFY = 0 \<and> len + plen < width
                   then width - len - plen else 0);
          width = width - (len + zeros + plen);
          left = flags AND FLAG_LEFTJUSTIFY \<noteq> 0;
          p = (if left then p else put_times putc (nat width) CHR '' '' color p);
          p = put_string putc prefix color p;
          p = put_times putc (nat zeros) CHR ''0'' color p;
          p = put_string putc (take (nat len) data) color p
      in if left then put_times putc (nat width) CHR '' '' color p else p)"

lemma parse_flags_length: "length (snd (parse_flags cs f)) \<le> length cs"
  by (induction cs f rule: parse_flags.induct) (auto split: option.splits)

lemma parse_flags_le: "(g, r) = parse_flags cs f \<Longrightarrow> length r \<le> length cs"
  using parse_flags_length[of cs f] by (metis snd_conv)

lemma parse_digits_length: "length (snd (parse_digits a cs)) \<le> length cs"
  by (induction a cs rule: parse_digits.induct) auto

lemma parse_width_length: "parse_width cs val = Some (w, cs', val') \<Longrightarrow> length cs' \<le> length cs"
  using parse_digits_length[of 0 cs]
  by (cases cs) (auto split: if_splits prod.splits Option.bind_splits)

lemma parse_precision_length: "parse_precision cs val = Some (p, cs', val') \<Longrightarrow> length cs' \<le> length cs"
proof (induction cs val rule: parse_precision.induct)
  case (1 cs val)
  then show ?case
    using parse_digits_length[of 0 cs]
    by (auto split: if_splits prod.splits Option.bind_splits list.splits)
qed auto

lemma parse_length_length: "length (snd (parse_length cs l)) \<le> length cs"
  by (induction cs l rule: parse_length.induct) auto

lemma parse_length_le: "(l', r) = parse_length cs l \<Longrightarrow> length r \<le> length cs"
  using parse_length_length[of cs l] by (metis snd_conv)

text \<open>
  One directive, from behind its \<open>%\<close> up to and including the conversion character, with the
  digits of a number filled in. At the end of the format the code steps back before the loop's
  \<open>++format\<close>, so the rest is empty.
\<close>

datatype directive =
    Recolor int
  | Field int int int "64 word" "32 word" string
      \<comment> \<open>\<open>width\<close>, \<open>precision\<close>, \<open>base\<close>, \<open>num\<close>, \<open>flags\<close>, \<open>data\<close>\<close>

definition parse_directive :: "string \<Rightarrow> va_list \<Rightarrow> (directive \<times> string \<times> va_list) option" where
  "parse_directive cs val =
     (let (flags, cs1) = parse_flags cs 0 in
      do { (width, cs2, val2) \<leftarrow> parse_width cs1 val;
           (precision, cs3, val3) \<leftarrow> parse_precision cs2 val2;
           let (len, cs4) = parse_length cs3 False;
           (conv, val4) \<leftarrow> convert cs4 len flags val3;
           case conv of
             Set_color color \<Rightarrow> Some (Recolor color, drop 1 cs4, val4)
           | Convert base num flags' data \<Rightarrow>
               do { data' \<leftarrow> (if flags' AND FLAG_NUMERIC \<noteq> 0 then fill_numbuf num base else Some data);
                    Some (Field width precision base num flags' data', drop 1 cs4, val4) } })"

lemma parse_directive_length:
  "parse_directive cs val = Some (d, cs', val') \<Longrightarrow> length cs' \<le> length cs"
  by (auto simp: parse_directive_def Let_def split: prod.splits Option.bind_splits conversion.splits if_splits
      dest!: parse_flags_le[OF sym] parse_width_length parse_precision_length parse_length_le[OF sym])

function printer_vprintf ::
  "(char \<Rightarrow> int \<Rightarrow> 's \<Rightarrow> 's) \<Rightarrow> int \<Rightarrow> string \<Rightarrow> va_list \<Rightarrow> 's \<Rightarrow> 's option" where
  "printer_vprintf putc color [] val p = Some p"
| "printer_vprintf putc color (c # cs) val p =
     (if c \<noteq> CHR ''%'' then printer_vprintf putc color cs val (putc c color p)
      else
        case parse_directive cs val of
          None \<Rightarrow> None
        | Some (Recolor color', cs', val') \<Rightarrow> printer_vprintf putc color' cs' val' p
        | Some (Field width precision base num flags data, cs', val') \<Rightarrow>
            printer_vprintf putc color cs' val'
              (put_field putc color width precision base num flags data p))"
  by pat_completeness auto
termination
  by (relation "measure (\<lambda>(putc, color, cs, val, p). length cs)") (auto dest!: parse_directive_length)

section \<open>The console\<close>

text \<open>
  \<open>console\<close> is the array of 16-bit cells at \<open>CONSOLE_ADDR\<close>; a \<open>console_printer\<close> is the
  memory and the index of its cursor in that array.
\<close>

abbreviation (input) CPOS :: "int \<Rightarrow> int \<Rightarrow> int" where "CPOS row col \<equiv> row * 80 + col"

definition console_set :: "memory \<Rightarrow> int \<Rightarrow> 16 word \<Rightarrow> memory" where
  "console_set m i c = store_le m (CONSOLE_ADDR + 2 * word_of_int i) 2 c"

record console_printer =
  cp_mem :: memory
  cp_cursor :: int

definition console_next :: "16 word \<Rightarrow> console_printer \<Rightarrow> console_printer" where
  "console_next c cp = \<lparr>cp_mem = console_set (cp_mem cp) (cp_cursor cp) c, cp_cursor = cp_cursor cp + 1\<rparr>"

primrec console_newline :: "nat \<Rightarrow> int \<Rightarrow> console_printer \<Rightarrow> console_printer" where
  "console_newline 0 color cp = cp"
| "console_newline (Suc n) color cp = console_newline n color (console_next (0x20 OR word_of_int color) cp)"

definition console_putc :: "char \<Rightarrow> int \<Rightarrow> console_printer \<Rightarrow> console_printer" where
  "console_putc c color cp0 =
     (let cp = (if cp_cursor cp0 \<ge> 25 * 80 then cp0\<lparr>cp_cursor := 0\<rparr> else cp0) in
      if c = CHR 0x0A then console_newline (nat (80 - cp_cursor cp mod 80)) color cp
      else console_next (of_char c OR word_of_int color) cp)"

definition console_vprintf :: "int \<Rightarrow> int \<Rightarrow> string \<Rightarrow> va_list \<Rightarrow> memory \<Rightarrow> (int \<times> memory) option" where
  "console_vprintf cpos color format val m =
     (let cpos' = (if cpos < 0 \<or> cpos \<ge> 25 * 80 then 0 else cpos) in
      do { cp \<leftarrow> printer_vprintf console_putc color format val \<lparr>cp_mem = m, cp_cursor = cpos'\<rparr>;
           Some (cp_cursor cp, cp_mem cp) })"

text \<open>\<open>console_printf\<close> as the kernel calls it; a format that does not fit its arguments is undefined.\<close>

definition console_printf :: "int \<Rightarrow> int \<Rightarrow> string \<Rightarrow> va_list \<Rightarrow> memory \<Rightarrow> kfault + (int \<times> memory)" where
  "console_printf cpos color format val m =
     (case console_vprintf cpos color format val m of None \<Rightarrow> Inl Undefined_behaviour | Some r \<Rightarrow> Inr r)"

primrec console_clear_loop :: "nat \<Rightarrow> int \<Rightarrow> memory \<Rightarrow> memory" where
  "console_clear_loop 0 i m = m"
| "console_clear_loop (Suc n) i m = console_clear_loop n (i + 1) (console_set m i (0x20 OR 0x0700))"

text \<open>\<open>link/shared.ld\<close> puts the shared variable \<open>cursorpos\<close> into the last bytes of the console page, where programs write it too.\<close>

definition console_clear :: "kernel_state \<Rightarrow> kernel_state" where
  "console_clear s = s\<lparr>k_mem := store_le (console_clear_loop (25 * 80) 0 (k_mem s)) 0xB8FFC 4 (0 :: 32 word)\<rparr>"

section \<open>String buffers\<close>

record string_printer =
  sp_mem :: memory
  sp_s :: "64 word"
  sp_end :: "64 word"

definition string_putc :: "char \<Rightarrow> int \<Rightarrow> string_printer \<Rightarrow> string_printer" where
  "string_putc c color sp =
     (if sp_s sp < sp_end sp
      then sp\<lparr>sp_mem := (sp_mem sp)(sp_s sp := of_char c), sp_s := sp_s sp + 1\<rparr>
      else sp)"

definition vsnprintf :: "64 word \<Rightarrow> 64 word \<Rightarrow> string \<Rightarrow> va_list \<Rightarrow> memory \<Rightarrow> (int \<times> memory) option" where
  "vsnprintf s sz format val m =
     (if sz \<noteq> 0 then
        do { sp \<leftarrow> printer_vprintf string_putc 0 format val \<lparr>sp_mem = m, sp_s = s, sp_end = s + sz - 1\<rparr>;
             Some (sint (ucast (sp_s sp - s) :: 32 word), (sp_mem sp)(sp_s sp := 0)) }
      else Some (0, m))"

definition snprintf :: "64 word \<Rightarrow> 64 word \<Rightarrow> string \<Rightarrow> va_list \<Rightarrow> memory \<Rightarrow> (int \<times> memory) option" where
  "snprintf s sz format val m = vsnprintf s sz format val m"

section \<open>Printers as an interface\<close>

lemma printf_percent:
  assumes "printer_vprintf putc color (c # cs) val p = Some p'" "c = CHR ''%''"
  obtains cs' val' color' q where "length cs' \<le> length cs" "printer_vprintf putc color' cs' val' q = Some p'"
    "q = p \<or> (\<exists>width precision base num flags data. q = put_field putc color width precision base num flags data p)"
  using assms parse_directive_length[of cs val]
  by (auto split: option.splits directive.splits) blast

text \<open>
  What a printer guarantees of every character it is given, it guarantees of a whole formatted
  print: \<open>printer_vprintf\<close> touches the printer through \<open>putc\<close> only.
\<close>

locale printer =
  fixes putc :: "char \<Rightarrow> int \<Rightarrow> 's \<Rightarrow> 's"
    and rel :: "'s \<Rightarrow> 's \<Rightarrow> bool"
  assumes rel_refl: "rel p p"
    and rel_trans: "rel p q \<Longrightarrow> rel q r \<Longrightarrow> rel p r"
    and rel_putc: "rel p (putc c color p)"
begin

lemma rel_put_times: "rel p (put_times putc n c color p)"
  by (induction n arbitrary: p) (auto intro: rel_refl rel_trans[OF rel_putc])

lemma rel_put_string: "rel p (put_string putc cs color p)"
  by (induction cs arbitrary: p) (auto intro: rel_refl rel_trans[OF rel_putc])

lemma rel_put_field: "rel p (put_field putc color width precision base num flags data p)"
  unfolding put_field_def Let_def
  by (auto intro: rel_trans[OF _ rel_put_times] rel_trans[OF _ rel_put_string] rel_refl rel_put_times rel_put_string)

lemma rel_printf: "printer_vprintf putc color fmt val p = Some p' \<Longrightarrow> rel p p'"
proof (induction fmt arbitrary: color val p rule: measure_induct_rule[where f = length])
  case (less fmt)
  show ?case
  proof (cases fmt)
    case Nil
    with less.prems show ?thesis by (simp add: rel_refl)
  next
    case (Cons c cs)
    show ?thesis
    proof (cases "c = CHR ''%''")
      case True
      from less.prems[unfolded Cons] True obtain cs' val' color' q where
        "length cs' \<le> length cs" "printer_vprintf putc color' cs' val' q = Some p'" and
        q: "q = p \<or> (\<exists>width precision base num flags data. q = put_field putc color width precision base num flags data p)"
        by (rule printf_percent)
      then have "rel q p'" using less.IH[of cs'] Cons by simp
      moreover have "rel p q" using q rel_refl rel_put_field by metis
      ultimately show ?thesis by (blast intro: rel_trans)
    next
      case False
      then have "rel (putc c color p) p'" using less.prems less.IH[of cs] Cons by simp
      with rel_putc show ?thesis by (blast intro: rel_trans)
    qed
  qed
qed

end

section \<open>The two printers\<close>

definition console_rel :: "console_printer \<Rightarrow> console_printer \<Rightarrow> bool" where
  "console_rel p p' \<longleftrightarrow>
     (0 \<le> cp_cursor p \<and> cp_cursor p \<le> 2000 \<longrightarrow>
        0 \<le> cp_cursor p' \<and> cp_cursor p' \<le> 2000 \<and>
        (\<forall>x. 4000 \<le> x - CONSOLE_ADDR \<longrightarrow> cp_mem p' x = cp_mem p x))"

lemma console_set_frame:
  assumes "0 \<le> i" "i < 2000" "4000 \<le> x - CONSOLE_ADDR"
  shows "console_set m i c x = m x"
proof -
  define y where "y = x - CONSOLE_ADDR"
  have u: "unat (2 * word_of_int i :: 64 word) = 2 * nat i"
  proof -
    have "(2 * word_of_int i :: 64 word) = of_nat (2 * nat i)" using assms(1) by simp
    moreover have "unat (of_nat (2 * nat i) :: 64 word) = 2 * nat i"
      by (rule unat_of_nat64) (use assms(2) in simp)
    ultimately show ?thesis by simp
  qed
  have "4000 \<le> unat y" using assms(3) by (simp add: y_def word_le_nat_alt)
  moreover have "2 * word_of_int i \<le> y" unfolding word_le_nat_alt u using calculation assms(2) by simp
  ultimately have "2 \<le> unat (y - 2 * word_of_int i)" using assms(2) by (simp add: unat_sub u)
  moreover have "x - (CONSOLE_ADDR + 2 * word_of_int i) = y - 2 * word_of_int i" by (simp add: y_def)
  ultimately show ?thesis unfolding console_set_def by (intro store_le_outside) (simp only:)
qed

lemma console_next_rel: "cp_cursor p < 2000 \<Longrightarrow> console_rel p (console_next c p)"
  by (simp add: console_rel_def console_next_def console_set_frame)

lemma console_newline_rel: "cp_cursor p + int n \<le> 2000 \<Longrightarrow> console_rel p (console_newline n color p)"
proof (induction n arbitrary: p)
  case (Suc n)
  have "console_rel p (console_next (0x20 OR word_of_int color) p)" using Suc.prems by (intro console_next_rel) simp
  moreover have "console_rel (console_next (0x20 OR word_of_int color) p) (console_newline (Suc n) color p)"
    using Suc.prems Suc.IH[of "console_next (0x20 OR word_of_int color) p"] by (simp add: console_next_def)
  ultimately show ?case by (auto simp: console_rel_def)
qed (simp add: console_rel_def)

interpretation console_print: printer console_putc console_rel
proof unfold_locales
  fix p :: console_printer and c color
  let ?p = "if cp_cursor p \<ge> 25 * 80 then p\<lparr>cp_cursor := 0\<rparr> else p"
  have lt: "cp_cursor ?p < 2000" by simp
  have "cp_cursor ?p + int (nat (80 - cp_cursor ?p mod 80)) \<le> 2000"
  proof -
    have "cp_cursor ?p = 80 * (cp_cursor ?p div 80) + cp_cursor ?p mod 80" by simp
    moreover have "cp_cursor ?p mod 80 < 80" by simp
    moreover have "cp_cursor ?p div 80 < 25" using lt by (simp add: int_div_less_self)
    ultimately show ?thesis by linarith
  qed
  then have "console_rel ?p (console_putc c color p)"
    unfolding console_putc_def Let_def using console_next_rel[OF lt] console_newline_rel by simp
  then show "console_rel p (console_putc c color p)" by (auto simp: console_rel_def split: if_splits)
qed (auto simp: console_rel_def)

section \<open>Output as a sequence\<close>

text \<open>The characters a format produces, with their colors, as seen by a printer that records them.\<close>

definition record_putc :: "char \<Rightarrow> int \<Rightarrow> (char \<times> int) list \<Rightarrow> (char \<times> int) list" where
  "record_putc c color out = out @ [(c, color)]"

definition printf_output :: "int \<Rightarrow> string \<Rightarrow> va_list \<Rightarrow> (char \<times> int) list option" where
  "printf_output color fmt val = printer_vprintf record_putc color fmt val []"

definition replay :: "(char \<Rightarrow> int \<Rightarrow> 's \<Rightarrow> 's) \<Rightarrow> (char \<times> int) list \<Rightarrow> 's \<Rightarrow> 's" where
  "replay putc out p = fold (\<lambda>(c, color) p. putc c color p) out p"

lemma replay_Nil [simp]: "replay putc [] p = p"
  by (simp add: replay_def)

lemma replay_record: "replay putc (record_putc c color out) p = putc c color (replay putc out p)"
  by (simp add: replay_def record_putc_def)

lemma replay_put_times:
  "replay putc (put_times record_putc n c color out) p = put_times putc n c color (replay putc out p)"
  by (induction n arbitrary: out) (simp_all add: replay_record)

lemma replay_put_string:
  "replay putc (put_string record_putc cs color out) p = put_string putc cs color (replay putc out p)"
  by (induction cs arbitrary: out) (simp_all add: replay_record)

lemma replay_put_field:
  "replay putc (put_field record_putc color width precision base num flags data out) p =
   put_field putc color width precision base num flags data (replay putc out p)"
  by (simp add: put_field_def Let_def replay_put_times replay_put_string)

lemma printf_replay_from:
  "printer_vprintf putc color fmt val (replay putc out p) =
   map_option (\<lambda>out'. replay putc out' p) (printer_vprintf record_putc color fmt val out)"
proof (induction fmt arbitrary: color val out rule: measure_induct_rule[where f = length])
  case (less fmt)
  show ?case
  proof (cases fmt)
    case (Cons c cs)
    show ?thesis
    proof (cases "c = CHR ''%''")
      case False
      then show ?thesis using less.IH[of cs] Cons by (simp flip: replay_record)
    next
      case True
      then show ?thesis
        using less.IH Cons parse_directive_length[of cs val]
        by (auto simp: replay_put_field[symmetric] less_Suc_eq_le split: option.splits directive.splits)
    qed
  qed simp
qed

section \<open>Bounded buffers\<close>

lemma minus_1_not_less: "\<not> unat (- 1 :: 64 word) < unat (y :: 64 word)"
  by (simp flip: word_less_nat_alt)

lemma replay_string:
  assumes "sp_s sp \<le> sp_end sp"
  defines "k \<equiv> \<lambda>out. min (length out) (unat (sp_end sp - sp_s sp))"
  shows "replay string_putc out sp =
    sp\<lparr>sp_mem := (\<lambda>x. if unat (x - sp_s sp) < k out then of_char (fst (out ! unat (x - sp_s sp))) else sp_mem sp x),
       sp_s := sp_s sp + of_nat (k out)\<rparr>"
  using assms(1) unfolding k_def
proof (induction out arbitrary: sp)
  case Nil
  then show ?case by (simp add: replay_def)
next
  case (Cons o1 out)
  obtain c color where o1: "o1 = (c, color)" by fastforce
  show ?case
  proof (cases "sp_s sp < sp_end sp")
    case False
    then have eq: "sp_end sp = sp_s sp" using Cons.prems by simp
    then have "replay string_putc (o1 # out) sp = replay string_putc out sp"
      by (simp add: replay_def o1 string_putc_def)
    with Cons.IH[OF Cons.prems] eq show ?thesis by simp
  next
    case True
    let ?sp = "sp\<lparr>sp_mem := (sp_mem sp)(sp_s sp := of_char c), sp_s := sp_s sp + 1\<rparr>"
    have u: "unat (sp_end sp - sp_s sp) = Suc (unat (sp_end sp - (sp_s sp + 1)))"
      using True by (intro unat_diff_Suc) auto
    have "sp_s sp + 1 \<le> sp_end sp" using True by (rule inc_le)
    then have le: "sp_s ?sp \<le> sp_end ?sp" by simp
    have "replay string_putc (o1 # out) sp = replay string_putc out ?sp"
      using True by (simp add: replay_def o1 string_putc_def)
    also note Cons.IH[OF le]
    finally show ?thesis
      by (auto simp: u o1 fun_eq_iff unat_diff_Suc minus_1_not_less intro!: string_printer.equality)
  qed
qed

lemma vsnprintf_result:
  assumes "printf_output 0 fmt val = Some out" "0 < unat sz" "unat s + unat sz \<le> 2 ^ 64" "unat sz < 2 ^ 31"
  defines "k \<equiv> min (length out) (unat sz - 1)"
  shows "vsnprintf s sz fmt val m = Some (int k,
    \<lambda>x. if unat (x - s) < k then of_char (fst (out ! unat (x - s))) else if unat (x - s) = k then 0 else m x)"
proof -
  have sz: "unat (s + sz - 1 - s) = unat sz - 1"
    using assms(2) unat_minus_one[of sz] by (simp add: unat_gt_0)
  have "unat (s + (sz - 1)) = unat s + (unat sz - 1)"
  proof -
    have "unat s + (unat sz - 1) < 2 ^ 64" using assms(2,3) by linarith
    moreover have "unat (sz - 1) = unat sz - 1" using assms(2) unat_minus_one[of sz] by (simp add: unat_gt_0)
    ultimately show ?thesis unfolding unat_word_ariths(1) by simp
  qed
  then have le: "s \<le> s + sz - 1" by (simp add: word_le_nat_alt algebra_simps)
  have k: "k < 2 ^ 31" using assms(4) by (simp add: k_def)
  then have "unat (of_nat k :: 64 word) = k" by (intro unat_of_nat64) simp
  moreover have "sint (ucast (of_nat k :: 64 word) :: 32 word) = int k"
    using k by (simp add: ucast_of_nat32 signed_of_nat signed_take_bit_int_eq_self)
  moreover have "x = s + of_nat k \<longleftrightarrow> unat (x - s) = k" for x
    using calculation(1) by (metis add_diff_cancel_left' diff_add_cancel add.commute word_unat_eq_iff)
  moreover let ?sp = "\<lparr>sp_mem = m, sp_s = s, sp_end = s + sz - 1\<rparr>"
  have "printer_vprintf string_putc 0 fmt val ?sp = Some (replay string_putc out ?sp)"
    using printf_replay_from[of string_putc 0 fmt val "[]" ?sp] assms(1) by (simp add: printf_output_def)
  moreover have "replay string_putc out ?sp =
      \<lparr>sp_mem = (\<lambda>x. if unat (x - s) < k then of_char (fst (out ! unat (x - s))) else m x),
       sp_s = s + of_nat k, sp_end = s + sz - 1\<rparr>"
    using replay_string[of ?sp out] le sz unfolding k_def by (simp cong: if_cong)
  moreover have "sz \<noteq> 0" using assms(2) by auto
  ultimately show ?thesis by (auto simp: vsnprintf_def fun_eq_iff)
qed

text \<open>C22: \<open>vsnprintf\<close> never writes outside its buffer and always terminates it. It stores the first
  \<open>size - 1\<close> characters of the output followed by a NUL, changes no other byte, and returns the
  number of characters stored.\<close>

theorem vsnprintf_spec:
  assumes "printf_output 0 fmt val = Some out" "0 < unat sz" "unat s + unat sz \<le> 2 ^ 64" "unat sz < 2 ^ 31"
  defines "k \<equiv> min (length out) (unat sz - 1)"
  shows "vsnprintf s sz fmt val m = Some (int k,
    \<lambda>x. if unat (x - s) < k then of_char (fst (out ! unat (x - s))) else if unat (x - s) = k then 0 else m x)"
  unfolding k_def by (rule vsnprintf_result[OF assms(1-4)])

section \<open>Numbers\<close>

definition digits_value :: "nat \<Rightarrow> nat list \<Rightarrow> nat" where
  "digits_value base ns = foldl (\<lambda>a d. a * base + d) 0 ns"

lemma digits_value_snoc: "digits_value base (ns @ [d]) = digits_value base ns * base + d"
  by (simp add: digits_value_def)

lemma fill_loop_digits:
  assumes "2 \<le> base"
  shows "\<exists>ns. fill_loop digits base v buf = Some (map ((!) digits) ns @ buf) \<and> ns \<noteq> []
    \<and> (\<forall>d \<in> set ns. d < base) \<and> digits_value base ns = v \<and> (ns = [0] \<or> 0 < hd ns)
    \<and> base ^ (length ns - 1) \<le> max 1 v"
proof (induction v arbitrary: buf rule: less_induct)
  case (less v)
  let ?d = "v mod base" and ?q = "v div base"
  show ?case
  proof (cases "?q = 0")
    case True
    then have "v < base" using assms by (simp add: div_eq_0_iff)
    with True show ?thesis
      by (subst fill_loop.simps) (intro exI[of _ "[v]"], auto simp: digits_value_def)
  next
    case False
    then have lt: "?q < v" using assms by (cases v) auto
    obtain ns where ns: "fill_loop digits base ?q (digits ! ?d # buf) = Some (map ((!) digits) ns @ digits ! ?d # buf)"
      "ns \<noteq> []" "\<forall>d \<in> set ns. d < base" "digits_value base ns = ?q" "ns = [0] \<or> 0 < hd ns"
      "base ^ (length ns - 1) \<le> max 1 ?q"
      using less.IH[OF lt, of "digits ! ?d # buf"] by blast
    have "ns \<noteq> [0]" using ns(4) False by (auto simp: digits_value_def)
    moreover have "base ^ length ns \<le> v"
    proof -
      have "base ^ length ns = base ^ (length ns - 1) * base" using ns(2) by (cases ns) auto
      also have "\<dots> \<le> ?q * base" using ns(6) False by (intro mult_right_mono) auto
      also have "\<dots> \<le> v" by (simp add: div_times_less_eq_dividend)
      finally show ?thesis .
    qed
    ultimately show ?thesis
      using False ns(1-5) assms
      by (subst fill_loop.simps) (intro exI[of _ "ns @ [?d]"], simp add: Let_def digits_value_snoc)
  qed
qed

text \<open>C24: \<open>fill_numbuf\<close> terminates and writes the numeral of its argument: digits of the base, without
  leading zeros, whose value is the argument. With the terminating NUL it needs at most 21 of the
  24 bytes of \<open>numbuf\<close>.\<close>

theorem fill_numbuf_numeral:
  assumes "base \<in> {10, 16, -16}"
  shows "\<exists>ns. fill_numbuf v base = Some (map ((!) (if base < 0 then lower_digits else upper_digits)) ns)
    \<and> (\<forall>d \<in> set ns. d < nat \<bar>base\<bar>) \<and> digits_value (nat \<bar>base\<bar>) ns = unat v
    \<and> (ns = [0] \<or> 0 < hd ns) \<and> length ns + 1 \<le> 21"
proof -
  define b where "b = nat \<bar>base\<bar>"
  have b: "b = 10 \<or> b = 16" using assms by (auto simp: b_def)
  then have "2 \<le> b" by auto
  then obtain ns where ns: "fill_loop (if base < 0 then lower_digits else upper_digits) b (unat v) [] =
      Some (map ((!) (if base < 0 then lower_digits else upper_digits)) ns)" "ns \<noteq> []"
      "\<forall>d \<in> set ns. d < b" "digits_value b ns = unat v" "ns = [0] \<or> 0 < hd ns"
      "b ^ (length ns - 1) \<le> max 1 (unat v)"
    using fill_loop_digits[of b _ "unat v" "[]"] by fastforce
  have "length ns - 1 < 20"
  proof (rule ccontr)
    assume "\<not> length ns - 1 < 20"
    then have "(10 :: nat) ^ 20 \<le> b ^ (length ns - 1)"
      using b power_mono[of 10 b 20] power_increasing[of 20 "length ns - 1" b] by (auto elim: order_trans)
    also have "\<dots> \<le> max 1 (unat v)" by (fact ns(6))
    also have "\<dots> < 2 ^ 64" using unsigned_less[of v] by simp
    finally show False by simp
  qed
  moreover have "fill_numbuf v base = fill_loop (if base < 0 then lower_digits else upper_digits) b (unat v) []"
    by (simp add: fill_numbuf_def b_def)
  ultimately show ?thesis using ns unfolding b_def[symmetric] by (intro exI[of _ ns]) auto
qed

theorem fill_numbuf_numeral_witness:
  "\<exists>ns. fill_numbuf 0xFFFFFFFFFFFFFFFF 10 = Some (map ((!) upper_digits) ns)
    \<and> digits_value 10 ns = 18446744073709551615 \<and> length ns \<le> 20"
  using fill_numbuf_numeral[of 10 "0xFFFFFFFFFFFFFFFF"] by auto

text \<open>C26: \<open>%d\<close> prints a C \<open>int\<close> in decimal: a minus sign exactly for negative values, then the decimal
  digits of its absolute value, in the current color.\<close>

theorem printf_decimal:
  "\<exists>ns. printf_output color ''%d'' [VNum w] =
        Some (map (\<lambda>c. (c, color)) ((if va_int w < 0 then ''-'' else '''') @ map ((!) upper_digits) ns))
    \<and> list_all (\<lambda>d. d < 10) ns \<and> int (digits_value 10 ns) = \<bar>va_int w\<bar>"
proof -
  define x where "x = va_int w"
  define num :: "64 word" where "num = word_of_int \<bar>x\<bar>"
  define flags :: "32 word" where "flags = (if x < 0 then 0xE0 else 0x60)"
  have "\<bar>x\<bar> \<le> 2 ^ 31"
    unfolding x_def va_int_def using sint_ge[of "ucast w :: 32 word"] sint_lt[of "ucast w :: 32 word"] by simp
  then have num: "int (unat num) = \<bar>x\<bar>" by (simp add: num_def unsigned_of_int take_bit_int_eq_self flip: uint_nat)
  obtain ns where ns: "fill_loop upper_digits 10 (unat num) [] = Some (map ((!) upper_digits) ns)"
    "\<forall>d \<in> set ns. d < 10" "digits_value 10 ns = unat num"
    using fill_loop_digits[of 10 upper_digits "unat num" "[]"] by auto
  have "parse_directive ''d'' [VNum w] = Some (Field (-1) (-1) 10 num flags (map ((!) upper_digits) ns), [], [])"
  proof (cases "x < 0")
    case True
    then have "num = - word_of_int x" by (simp add: num_def)
    with True ns(1) show ?thesis
      by (simp add: parse_directive_def flag_of_def is_digit_def x_def[symmetric] flags_def fill_numbuf_def)
  next
    case False
    then have "num = word_of_int x" by (simp add: num_def)
    with False ns(1) show ?thesis
      by (simp add: parse_directive_def flag_of_def is_digit_def x_def[symmetric] flags_def fill_numbuf_def)
  qed
  moreover have "put_string record_putc cs color out = out @ map (\<lambda>c. (c, color)) cs" for cs out
    by (induction cs arbitrary: out) (simp_all add: record_putc_def)
  ultimately have "printf_output color ''%d'' [VNum w] =
      Some (map (\<lambda>c. (c, color)) ((if x < 0 then ''-'' else '''') @ map ((!) upper_digits) ns))"
    by (simp add: printf_output_def put_field_def prefix_of_def flags_def)
  with ns(2,3) num show ?thesis by (auto simp: x_def list_all_iff intro!: exI[of _ ns])
qed

theorem vsnprintf_spec_witness:
  "\<exists>m'. vsnprintf 0x7000 4 ''ab%cd'' [VNum 0x78] (\<lambda>_. 0xFF) = Some (3, m')
    \<and> m' 0x7000 = 0x61 \<and> m' 0x7003 = 0 \<and> m' 0x7004 = 0xFF"
proof -
  have "printf_output 0 ''ab%cd'' [VNum 0x78] = Some [(CHR ''a'', 0), (CHR ''b'', 0), (CHR ''x'', 0), (CHR ''d'', 0)]"
    by (simp add: printf_output_def parse_directive_def flag_of_def is_digit_def record_putc_def put_field_def
        prefix_of_def char_of_def bit_Suc_0_iff)
  from vsnprintf_spec[OF this, of 4 "0x7000" "\<lambda>_. 0xFF"] show ?thesis by simp
qed

text \<open>C23: printing on the console stays on the console. Whatever the position, the color, the format
  and its arguments, \<open>console_vprintf\<close> leaves the cursor between 0 and 2000 and changes no byte
  outside the 4000 bytes of the screen; it is undefined only for a format that does not fit its arguments.\<close>

theorem console_vprintf_bounds:
  "case console_vprintf cpos color fmt val m of
     None \<Rightarrow> printf_output color fmt val = None
   | Some (cpos', m') \<Rightarrow> 0 \<le> cpos' \<and> cpos' \<le> 2000 \<and> (\<forall>x. m' x = m x \<or> x - CONSOLE_ADDR < 4000)"
proof -
  let ?p = "\<lparr>cp_mem = m, cp_cursor = if cpos < 0 \<or> cpos \<ge> 25 * 80 then 0 else cpos\<rparr>"
  show ?thesis
  proof (cases "printer_vprintf console_putc color fmt val ?p")
    case None
    then show ?thesis
      using printf_replay_from[of console_putc color fmt val "[]" ?p]
      by (simp add: console_vprintf_def printf_output_def)
  next
    case (Some p')
    from console_print.rel_printf[OF this] Some show ?thesis
      by (auto simp: console_vprintf_def console_rel_def not_less split: if_splits)
  qed
qed

lemma console_vprintf_defined:
  "printf_output color fmt val = Some out \<Longrightarrow> \<exists>r. console_vprintf cpos color fmt val m = Some r"
  using printf_replay_from[of console_putc color fmt val "[]"]
  by (simp add: console_vprintf_def printf_output_def Let_def)

lemma console_page: "x - CONSOLE_ADDR < 4000 \<Longrightarrow> PTE_ADDR x = CONSOLE_ADDR"
  by (subst diff_less_page[symmetric]) (auto simp: page_aligned_nat word_less_nat_alt)

lemma console_set_page:
  assumes "0 \<le> i" "i < 2000" "Q \<noteq> CONSOLE_ADDR"
  shows "same_page m (console_set m i c) Q"
  unfolding same_page_def using assms console_page console_set_frame[OF assms(1,2)] by (metis not_less)

lemma console_vprintf_page:
  assumes "console_vprintf cpos color fmt val m = Some (cpos', m')" "Q \<noteq> CONSOLE_ADDR"
  shows "same_page m m' Q"
proof -
  let ?p = "\<lparr>cp_mem = m, cp_cursor = if cpos < 0 \<or> cpos \<ge> 25 * 80 then 0 else cpos\<rparr>"
  obtain p' where p': "printer_vprintf console_putc color fmt val ?p = Some p'" "m' = cp_mem p'"
    using assms(1) by (auto simp: console_vprintf_def split: Option.bind_splits)
  from console_print.rel_printf[OF p'(1)] have "m' x = m x" if "4000 \<le> x - CONSOLE_ADDR" for x
    using that by (auto simp: console_rel_def p'(2) split: if_splits)
  then show ?thesis unfolding same_page_def using assms(2) console_page by (metis not_less)
qed

lemma console_clear_loop_page:
  "0 \<le> i \<Longrightarrow> i + int n \<le> 2000 \<Longrightarrow> Q \<noteq> CONSOLE_ADDR \<Longrightarrow> same_page m (console_clear_loop n i m) Q"
proof (induction n arbitrary: i m)
  case (Suc n)
  then show ?case
    using console_set_page[of i Q m "0x20 OR 0x0700"] Suc.IH[of "i + 1" "console_set m i (0x20 OR 0x0700)"]
    by (auto intro: same_page_trans)
qed simp

lemma PTE_ADDR_near:
  assumes "unat (PAGEOFFSET a) + n \<le> 4096" "unat (x - a) < n"
  shows "PTE_ADDR x = PTE_ADDR a"
proof -
  define k where "k = x - a"
  have a: "a = PTE_ADDR a + PAGEOFFSET a" unfolding PTE_ADDR_def PAGEOFFSET_def by (rule addr_plus_off[symmetric])
  have "unat (PAGEOFFSET a + k) = unat (PAGEOFFSET a) + unat k"
    using assms by (intro unat_plus_simple[THEN iffD1] ) (simp add: no_olen_add_nat k_def)
  then have "PAGEOFFSET a + k < 4096" using assms by (simp add: word_less_nat_alt k_def)
  moreover have "x = PTE_ADDR a + (PAGEOFFSET a + k)" using a by (simp add: k_def add.assoc[symmetric])
  ultimately show ?thesis using PTE_ADDR_plus[of "PTE_ADDR a"] PTE_ADDR_aligned by simp
qed

lemma store_le_same_page:
  assumes "unat (PAGEOFFSET a) + n \<le> 4096" "Q \<noteq> PTE_ADDR a"
  shows "same_page m (store_le m a n v) Q"
  unfolding same_page_def
proof (intro allI impI)
  fix x assume "PTE_ADDR x = Q"
  with assms PTE_ADDR_near[OF assms(1)] have "\<not> unat (x - a) < n" by blast
  then show "m x = store_le m a n v x" by (simp add: store_le_def)
qed

lemma console_clear_page: "Q \<noteq> CONSOLE_ADDR \<Longrightarrow> same_page (k_mem s) (k_mem (console_clear s)) Q"
  unfolding console_clear_def
  using console_clear_loop_page[of 0 2000 Q "k_mem s"] store_le_same_page[of "0xB8FFC" 4 Q "console_clear_loop 2000 0 (k_mem s)" "0 :: 32 word"]
  by (auto simp: PAGEOFFSET_def PTE_ADDR_def intro: same_page_trans)

end
