(* ===== verification/Loader.thy ===== *)
theory Loader
  imports Pageinfo Printer
begin

text \<open>
  The program loader, from \<open>k-loader.c\<close> and \<open>elf.h\<close>: \<open>program_load_segment\<close> and
  \<open>program_load\<close>. The ELF images are bytes of the kernel's memory; the addresses where the
  linker put them are the parameter \<open>images\<close> (the \<open>begin\<close> fields of \<open>ramimages\<close>).

  While a segment is copied, CR3 holds the process's page table, so the copy goes through the
  processor's translation (\<open>hw_translate\<close>): a store to an address that is not mapped, or mapped
  read-only (\<open>CR0_WP\<close> is set), is a page fault of the kernel.
\<close>

unbundle bit_operations_syntax

section \<open>ELF structures\<close>

record elf_header =
  e_magic :: "32 word"
  e_elf :: "8 word list"
  e_type :: "16 word"
  e_machine :: "16 word"
  e_version :: "32 word"
  e_entry :: "64 word"
  e_phoff :: "64 word"
  e_shoff :: "64 word"
  e_flags :: "32 word"
  e_ehsize :: "16 word"
  e_phentsize :: "16 word"
  e_phnum :: "16 word"
  e_shentsize :: "16 word"
  e_shnum :: "16 word"
  e_shstrndx :: "16 word"

record elf_program =
  p_type :: "32 word"
  p_flags :: "32 word"
  p_offset :: "64 word"
  p_va :: "64 word"
  p_pa :: "64 word"
  p_filesz :: "64 word"
  p_memsz :: "64 word"
  p_align :: "64 word"

text \<open>
  The structures as they lie in memory. The loader reads them once, where the code reads fields
  again later: they lie in the kernel's image, and the loader writes to newly allocated pages only.
\<close>

definition read_elf_header :: "memory \<Rightarrow> 64 word \<Rightarrow> elf_header" where
  "read_elf_header m a =
     \<lparr>e_magic = load_le m a 4, e_elf = map (\<lambda>i. m (a + 4 + of_nat i)) [0..<12],
      e_type = load_le m (a + 0x10) 2, e_machine = load_le m (a + 0x12) 2,
      e_version = load_le m (a + 0x14) 4, e_entry = load_le m (a + 0x18) 8,
      e_phoff = load_le m (a + 0x20) 8, e_shoff = load_le m (a + 0x28) 8,
      e_flags = load_le m (a + 0x30) 4, e_ehsize = load_le m (a + 0x34) 2,
      e_phentsize = load_le m (a + 0x36) 2, e_phnum = load_le m (a + 0x38) 2,
      e_shentsize = load_le m (a + 0x3A) 2, e_shnum = load_le m (a + 0x3C) 2,
      e_shstrndx = load_le m (a + 0x3E) 2\<rparr>"

definition read_elf_program :: "memory \<Rightarrow> 64 word \<Rightarrow> elf_program" where
  "read_elf_program m a =
     \<lparr>p_type = load_le m a 4, p_flags = load_le m (a + 4) 4, p_offset = load_le m (a + 8) 8,
      p_va = load_le m (a + 0x10) 8, p_pa = load_le m (a + 0x18) 8, p_filesz = load_le m (a + 0x20) 8,
      p_memsz = load_le m (a + 0x28) 8, p_align = load_le m (a + 0x30) 8\<rparr>"

text \<open>The structures depend on their own bytes only.\<close>

lemma read_elf_program_cong:
  assumes "\<And>i. i < 56 \<Longrightarrow> m' (a + of_nat i) = m (a + of_nat i)"
  shows "read_elf_program m' a = read_elf_program m a"
proof -
  have "load_le m' (a + of_nat k) n = load_le m (a + of_nat k) n" if "k + n \<le> 56" for k n
    using assms[of "k + i" for i] that by (intro load_le_cong) (simp add: add.assoc)
  from this[of 0 4] this[of 4 4] this[of 8 8] this[of 16 8] this[of 24 8] this[of 32 8] this[of 40 8] this[of 48 8]
  show ?thesis unfolding read_elf_program_def by simp
qed

lemma read_elf_header_cong:
  assumes "\<And>i. i < 64 \<Longrightarrow> m' (a + of_nat i) = m (a + of_nat i)"
  shows "read_elf_header m' a = read_elf_header m a"
proof -
  have sub: "load_le m' (a + of_nat k) n = load_le m (a + of_nat k) n" if "k + n \<le> 64" for k n
    using assms[of "k + i" for i] that by (intro load_le_cong) (simp add: add.assoc)
  have "m' (a + 4 + of_nat i) = m (a + 4 + of_nat i)" if "i < 12" for i using assms[of "4 + i"] that by (simp add: add.assoc)
  then have "map (\<lambda>i. m' (a + 4 + of_nat i)) [0..<12] = map (\<lambda>i. m (a + 4 + of_nat i)) [0..<12]" by simp
  with sub[of 0 4] sub[of "0x10" 2] sub[of "0x12" 2] sub[of "0x14" 4] sub[of "0x18" 8] sub[of "0x20" 8] sub[of "0x28" 8]
    sub[of "0x30" 4] sub[of "0x34" 2] sub[of "0x36" 2] sub[of "0x38" 2] sub[of "0x3A" 2] sub[of "0x3C" 2] sub[of "0x3E" 2]
  show ?thesis unfolding read_elf_header_def by simp
qed

section \<open>Copying through a page table\<close>

definition vload :: "memory \<Rightarrow> 64 word \<Rightarrow> 64 word \<Rightarrow> kfault + 8 word" where
  "vload m cr3 va = (case hw_translate m cr3 va of None \<Rightarrow> Inl (Page_fault va) | Some (pa, _) \<Rightarrow> Inr (m pa))"

definition vstore :: "memory \<Rightarrow> 64 word \<Rightarrow> 64 word \<Rightarrow> 8 word \<Rightarrow> kfault + memory" where
  "vstore m cr3 va b =
     (case hw_translate m cr3 va of
        None \<Rightarrow> Inl (Page_fault va)
      | Some (pa, acc) \<Rightarrow> if acc AND PTE_W \<noteq> 0 then Inr (m(pa := b)) else Inl (Page_fault va))"

primrec vmemcpy :: "nat \<Rightarrow> 64 word \<Rightarrow> 64 word \<Rightarrow> 64 word \<Rightarrow> memory \<Rightarrow> kfault + memory" where
  "vmemcpy 0 cr3 dst src m = Inr m"
| "vmemcpy (Suc n) cr3 dst src m =
     bindR (vload m cr3 src) (\<lambda>b.
     bindR (vstore m cr3 dst b) (\<lambda>m'.
     vmemcpy n cr3 (dst + 1) (src + 1) m'))"

primrec vmemset :: "nat \<Rightarrow> 64 word \<Rightarrow> 64 word \<Rightarrow> 8 word \<Rightarrow> memory \<Rightarrow> kfault + memory" where
  "vmemset 0 cr3 dst b m = Inr m"
| "vmemset (Suc n) cr3 dst b m = bindR (vstore m cr3 dst b) (vmemset n cr3 (dst + 1) b)"

section \<open>Operations\<close>

text \<open>
  The allocation loop of \<open>program_load_segment\<close>; the result says whether every page was assigned
  and mapped. Every turn takes a free page, so the loop ends even if \<open>addr\<close> wraps around.
\<close>

lemma free_pages_mem [simp]: "free_pages (s\<lparr>k_mem := m\<rparr>) = free_pages s"
  by (simp add: free_pages_def)

lemma alloc_less:
  assumes "alloc_page_process pid s = (a, s')" "a \<noteq> 0"
  shows "card (free_pages s') < card (free_pages s)"
  using pages.free_set_alloc(1,2)[OF assms] free_pages_finite[of s]
  unfolding pages_free_set by (metis card_Diff1_less)

function load_alloc :: "int \<Rightarrow> 64 word \<Rightarrow> 64 word \<Rightarrow> kernel_state \<Rightarrow> kfault + (bool \<times> kernel_state)" where
  "load_alloc pid end_mem addr s =
     (if addr < end_mem then
        let pt = p_pagetable (k_processes s pid); (p_addr, s1) = alloc_page_process (p_pid (k_processes s pid)) s in
        if p_addr = 0 then
          bindR (console_printf (CPOS 22 0) 0xC000
                   ''program_load_segment(pid %d): can't assign address %p\<newline>''
                   [VNum (word_of_int (p_pid (k_processes s pid))), VNum addr] (k_mem s1))
            (\<lambda>(_, m). Inr (False, s1\<lparr>k_mem := m\<rparr>))
        else
          case virtual_memory_map (k_mem s1) pt addr p_addr PAGESIZE (uint (PTE_P OR PTE_W OR PTE_U)) of
            Inl e \<Rightarrow> Inl e
          | Inr (r, m) \<Rightarrow>
              if r < 0 then
                bindR (console_printf (CPOS 22 0) 0xC000
                         ''program_load_segment(pid %d): can't assign address %p\<newline>''
                         [VNum (word_of_int (p_pid (k_processes s pid))), VNum addr] m)
                  (\<lambda>(_, m'). Inr (False, s1\<lparr>k_mem := m'\<rparr>))
              else load_alloc pid end_mem (addr + PAGESIZE) (s1\<lparr>k_mem := m\<rparr>)
      else Inr (True, s))"
  by pat_completeness auto
termination
  by (relation "measure (\<lambda>(pid, end_mem, addr, s). card (free_pages s))") (auto dest: alloc_less[OF sym])

declare load_alloc.simps [simp del]

text \<open>The loop that makes the pages of a segment without \<open>ELF_PFLAG_WRITE\<close> read-only, over the pages left.\<close>

primrec load_protect :: "nat \<Rightarrow> 32 word \<Rightarrow> 64 word \<Rightarrow> 64 word \<Rightarrow> memory \<Rightarrow> kfault + memory" where
  "load_protect 0 flags pt addr m = Inr m"
| "load_protect (Suc n) flags pt addr m =
     bindR (if flags AND 2 = 0 then
              virtual_memory_map m pt addr (vam_pa (virtual_memory_lookup m pt addr)) PAGESIZE
                (uint (PTE_P OR PTE_U))
            else Inr (0, m)) (\<lambda>(_, m').
     load_protect n flags pt (addr + PAGESIZE) m')"

definition program_load_segment ::
  "link_symbols \<Rightarrow> int \<Rightarrow> elf_program \<Rightarrow> 64 word \<Rightarrow> kernel_state \<Rightarrow> kfault + (int \<times> kernel_state)" where
  "program_load_segment syms pid ph src s =
     (let va0 = p_va ph;
          end_file = va0 + p_filesz ph;
          end_mem = va0 + p_memsz ph;
          va = va0 AND NOT (PAGESIZE - 1);
          pt = p_pagetable (k_processes s pid)
      in bindR (load_alloc pid end_mem va s) (\<lambda>(ok, s1).
         if \<not> ok then Inr (-1, s1)
         else
           bindR (set_pagetable syms (k_mem s1) pt) (\<lambda>cr3.
           bindR (vmemcpy (unat (end_file - va)) cr3 va src (k_mem s1)) (\<lambda>m2.
           bindR (vmemset (unat (end_mem - end_file)) cr3 end_file 0 m2) (\<lambda>m3.
           bindR (load_protect (pages_between va end_mem) (p_flags ph) pt va m3) (\<lambda>m4.
           bindR (set_pagetable syms m4 (sym_kernel_pagetables syms)) (\<lambda>cr3'.
           Inr (0, s1\<lparr>k_mem := m4, k_cr3 := cr3'\<rparr>))))))))"

text \<open>The loop over the program headers, over the headers left.\<close>

primrec load_segments ::
  "nat \<Rightarrow> link_symbols \<Rightarrow> int \<Rightarrow> 64 word \<Rightarrow> 64 word \<Rightarrow> kernel_state \<Rightarrow> kfault + (int \<times> kernel_state)" where
  "load_segments 0 syms pid eh ph s = Inr (0, s)"
| "load_segments (Suc n) syms pid eh ph s =
     (let hdr = read_elf_program (k_mem s) ph in
      if p_type hdr = 1 then
        bindR (program_load_segment syms pid hdr (eh + p_offset hdr) s) (\<lambda>(r, s1).
        if r < 0 then Inr (-1, s1) else load_segments n syms pid eh (ph + 56) s1)
      else load_segments n syms pid eh (ph + 56) s)"

definition program_load ::
  "link_symbols \<Rightarrow> (int \<Rightarrow> 64 word) \<Rightarrow> int \<Rightarrow> int \<Rightarrow> kernel_state \<Rightarrow> kfault + (int \<times> kernel_state)" where
  "program_load syms images pid programnumber s =
     bindR (assertR ''k-loader.c'' 55 (0 \<le> programnumber \<and> programnumber < 7)) (\<lambda>_.
     (let eh = images programnumber; hdr = read_elf_header (k_mem s) eh in
      bindR (assertR ''k-loader.c'' 57 (e_magic hdr = 0x464C457F)) (\<lambda>_.
      bindR (load_segments (unat (e_phnum hdr)) syms pid eh (eh + e_phoff hdr) s) (\<lambda>(r, s1).
      if r < 0 then Inr (-1, s1)
      else Inr (0, upd_regs pid (\<lambda>g. g\<lparr>reg_rip := e_entry (read_elf_header (k_mem s1) eh)\<rparr>) s1)))))"

end
