(* ===== verification/Checks.thy ===== *)
theory Checks
  imports Pageinfo Printer
begin

text \<open>
  The kernel's own consistency checks, from \<open>kernel.c\<close>: \<open>check_page_table_mappings\<close>,
  \<open>check_page_table_ownership\<close> and \<open>check_virtual_memory\<close>. A check returns nothing or fails an
  assertion. \<open>kernel_pagetable\<close> is the first page of \<open>kernel_pagetables\<close>, where
  \<open>virtual_memory_init\<close> leaves it.
\<close>

unbundle bit_operations_syntax

section \<open>Operations\<close>

definition check_kernel_page :: "link_symbols \<Rightarrow> memory \<Rightarrow> 64 word \<Rightarrow> 64 word \<Rightarrow> kfault + unit" where
  "check_kernel_page syms m pt va =
     (let vam = virtual_memory_lookup m pt va in
      bindR (if vam_pa vam \<noteq> va
             then console_printf (CPOS 22 0) 0xC000 ''%p vs %p\<newline>'' [VNum va, VNum (vam_pa vam)] m
             else Inr (0, m)) (\<lambda>_.
      bindR (assertR ''kernel.c'' 525 (vam_pa vam = va)) (\<lambda>_.
      if va \<ge> sym_start_data syms
      then assertR ''kernel.c'' 527 (word_of_int (vam_perm vam) AND PTE_W \<noteq> 0)
      else Inr ())))"

definition check_page_table_mappings :: "link_symbols \<Rightarrow> memory \<Rightarrow> 64 word \<Rightarrow> kfault + unit" where
  "check_page_table_mappings syms m pt =
     bindR (assertR ''kernel.c'' 516 (PTE_ADDR pt = pt)) (\<lambda>_.
     bindR (allR (check_kernel_page syms m pt) (page_addrs KERNEL_START_ADDR (sym_end syms))) (\<lambda>_.
     (let kstack = KERNEL_STACK_TOP - PAGESIZE; vam = virtual_memory_lookup m pt kstack in
      bindR (assertR ''kernel.c'' 534 (vam_pa vam = kstack)) (\<lambda>_.
      assertR ''kernel.c'' 535 (word_of_int (vam_perm vam) AND PTE_W \<noteq> 0)))))"

text \<open>\<open>check_page_table_ownership_level\<close>; its first argument is \<open>3 - level\<close>.\<close>

primrec check_page_table_ownership_level :: "nat \<Rightarrow> kernel_state \<Rightarrow> 64 word \<Rightarrow> int \<Rightarrow> int \<Rightarrow> kfault + unit" where
  "check_page_table_ownership_level 0 s pt own refc =
     bindR (assertR ''kernel.c'' 564 (PAGENUMBER pt < NPAGES)) (\<lambda>_.
     bindR (assertR ''kernel.c'' 565 (sint (pi_owner (k_pageinfo s (PAGENUMBER pt))) = own)) (\<lambda>_.
     assertR ''kernel.c'' 566 (sint (pi_refcount (k_pageinfo s (PAGENUMBER pt))) = refc)))"
| "check_page_table_ownership_level (Suc l) s pt own refc =
     bindR (assertR ''kernel.c'' 564 (PAGENUMBER pt < NPAGES)) (\<lambda>_.
     bindR (assertR ''kernel.c'' 565 (sint (pi_owner (k_pageinfo s (PAGENUMBER pt))) = own)) (\<lambda>_.
     bindR (assertR ''kernel.c'' 566 (sint (pi_refcount (k_pageinfo s (PAGENUMBER pt))) = refc)) (\<lambda>_.
     allR (\<lambda>index.
       if pt_entry (k_mem s) pt index \<noteq> 0
       then check_page_table_ownership_level l s (PTE_ADDR (pt_entry (k_mem s) pt index)) own 1
       else Inr ()) [0..<NPAGETABLEENTRIES])))"

definition expected_refcount :: "link_symbols \<Rightarrow> kernel_state \<Rightarrow> int" where
  "expected_refcount syms s =
     1 + int (length (filter (\<lambda>xpid. p_state (k_processes s xpid) \<noteq> P_FREE
                \<and> p_pagetable (k_processes s xpid) = sym_kernel_pagetables syms) [0..15]))"

definition check_page_table_ownership :: "link_symbols \<Rightarrow> kernel_state \<Rightarrow> 64 word \<Rightarrow> int \<Rightarrow> kfault + unit" where
  "check_page_table_ownership syms s pt pid =
     (if pt = sym_kernel_pagetables syms
      then check_page_table_ownership_level 3 s pt PO_KERNEL (expected_refcount syms s)
      else check_page_table_ownership_level 3 s pt pid 1)"

definition check_virtual_memory :: "link_symbols \<Rightarrow> kernel_state \<Rightarrow> kfault + unit" where
  "check_virtual_memory syms s =
     (let kp = sym_kernel_pagetables syms in
      bindR (assertR ''kernel.c'' 585 (p_state (k_processes s 0) = P_FREE)) (\<lambda>_.
      bindR (check_page_table_mappings syms (k_mem s) kp) (\<lambda>_.
      bindR (check_page_table_ownership syms s kp (-1)) (\<lambda>_.
      bindR (allR (\<lambda>pid.
               if p_state (k_processes s pid) \<noteq> P_FREE \<and> p_pagetable (k_processes s pid) \<noteq> kp
               then bindR (check_page_table_mappings syms (k_mem s) (p_pagetable (k_processes s pid))) (\<lambda>_.
                    check_page_table_ownership syms s (p_pagetable (k_processes s pid)) pid)
               else Inr ()) [0..15]) (\<lambda>_.
      allR (\<lambda>pn.
        if sint (pi_refcount (k_pageinfo s pn)) > 0 \<and> sint (pi_owner (k_pageinfo s pn)) \<ge> 0
        then assertR ''kernel.c'' 608
               (p_state (k_processes s (sint (pi_owner (k_pageinfo s pn)))) \<noteq> P_FREE)
        else Inr ()) [0..511])))))"

end
