(* ===== verification/Memshow.thy ===== *)
theory Memshow
  imports Pageinfo Printer
begin

text \<open>
  The memory viewer, from \<open>kernel.c\<close>: \<open>memshow_physical\<close>, \<open>memshow_virtual\<close> and
  \<open>memshow_virtual_animate\<close> draw the state of memory on the console. Drawing changes the
  console page of \<open>k_mem\<close> and the two static variables of the animation. Reading
  \<open>memstate_colors\<close> outside the array is undefined behaviour.
\<close>

unbundle bit_operations_syntax

section \<open>Operations\<close>

definition memstate_colors :: "16 word list" where
  "memstate_colors =
     [0x4B OR 0x0D00, 0x52 OR 0x0700, 0x2E OR 0x0700, 0x31 OR 0x0C00,
      0x32 OR 0x0A00, 0x33 OR 0x0900, 0x34 OR 0x0E00, 0x35 OR 0x0F00,
      0x36 OR 0x0C00, 0x37 OR 0x0A00, 0x38 OR 0x0900, 0x39 OR 0x0E00,
      0x41 OR 0x0F00, 0x42 OR 0x0C00, 0x43 OR 0x0A00, 0x44 OR 0x0900,
      0x45 OR 0x0E00, 0x46 OR 0x0F00, 0x53]"

abbreviation (input) SHARED_COLOR :: "16 word" where "SHARED_COLOR \<equiv> 0x53"

definition memstate_color :: "int \<Rightarrow> kfault + 16 word" where
  "memstate_color i =
     (if 0 \<le> i \<and> i < 19 then Inr (memstate_colors ! nat i) else Inl Undefined_behaviour)"

definition shown_owner :: "physical_pageinfo \<Rightarrow> int" where
  "shown_owner i = (if pi_refcount i = 0 then PO_FREE else sint (pi_owner i))"

text \<open>One turn of the loop of \<open>memshow_physical\<close>.\<close>

definition memshow_physical_page :: "(int \<Rightarrow> physical_pageinfo) \<Rightarrow> int \<Rightarrow> memory \<Rightarrow> kfault + memory" where
  "memshow_physical_page pinfo pn m =
     bindR (if pn mod 64 = 0
            then console_printf (CPOS (1 + pn div 64) 3) 0x0F00 ''0x%06X '' [VNum (word_of_int (pn * 4096))] m
            else Inr (0, m)) (\<lambda>(_, m1).
     bindR (memstate_color (shown_owner (pinfo pn) - PO_KERNEL)) (\<lambda>color0.
     (let color = (if sint (pi_refcount (pinfo pn)) > 1 \<and> pn \<noteq> PAGENUMBER CONSOLE_ADDR
                   then SHARED_COLOR OR 0x0F00 else color0)
      in Inr (console_set m1 (CPOS (1 + pn div 64) (12 + pn mod 64)) color))))"

definition memshow_physical :: "kernel_state \<Rightarrow> kfault + kernel_state" where
  "memshow_physical s =
     bindR (console_printf (CPOS 0 32) 0x0F00 ''PHYSICAL MEMORY'' [] (k_mem s)) (\<lambda>(_, m1).
     bindR (foldR (memshow_physical_page (k_pageinfo s)) [0..511] m1) (\<lambda>m2.
     Inr (s\<lparr>k_mem := m2\<rparr>)))"

definition reverse_video :: "16 word \<Rightarrow> 16 word" where
  "reverse_video color =
     push_bit 4 (color AND 0x0F00) OR drop_bit 4 (color AND 0xF000) OR (color AND 0x00FF)"

definition virtual_color :: "(int \<Rightarrow> physical_pageinfo) \<Rightarrow> vamapping \<Rightarrow> 64 word \<Rightarrow> kfault + 16 word" where
  "virtual_color pinfo vam va =
     (if vam_pn vam < 0 then Inr 0x20
      else
        bindR (assertR ''kernel.c'' 666 (vam_pa vam < MEMSIZE_PHYSICAL)) (\<lambda>_.
        bindR (memstate_color (shown_owner (pinfo (vam_pn vam)) - PO_KERNEL)) (\<lambda>color0.
        (let user = word_of_int (vam_perm vam) AND PTE_U \<noteq> 0;
             color1 = (if user then reverse_video color0 else color0);
             color2 = (if sint (pi_refcount (pinfo (vam_pn vam))) > 1 \<and> va \<noteq> CONSOLE_ADDR
                       then (let c = SHARED_COLOR OR (color1 AND 0xF000) in if user then c else c OR 0x0F00)
                       else color1)
         in Inr color2))))"

text \<open>One turn of the loop of \<open>memshow_virtual\<close>.\<close>

definition memshow_virtual_page ::
  "(int \<Rightarrow> physical_pageinfo) \<Rightarrow> 64 word \<Rightarrow> 64 word \<Rightarrow> memory \<Rightarrow> kfault + memory" where
  "memshow_virtual_page pinfo pagetable va m =
     bindR (virtual_color pinfo (virtual_memory_lookup m pagetable va) va) (\<lambda>color.
     (let pn = PAGENUMBER va in
      bindR (if pn mod 64 = 0
             then console_printf (CPOS (11 + pn div 64) 3) 0x0F00 ''0x%06X '' [VNum va] m
             else Inr (0, m)) (\<lambda>(_, m1).
      Inr (console_set m1 (CPOS (11 + pn div 64) (12 + pn mod 64)) color))))"

definition memshow_virtual :: "64 word \<Rightarrow> string \<Rightarrow> kernel_state \<Rightarrow> kfault + kernel_state" where
  "memshow_virtual pagetable name s =
     bindR (assertR ''kernel.c'' 657 (pagetable = PTE_ADDR pagetable)) (\<lambda>_.
     bindR (console_printf (CPOS 10 26) 0x0F00 ''VIRTUAL ADDRESS SPACE FOR %s'' [VStr name] (k_mem s)) (\<lambda>(_, m1).
     bindR (foldR (memshow_virtual_page (k_pageinfo s) pagetable) (page_addrs 0 MEMSIZE_VIRTUAL) m1) (\<lambda>m2.
     Inr (s\<lparr>k_mem := m2\<rparr>))))"

text \<open>The loop that skips free processes.\<close>

function next_showing :: "(int \<Rightarrow> proc) \<Rightarrow> int \<Rightarrow> int" where
  "next_showing procs showing =
     (if showing \<le> 2 * NPROC \<and> p_state (procs (showing mod NPROC)) = P_FREE
      then next_showing procs (showing + 1) else showing)"
  by pat_completeness auto
termination
  by (relation "measure (\<lambda>(procs, showing). nat (2 * NPROC + 1 - showing))") auto

declare next_showing.simps [simp del]

text \<open>The string \<open>snprintf(s, 4, "%d ", showing)\<close> leaves in the local buffer \<open>s\<close>.\<close>

definition showing_name :: "int \<Rightarrow> string option" where
  "showing_name showing =
     map_option (\<lambda>out. map fst (take 3 out)) (printf_output 0 ''%d '' [VNum (word_of_int showing)])"

definition memshow_virtual_animate :: "kernel_state \<Rightarrow> kfault + kernel_state" where
  "memshow_virtual_animate s =
     (let s1 = (if k_last_ticks s = 0 \<or> k_ticks s - k_last_ticks s \<ge> 100 div 2
                then s\<lparr>k_last_ticks := k_ticks s, k_showing := k_showing s + 1\<rparr> else s);
          showing = next_showing (k_processes s1) (k_showing s1) mod NPROC;
          s2 = s1\<lparr>k_showing := showing\<rparr>
      in if p_state (k_processes s2 showing) \<noteq> P_FREE then
           (case showing_name showing of
              None \<Rightarrow> Inl Undefined_behaviour
            | Some name \<Rightarrow> memshow_virtual (p_pagetable (k_processes s2 showing)) name s2)
         else Inr s2)"

end
