(* ===== verification/Hardware.thy ===== *)
theory Hardware
  imports Kernel_State
begin

text \<open>
  Hardware support, from \<open>k-hardware.c\<close>: segment and gate descriptors, the initial registers of a
  process, the keyboard decoder, \<open>check_keyboard\<close>, and the search for the power controller on the
  PCI bus. Port input and output is modelled by its data: the byte the keyboard controller
  delivers and the function that reads a PCI configuration word are parameters.
\<close>

unbundle bit_operations_syntax

section \<open>Descriptors\<close>

abbreviation (input) X86SEG_S :: "64 word" where "X86SEG_S \<equiv> push_bit 44 1"
abbreviation (input) X86SEG_P :: "64 word" where "X86SEG_P \<equiv> push_bit 47 1"

definition set_app_segment :: "64 word \<Rightarrow> int \<Rightarrow> 64 word" where
  "set_app_segment type dpl = type OR X86SEG_S OR push_bit 45 (word_of_int dpl) OR X86SEG_P"

definition set_sys_segment :: "64 word \<Rightarrow> int \<Rightarrow> 64 word \<Rightarrow> 64 word \<Rightarrow> 64 word \<times> 64 word" where
  "set_sys_segment type dpl addr sz =
     (push_bit 16 (addr AND 0x0000000000FFFFFF)
        OR push_bit 32 (addr AND 0x00000000FF000000)
        OR ((sz - 1) AND 0x0FFFF)
        OR push_bit 48 ((sz - 1) AND 0xF0000)
        OR type
        OR push_bit 45 (word_of_int dpl)
        OR X86SEG_P,
      drop_bit 32 addr)"

definition set_gate :: "64 word \<Rightarrow> int \<Rightarrow> 64 word \<Rightarrow> 64 word \<times> 64 word" where
  "set_gate type dpl fn =
     ((fn AND 0x000000000000FFFF)
        OR push_bit 16 0x8
        OR type
        OR push_bit 45 (word_of_int dpl)
        OR X86SEG_P
        OR push_bit 32 (fn AND 0x00000000FFFF0000),
      drop_bit 32 fn)"

section \<open>Process registers\<close>

definition zero_registers :: x86_64_registers where
  "zero_registers = \<lparr>reg_rax = 0, reg_rcx = 0, reg_rdx = 0, reg_rbx = 0, reg_rbp = 0, reg_rsi = 0,
     reg_rdi = 0, reg_r8 = 0, reg_r9 = 0, reg_r10 = 0, reg_r11 = 0, reg_r12 = 0, reg_r13 = 0,
     reg_r14 = 0, reg_r15 = 0, reg_fs = 0, reg_gs = 0, reg_intno = 0, reg_err = 0, reg_rip = 0,
     reg_cs = 0, reg_rflags = 0, reg_rsp = 0, reg_ss = 0\<rparr>"

definition process_init :: "int \<Rightarrow> proc \<Rightarrow> proc" where
  "process_init flags p =
     (let f0 = 0x200;
          f1 = (if (word_of_int flags :: 32 word) AND 1 \<noteq> 0 then f0 OR 0x3000 else f0);
          f2 = (if (word_of_int flags :: 32 word) AND 2 \<noteq> 0 then f1 AND NOT 0x200 else f1)
      in p\<lparr>p_registers := zero_registers\<lparr>reg_cs := 0x10 OR 3, reg_fs := 0x20 OR 3,
             reg_gs := 0x20 OR 3, reg_ss := 0x20 OR 3, reg_rflags := f2\<rparr>\<rparr>)"

section \<open>The keyboard\<close>

text \<open>
  Key codes: 0x80 + n is \<open>CKEY(n)\<close>; 192 to 201 are the cursor keys \<open>KEY_UP\<close> to \<open>KEY_DELETE\<close>;
  250 to 255 are \<open>KEY_SHIFT\<close>, \<open>KEY_CONTROL\<close>, \<open>KEY_ALT\<close>, \<open>KEY_CAPSLOCK\<close>, \<open>KEY_NUMLOCK\<close>, \<open>KEY_SCROLLLOCK\<close>.
\<close>

definition keymap :: "int list" where
  "keymap =
     [0, 27, 128, 129, 130, 131, 132, 133, 134, 135, 136, 137, 138, 139, 8, 9] @
     map of_char ''qwertyui'' @ map of_char ''op'' @ [140, 141, 142, 251] @ map of_char ''as'' @
     map of_char ''dfghjkl'' @ [143, 144, 145, 250, 146] @ map of_char ''zxcv'' @
     map of_char ''bnm'' @ [147, 148, 149, 250] @ map of_char ''*'' @ [252, 32, 253, 0, 0, 0, 0, 0] @
     [0, 0, 0, 0, 0, 254, 255] @ map of_char ''789-456+1'' @
     map of_char ''230.'' @ replicate 12 0 @
     replicate 16 0 @ replicate 16 0 @ replicate 16 0 @
     replicate 12 0 @ [142, 251, 0, 0] @
     replicate 16 0 @
     [0, 0, 0, 0, 0] @ map of_char ''/'' @ [0, 0, 252, 0, 0, 0, 0, 0, 0, 0] @
     [0, 0, 0, 0, 0, 0, 0, 196, 192, 198, 0, 195, 0, 193, 0, 197] @
     [194, 199, 200, 201] @ replicate 12 0 @
     replicate 16 0 @ replicate 16 0"

definition complex_keymap :: "int list list" where
  "complex_keymap =
     [[49, 33, 0, 0], [50, 64, 0, 0], [51, 35, 0, 0], [52, 36, 0, 0],
      [53, 37, 0, 0], [54, 94, 0, 30], [55, 38, 0, 0], [56, 42, 0, 0],
      [57, 40, 0, 0], [48, 41, 0, 0], [45, 95, 0, 31], [61, 43, 0, 0],
      [91, 123, 27, 0], [93, 125, 29, 0], [10, 10, 13, 13],
      [59, 58, 0, 0], [39, 34, 0, 0], [96, 126, 0, 0],
      [92, 124, 28, 0], [44, 60, 0, 0], [46, 62, 0, 0], [47, 63, 0, 0]]"

record keyboard =
  kb_modifiers :: "8 word"
  kb_last_escape :: "8 word"

text \<open>
  \<open>keyboard_readc\<close>; the input is the byte in the data register, \<open>None\<close> when the status register
  says that there is none.
\<close>

definition keyboard_readc :: "(8 word) option \<Rightarrow> keyboard \<Rightarrow> int \<times> keyboard" where
  "keyboard_readc inp kb =
     (case inp of
        None \<Rightarrow> (-1, kb)
      | Some data \<Rightarrow>
          let escape = kb_last_escape kb; kb = kb\<lparr>kb_last_escape := 0\<rparr>; modifiers = kb_modifiers kb in
          if data = 0xE0 then (0, kb\<lparr>kb_last_escape := 0x80\<rparr>)
          else if data AND 0x80 \<noteq> 0 then
            let ch = keymap ! unat ((data AND 0x7F) OR escape) in
            if ch \<ge> 250 \<and> ch < 253
            then (0, kb\<lparr>kb_modifiers := modifiers AND NOT (push_bit (nat (ch - 250)) 1)\<rparr>)
            else (0, kb)
          else
            let ch = keymap ! unat (data OR escape) in
            if ch \<ge> 97 \<and> ch \<le> 122 then
              if modifiers AND 2 \<noteq> 0 then (ch - 0x60, kb)
              else if (modifiers AND 1 = 0) \<noteq> (modifiers AND 8 = 0) then (ch - 0x20, kb)
              else (ch, kb)
            else if ch \<ge> 253 then (0, kb\<lparr>kb_modifiers := modifiers XOR push_bit (nat (ch - 250)) 1\<rparr>)
            else if ch \<ge> 250 then (0, kb\<lparr>kb_modifiers := modifiers OR push_bit (nat (ch - 250)) 1\<rparr>)
            else if ch \<ge> 128 \<and> ch \<le> 128 + 21 then
              (complex_keymap ! nat (ch - 128) ! unat (modifiers AND 3), kb)
            else if ch < 128 \<and> modifiers AND 2 \<noteq> 0 then (0, kb)
            else (ch, kb))"

text \<open>
  \<open>check_keyboard\<close> on the character that \<open>keyboard_readc\<close> returned. A soft reboot installs a
  temporary page table and jumps back to the kernel's entry with the chosen argument.
\<close>

datatype keyboard_action = No_action | Soft_reboot string | Power_off

definition check_keyboard :: "int \<Rightarrow> kernel_state \<Rightarrow> keyboard_action \<times> kernel_state" where
  "check_keyboard c s =
     (if c \<in> {of_char CHR ''a'', of_char CHR ''f'', of_char CHR ''e'', of_char CHR ''t'', of_char CHR ''2''} then
        (let m = memset (k_mem s) 0x8000 0 (PAGESIZE * 3);
             m = set_pt_entry m 0x8000 0 (0x9000 OR PTE_P OR PTE_W OR PTE_U);
             m = set_pt_entry m 0x9000 0 (0xA000 OR PTE_P OR PTE_W OR PTE_U);
             m = set_pt_entry m 0xA000 0 (PTE_P OR PTE_W OR PTE_U OR PTE_PS);
             argument = (if c = of_char CHR ''a'' then ''allocator''
                         else if c = of_char CHR ''e'' then ''forkexit''
                         else if c = of_char CHR ''t'' then ''test''
                         else if c = of_char CHR ''2'' then ''test2''
                         else ''fork'')
         in (Soft_reboot argument, s\<lparr>k_mem := m, k_cr3 := 0x8000\<rparr>))
      else if c = 0x03 \<or> c = of_char CHR ''q'' then (Power_off, s)
      else (No_action, s))"

section \<open>The PCI bus\<close>

definition pci_make_configaddr :: "int \<Rightarrow> int \<Rightarrow> int \<Rightarrow> int" where
  "pci_make_configaddr bus slot func = push_bit 16 bus OR push_bit 11 slot OR push_bit 8 func"

text \<open>\<open>readl\<close> is the word the host bridge returns for a configuration address.\<close>

definition pci_config_readl :: "(32 word \<Rightarrow> 32 word) \<Rightarrow> int \<Rightarrow> int \<Rightarrow> 32 word" where
  "pci_config_readl readl configaddr offset = readl (word_of_int (0x80000000 OR configaddr OR offset))"

primrec pci_find_func :: "(32 word \<Rightarrow> 32 word) \<Rightarrow> 32 word \<Rightarrow> int \<Rightarrow> int \<Rightarrow> nat \<Rightarrow> int \<Rightarrow> int option" where
  "pci_find_func readl wanted bus slot 0 func = None"
| "pci_find_func readl wanted bus slot (Suc n) func =
     (let configaddr = pci_make_configaddr bus slot func;
          vendor_device = pci_config_readl readl configaddr 0 in
      if vendor_device = wanted then Some configaddr
      else if vendor_device = -1 \<and> func = 0 then None
      else pci_find_func readl wanted bus slot n (func + 1))"

primrec pci_find_slot :: "(32 word \<Rightarrow> 32 word) \<Rightarrow> 32 word \<Rightarrow> int \<Rightarrow> nat \<Rightarrow> int \<Rightarrow> int option" where
  "pci_find_slot readl wanted bus 0 slot = None"
| "pci_find_slot readl wanted bus (Suc n) slot =
     (case pci_find_func readl wanted bus slot 8 0 of
        Some a \<Rightarrow> Some a | None \<Rightarrow> pci_find_slot readl wanted bus n (slot + 1))"

primrec pci_find_bus :: "(32 word \<Rightarrow> 32 word) \<Rightarrow> 32 word \<Rightarrow> nat \<Rightarrow> int \<Rightarrow> int option" where
  "pci_find_bus readl wanted 0 bus = None"
| "pci_find_bus readl wanted (Suc n) bus =
     (case pci_find_slot readl wanted bus 32 0 of
        Some a \<Rightarrow> Some a | None \<Rightarrow> pci_find_bus readl wanted n (bus + 1))"

definition pci_find_device :: "(32 word \<Rightarrow> 32 word) \<Rightarrow> int \<Rightarrow> int \<Rightarrow> int" where
  "pci_find_device readl vendor device =
     (case pci_find_bus readl (word_of_int (vendor OR push_bit 16 device)) 256 0 of
        Some a \<Rightarrow> a | None \<Rightarrow> -1)"

text \<open>\<open>poweroff\<close>: the port and value of its \<open>outw\<close>, if the controller is found.\<close>

definition poweroff :: "(32 word \<Rightarrow> 32 word) \<Rightarrow> (int \<times> int) option" where
  "poweroff readl =
     (let configaddr = pci_find_device readl 0x8086 0x7113 in
      if configaddr \<ge> 0
      then Some (uint (pci_config_readl readl configaddr 0x40 AND 0xFFC0) + 4, 0x2000)
      else None)"

end
