(* ===== verification/Kernel.thy ===== *)
theory Kernel
  imports Loader Checks Memshow Hardware
begin

text \<open>
  The kernel proper, from \<open>kernel.c\<close>: \<open>process_setup\<close> and \<open>kernel\<close>, which start the system, the
  system-call and fault handlers of \<open>exception\<close>, \<open>schedule\<close> and \<open>run\<close>.

  \<open>exception\<close> never returns to its caller in the ordinary way: it ends by resuming a process
  (\<open>exception_return\<close>), by a reboot or power-off from the keyboard, or in a failure. These ends are
  the type \<open>outcome\<close>. The characters that the successive calls of \<open>check_keyboard\<close> read are a
  list; a scheduler that still finds nothing to run at the end of the list is \<open>Waiting\<close>.
  Cursor movement and the log are not modelled.
\<close>

unbundle bit_operations_syntax

section \<open>Running processes\<close>

datatype outcome =
    Resumed kernel_state            \<comment> \<open>\<open>exception_return\<close> to the process \<open>current\<close>\<close>
  | Waiting int kernel_state        \<comment> \<open>\<open>schedule\<close> has looked at this process and waits for a key\<close>
  | Rebooted string kernel_state    \<comment> \<open>soft reboot with this argument\<close>
  | Powered_off kernel_state
  | Returned kernel_state           \<comment> \<open>\<open>exception\<close> itself returned to the assembly code\<close>

definition run :: "link_symbols \<Rightarrow> int \<Rightarrow> kernel_state \<Rightarrow> kfault + outcome" where
  "run syms pid s =
     bindR (assertR ''kernel.c'' 474 (p_state (k_processes s pid) = P_RUNNABLE)) (\<lambda>_.
     bindR (set_pagetable syms (k_mem s) (p_pagetable (k_processes s pid))) (\<lambda>cr3.
     Inr (Resumed (s\<lparr>k_current := pid, k_cr3 := cr3\<rparr>))))"

primrec schedule_loop :: "int list \<Rightarrow> link_symbols \<Rightarrow> int \<Rightarrow> kernel_state \<Rightarrow> kfault + outcome" where
  "schedule_loop [] syms pid s =
     (let pid' = (pid + 1) mod NPROC in
      if p_state (k_processes s pid') = P_RUNNABLE then run syms pid' s
      else Inr (Waiting pid' s))"
| "schedule_loop (c # cs) syms pid s =
     (let pid' = (pid + 1) mod NPROC in
      if p_state (k_processes s pid') = P_RUNNABLE then run syms pid' s
      else
        (case check_keyboard c s of
           (No_action, s') \<Rightarrow> schedule_loop cs syms pid' s'
         | (Soft_reboot arg, s') \<Rightarrow> Inr (Rebooted arg s')
         | (Power_off, s') \<Rightarrow> Inr (Powered_off s')))"

definition schedule :: "link_symbols \<Rightarrow> int list \<Rightarrow> kernel_state \<Rightarrow> kfault + outcome" where
  "schedule syms keys s = schedule_loop keys syms (p_pid (k_processes s (k_current s))) s"

section \<open>System calls\<close>

text \<open>The pointer \<open>current\<close>.\<close>

abbreviation cur :: "kernel_state \<Rightarrow> proc" where
  "cur s \<equiv> k_processes s (k_current s)"

text \<open>
  \<open>memcpy\<close> of a \<open>vamapping\<close>: 24 bytes, of which 4 to 7 and 20 to 23 are padding of the struct.
  The kernel's page table ends at \<open>MEMSIZE_PHYSICAL\<close>; a copy that reaches it is a page fault.
\<close>

definition store_vamapping :: "memory \<Rightarrow> 64 word \<Rightarrow> 32 word \<Rightarrow> 32 word \<Rightarrow> vamapping \<Rightarrow> memory" where
  "store_vamapping m a pad1 pad2 vam =
     (let m = store_le m a 4 (word_of_int (vam_pn vam) :: 32 word);
          m = store_le m (a + 4) 4 pad1;
          m = store_le m (a + 8) 8 (vam_pa vam);
          m = store_le m (a + 16) 4 (word_of_int (vam_perm vam) :: 32 word)
      in store_le m (a + 20) 4 pad2)"

definition syscall_mapping :: "32 word \<Rightarrow> 32 word \<Rightarrow> int \<Rightarrow> kernel_state \<Rightarrow> kfault + kernel_state" where
  "syscall_mapping pad1 pad2 pid s =
     (let p = k_processes s pid;
          mapping_ptr = reg_rdi (p_registers p);
          ptr = reg_rsi (p_registers p);
          map = virtual_memory_lookup (k_mem s) (p_pagetable p) mapping_ptr
      in if word_of_int (vam_perm map) AND (PTE_W OR PTE_U) \<noteq> (PTE_W OR PTE_U) then Inr s
         else
           let endaddr = vam_pa map + 24 - 1;
               end_map = virtual_memory_lookup (k_mem s) (p_pagetable p) endaddr
           in if word_of_int (vam_perm end_map) AND (PTE_W OR PTE_P) \<noteq> (PTE_W OR PTE_P) then Inr s
              else if endaddr \<ge> MEMSIZE_PHYSICAL then Inl (Page_fault MEMSIZE_PHYSICAL)
              else
                let ptr_lookup = virtual_memory_lookup (k_mem s) (p_pagetable p) ptr
                in Inr (s\<lparr>k_mem := store_vamapping (k_mem s) (vam_pa map) pad1 pad2 ptr_lookup\<rparr>))"

definition syscall_mem_tog :: "int \<Rightarrow> kernel_state \<Rightarrow> kernel_state" where
  "syscall_mem_tog pid s =
     (let process = k_processes s pid;
          p = sint (ucast (reg_rdi (p_registers process)) :: 32 word)
      in if p = 0 then s\<lparr>k_disp_global := (if k_disp_global s = 0 then 1 else 0)\<rparr>
         else if p < 0 \<or> p > NPROC \<or> p \<noteq> p_pid process then s
         else upd_proc pid (\<lambda>q. q\<lparr>display_status := (if display_status q = 0 then 1 else 0)\<rparr>) s)"

section \<open>Handlers\<close>

text \<open>How a case of the \<open>switch\<close> in \<open>exception\<close> ends: with \<open>break\<close>, or for good.\<close>

datatype handled = Break kernel_state | Done outcome

definition handle_panic :: "kernel_state \<Rightarrow> kfault + handled" where
  "handle_panic s =
     (let addr = reg_rdi (p_registers (cur s)) in
      if addr = 0 then Inl (Panic_call None)
      else
        let pa = vam_pa (virtual_memory_lookup (k_mem s) (p_pagetable (cur s)) addr) in
        if pa \<ge> MEMSIZE_PHYSICAL then Inl (Page_fault pa)
        else if pa + 159 \<ge> MEMSIZE_PHYSICAL then Inl (Page_fault MEMSIZE_PHYSICAL)
        else Inl (Panic_call (Some (takeWhile (\<lambda>c. c \<noteq> CHR 0x00)
               (map (\<lambda>i. char_of (unat (k_mem s (pa + of_nat i)))) [0..<160])))))"

definition handle_page_alloc :: "kernel_state \<Rightarrow> kfault + handled" where
  "handle_page_alloc s =
     bindR (sys_page_alloc_find_free (p_pagetable (cur s)) (p_pid (cur s)) (reg_rdi (p_registers (cur s))) s)
       (\<lambda>(r, s'). Inr (Break (upd_regs (k_current s) (\<lambda>g. g\<lparr>reg_rax := word_of_int r\<rparr>) s')))"

definition handle_pagefault :: "64 word \<Rightarrow> x86_64_registers \<Rightarrow> kernel_state \<Rightarrow> kfault + handled" where
  "handle_pagefault cr2 reg s =
     (let operation = (if reg_err reg AND 2 \<noteq> 0 then ''write'' else ''read'');
          problem = (if reg_err reg AND 1 \<noteq> 0 then ''protection problem'' else ''missing page'')
      in if reg_err reg AND 4 = 0
         then Inl (Panic_call (Some ''Kernel page fault for %p (%s %s, rip=%p)!\<newline>''))
         else
           bindR (console_printf (CPOS 24 0) 0x0C00 ''Process %d page fault for %p (%s %s, rip=%p)!\<newline>''
                    [VNum (word_of_int (p_pid (cur s))), VNum cr2, VStr operation, VStr problem, VNum (reg_rip reg)]
                    (k_mem s)) (\<lambda>(_, m).
           Inr (Break (upd_proc (k_current s) (\<lambda>p. p\<lparr>p_state := P_BROKEN\<rparr>) (s\<lparr>k_mem := m\<rparr>)))))"

text \<open>One turn of the copy loop of the fork case.\<close>

definition fork_page :: "int \<Rightarrow> 64 word \<Rightarrow> kernel_state \<Rightarrow> kfault + kernel_state" where
  "fork_page child v s =
     (let map = virtual_memory_lookup (k_mem s) (p_pagetable (cur s)) v;
          child_pt = p_pagetable (k_processes s child)
      in if vam_pa map \<noteq> CONSOLE_ADDR \<and> word_of_int (vam_perm map) AND PTE_W \<noteq> 0 then
           let (page, s1) = alloc_page_process child s;
               m = memcpy (k_mem s1) page (vam_pa map) PAGESIZE
           in bindR (virtual_memory_map m child_pt v page PAGESIZE (vam_perm map)) (\<lambda>(_, m').
              Inr (s1\<lparr>k_mem := m'\<rparr>))
         else
           bindR (virtual_memory_map (k_mem s) child_pt v (vam_pa map) PAGESIZE (vam_perm map)) (\<lambda>(_, m').
           (let i = k_pageinfo s (vam_pn map) in
            Inr (set_pageinfo (vam_pn map) (i\<lparr>pi_refcount := pi_refcount i + 1\<rparr>) (s\<lparr>k_mem := m'\<rparr>)))))"

definition fork_into :: "int \<Rightarrow> kernel_state \<Rightarrow> kfault + handled" where
  "fork_into child s =
     bindR (duplicate_pagetable (p_pagetable (cur s)) child
              (upd_proc child (\<lambda>p. p\<lparr>p_pid := child, p_state := P_RUNNABLE\<rparr>) s)) (\<lambda>(pt, s1).
     (let s2 = upd_proc child (\<lambda>p. p\<lparr>p_pagetable := pt\<rparr>) s1 in
      if pt \<noteq> 0 then
        bindR (foldR (fork_page child) (page_addrs PROC_START_ADDR MEMSIZE_VIRTUAL) s2) (\<lambda>s3.
        (let s4 = upd_regs child (\<lambda>_. (p_registers (cur s3))\<lparr>reg_rax := 0\<rparr>) s3 in
         Inr (Break (upd_regs (k_current s) (\<lambda>g. g\<lparr>reg_rax := word_of_int child\<rparr>) s4))))
      else
        Inr (Done (Returned
          (upd_regs (k_current s) (\<lambda>g. g\<lparr>reg_rax := -1\<rparr>)
            (upd_proc child (\<lambda>p. p\<lparr>p_state := P_FREE\<rparr>) s2))))))"

text \<open>The search loop of the fork case, over the process slots left.\<close>

primrec fork_search :: "nat \<Rightarrow> int \<Rightarrow> kernel_state \<Rightarrow> kfault + handled" where
  "fork_search 0 free_pid s = Inr (Break s)"
| "fork_search (Suc n) free_pid s =
     (if p_state (k_processes s free_pid) = P_FREE then fork_into free_pid s
      else fork_search n (free_pid + 1)
        (if free_pid + 1 = NPROC then upd_regs (k_current s) (\<lambda>g. g\<lparr>reg_rax := -1\<rparr>) s else s))"

definition handle_fork :: "kernel_state \<Rightarrow> kfault + handled" where
  "handle_fork s = fork_search 15 1 s"

text \<open>One turn of the release loop of the exit case; \<open>tables\<close> are the numbers of the table pages.\<close>

definition exit_page :: "int list \<Rightarrow> 64 word \<Rightarrow> kernel_state \<Rightarrow> kernel_state" where
  "exit_page tables v s =
     (if p_pagetable (cur s) \<noteq> 0 then
        let map = virtual_memory_lookup (k_mem s) (p_pagetable (cur s)) v;
            pn = vam_pn map;
            i = k_pageinfo s pn;
            writable = word_of_int (vam_perm map) AND PTE_W \<noteq> 0
        in if \<not> writable \<and> pn > 0 \<and> pi_refcount i \<noteq> 0 then
             let i' = (if pi_refcount i = 0 then i\<lparr>pi_owner := 0\<rparr> else i)
             in set_pageinfo pn (i'\<lparr>pi_refcount := pi_refcount i' - 1\<rparr>) s
           else if pn > 0 \<and> writable \<and> sint (pi_owner i) = p_pid (cur s) \<and> pi_refcount i \<noteq> 0
                   \<and> pn \<notin> set tables
           then set_pageinfo pn \<lparr>pi_owner = 0, pi_refcount = 0\<rparr> s
           else s
      else s)"

definition handle_exit :: "kernel_state \<Rightarrow> kernel_state" where
  "handle_exit s =
     (let L1 = p_pagetable (cur s);
          L2 = PTE_ADDR (pt_entry (k_mem s) L1 0);
          L3 = PTE_ADDR (pt_entry (k_mem s) L2 0);
          L4_1 = PTE_ADDR (pt_entry (k_mem s) L3 0);
          L4_2 = PTE_ADDR (pt_entry (k_mem s) L3 1);
          tables = map PAGENUMBER [L1, L2, L3, L4_1, L4_2];
          s1 = fold (\<lambda>pn s. set_pageinfo pn ((k_pageinfo s pn)\<lparr>pi_owner := 0\<rparr>) s) tables s;
          s2 = fold (\<lambda>pn s. set_pageinfo pn ((k_pageinfo s pn)\<lparr>pi_refcount := 0\<rparr>) s) tables s1;
          s3 = upd_proc (k_current s) (\<lambda>p. p\<lparr>p_state := P_FREE\<rparr>) s2
      in fold (exit_page tables) (page_addrs PROC_START_ADDR MEMSIZE_VIRTUAL) s3)"

section \<open>The exception handler\<close>

definition handle :: "link_symbols \<Rightarrow> int list \<Rightarrow> 64 word \<Rightarrow> 32 word \<Rightarrow> 32 word \<Rightarrow>
    x86_64_registers \<Rightarrow> kernel_state \<Rightarrow> kfault + handled" where
  "handle syms keys cr2 pad1 pad2 reg s =
     (let n = reg_intno reg in
      if n = 48 then handle_panic s
      else if n = 49 then
        Inr (Break (upd_regs (k_current s) (\<lambda>g. g\<lparr>reg_rax := word_of_int (p_pid (cur s))\<rparr>) s))
      else if n = 50 then bindR (schedule syms keys s) (\<lambda>out. Inr (Done out))
      else if n = 51 then handle_page_alloc s
      else if n = 54 then bindR (syscall_mapping pad1 pad2 (k_current s) s) (\<lambda>s'. Inr (Break s'))
      else if n = 56 then Inr (Break (syscall_mem_tog (k_current s) s))
      else if n = 32 then
        bindR (schedule syms keys (s\<lparr>k_ticks := k_ticks s + 1\<rparr>)) (\<lambda>out. Inr (Done out))
      else if n = 14 then handle_pagefault cr2 reg s
      else if n = 52 then handle_fork s
      else if n = 53 then Inr (Break (handle_exit s))
      else Inl (Panic_call (Some ''Unexpected exception %d!\<newline>'')))"

definition show_memory :: "link_symbols \<Rightarrow> x86_64_registers \<Rightarrow> kernel_state \<Rightarrow> kfault + kernel_state" where
  "show_memory syms reg s =
     (if (reg_intno reg \<noteq> 14 \<and> reg_intno reg \<noteq> 13) \<or> reg_err reg AND 4 \<noteq> 0 then
        bindR (check_virtual_memory syms s) (\<lambda>_.
        if k_disp_global s \<noteq> 0 then bindR (memshow_physical s) memshow_virtual_animate
        else Inr s)
      else Inr s)"

text \<open>\<open>key\<close> is what the first \<open>check_keyboard\<close> reads, \<open>keys\<close> what those of \<open>schedule\<close> read.\<close>

definition exception :: "link_symbols \<Rightarrow> int \<Rightarrow> int list \<Rightarrow> 64 word \<Rightarrow> 32 word \<Rightarrow> 32 word \<Rightarrow>
    x86_64_registers \<Rightarrow> kernel_state \<Rightarrow> kfault + outcome" where
  "exception syms key keys cr2 pad1 pad2 reg s0 =
     (let s1 = upd_regs (k_current s0) (\<lambda>_. reg) s0 in
      bindR (set_pagetable syms (k_mem s1) (sym_kernel_pagetables syms)) (\<lambda>cr3.
      bindR (show_memory syms reg (s1\<lparr>k_cr3 := cr3\<rparr>)) (\<lambda>s2.
      (case check_keyboard key s2 of
         (Soft_reboot arg, s3) \<Rightarrow> Inr (Rebooted arg s3)
       | (Power_off, s3) \<Rightarrow> Inr (Powered_off s3)
       | (No_action, s3) \<Rightarrow>
           bindR (handle syms keys cr2 pad1 pad2 reg s3) (\<lambda>h.
           (case h of
              Done out \<Rightarrow> Inr out
            | Break s4 \<Rightarrow>
                if p_state (cur s4) = P_RUNNABLE then run syms (k_current s4) s4
                else schedule syms keys s4))))))"

section \<open>Starting up\<close>

definition process_setup :: "link_symbols \<Rightarrow> (int \<Rightarrow> 64 word) \<Rightarrow> int \<Rightarrow> int \<Rightarrow> kernel_state \<Rightarrow> kfault + kernel_state" where
  "process_setup syms images pid program_number s =
     bindR (duplicate_pagetable (sym_kernel_pagetables syms) pid (upd_proc pid (process_init 0) s)) (\<lambda>(pt, s1).
     bindR (program_load syms images pid program_number (upd_proc pid (\<lambda>p. p\<lparr>p_pagetable := pt\<rparr>) s1)) (\<lambda>(r, s2).
     bindR (assertR ''kernel.c'' 134 (r \<ge> 0)) (\<lambda>_.
     (let s3 = upd_regs pid (\<lambda>g. g\<lparr>reg_rsp := MEMSIZE_VIRTUAL\<rparr>) s2;
          stack_page = reg_rsp (p_registers (k_processes s3 pid)) - PAGESIZE
      in bindR (sys_page_alloc_find_free (p_pagetable (k_processes s3 pid)) pid stack_page s3) (\<lambda>(_, s4).
         Inr (upd_proc pid (\<lambda>p. p\<lparr>p_state := P_RUNNABLE\<rparr>) s4))))))"

definition free_process :: "int \<Rightarrow> proc" where
  "free_process i = \<lparr>p_pid = i, p_registers = zero_registers, p_state = P_FREE, p_pagetable = 0, display_status = 0\<rparr>"

definition setup_list :: "string option \<Rightarrow> (int \<times> int) list" where
  "setup_list command =
     (if command = Some ''fork'' then [(1, 4)]
      else if command = Some ''forkexit'' then [(1, 5)]
      else if command = Some ''test'' then [(1, 6)]
      else if command = Some ''test2'' then [(1, 6), (2, 6)]
      else [(1, 0), (2, 1), (3, 2), (4, 3)])"

definition kernel_setup :: "link_symbols \<Rightarrow> kernel_state \<Rightarrow> kfault + kernel_state" where
  "kernel_setup syms s =
     (let kp = sym_kernel_pagetables syms; s1 = console_clear (pageinfo_init syms s) in
      bindR (virtual_memory_map (k_mem s1) kp 0 0 PROC_START_ADDR (uint (PTE_P OR PTE_W))) (\<lambda>(_, m1).
      bindR (virtual_memory_map m1 kp 0xB8000 0xB8000 PAGESIZE (uint (PTE_P OR PTE_W OR PTE_U))) (\<lambda>(_, m2).
      Inr (s1\<lparr>k_mem := m2,
             k_processes := (\<lambda>i. if 0 \<le> i \<and> i < NPROC then free_process i else k_processes s i)\<rparr>))))"

definition boot_kernel :: "link_symbols \<Rightarrow> kernel_state \<Rightarrow> kfault + kernel_state" where
  "boot_kernel syms s =
     bindR (virtual_memory_init syms (k_mem s)) (\<lambda>(cr3, m0). kernel_setup syms (s\<lparr>k_mem := m0, k_cr3 := cr3\<rparr>))"

definition kernel :: "link_symbols \<Rightarrow> (int \<Rightarrow> 64 word) \<Rightarrow> string option \<Rightarrow> kernel_state \<Rightarrow> kfault + outcome" where
  "kernel syms images command s =
     bindR (boot_kernel syms s) (\<lambda>s1.
     bindR (foldR (\<lambda>(pid, prog). process_setup syms images pid prog) (setup_list command) s1) (\<lambda>s2.
     run syms 1 s2))"

end
