(* ===== verification/Kernel_Invariant.thy ===== *)
theory Kernel_Invariant
  imports Kernel
begin

text \<open>
  The invariant of the running kernel. \<open>kinv\<close> says of a state: process 0 is free and every
  descriptor carries its own number; the kernel's page table maps physical memory to itself;
  every live process has a well-formed page table of its own, whose pages it owns with one
  reference and whose first megabyte is the kernel's; every user mapping refers to a page in use,
  no process maps a page twice, a writable one to a page that this process owns and nobody else maps; and every page in use
  belongs to the kernel, is reserved, or belongs to a live process.

  Its consequences are the assertions of \<open>check_virtual_memory\<close> and \<open>set_pagetable\<close>, and the
  isolation of processes.
\<close>

unbundle bit_operations_syntax

section \<open>The invariant\<close>

definition live :: "kernel_state \<Rightarrow> int \<Rightarrow> bool" where
  "live s pid \<longleftrightarrow> 1 \<le> pid \<and> pid < NPROC \<and> p_state (k_processes s pid) \<noteq> P_FREE"

abbreviation ptab :: "kernel_state \<Rightarrow> int \<Rightarrow> 64 word" where
  "ptab s pid \<equiv> p_pagetable (k_processes s pid)"

abbreviation slot_of :: "kernel_state \<Rightarrow> int \<Rightarrow> nat \<Rightarrow> 64 word" where
  "slot_of s pid v \<equiv> slots (k_mem s) (ptab s pid) v"

definition low_identity :: "memory \<Rightarrow> 64 word \<Rightarrow> nat \<Rightarrow> bool" where
  "low_identity m pt n \<longleftrightarrow> (\<forall>v < n. slots m pt v AND 3 = 3 \<and> PTE_ADDR (slots m pt v) = of_nat v * PAGESIZE)"

definition kernel_only :: "memory \<Rightarrow> 64 word \<Rightarrow> bool" where
  "kernel_only m pt \<longleftrightarrow> (\<forall>v < 256. v \<noteq> 0xB8 \<longrightarrow> slots m pt v AND PTE_U = 0)"

definition kinv_procs :: "kernel_state \<Rightarrow> bool" where
  "kinv_procs s \<longleftrightarrow> p_state (k_processes s 0) = P_FREE \<and> (\<forall>pid. 0 \<le> pid \<and> pid < NPROC \<longrightarrow> p_pid (k_processes s pid) = pid)"

definition kinv_kernel :: "link_symbols \<Rightarrow> kernel_state \<Rightarrow> bool" where
  "kinv_kernel syms s \<longleftrightarrow>
     (let kp = sym_kernel_pagetables syms in
      pt_wf (k_mem s) kp \<and> pt_pages (k_mem s) kp = kernel_tables syms \<and> low_identity (k_mem s) kp 512 \<and>
      kernel_only (k_mem s) kp \<and>
      (\<forall>q \<in> page_nums (k_mem s) kp. k_pageinfo s q = \<lparr>pi_owner = -2, pi_refcount = 1\<rparr>))"

definition kinv_table :: "kernel_state \<Rightarrow> int \<Rightarrow> bool" where
  "kinv_table s pid \<longleftrightarrow>
     pt_wf (k_mem s) (ptab s pid) \<and> low_identity (k_mem s) (ptab s pid) 256 \<and> kernel_only (k_mem s) (ptab s pid) \<and>
     (\<forall>q \<in> page_nums (k_mem s) (ptab s pid). k_pageinfo s q = fresh_page pid)"

definition user_slot :: "kernel_state \<Rightarrow> int \<Rightarrow> nat \<Rightarrow> int \<Rightarrow> bool" where
  "user_slot s pid v pn \<longleftrightarrow> 256 \<le> v \<and> v < 1024 \<and> slot_of s pid v AND PTE_P \<noteq> 0 \<and> PAGENUMBER (PTE_ADDR (slot_of s pid v)) = pn"

definition kinv_user :: "kernel_state \<Rightarrow> int \<Rightarrow> bool" where
  "kinv_user s pid \<longleftrightarrow>
     (\<forall>v pn. user_slot s pid v pn \<longrightarrow>
        PTE_ADDR (slot_of s pid v) < MEMSIZE_PHYSICAL \<and>
        pi_refcount (k_pageinfo s pn) \<noteq> 0 \<and>
        1 \<le> sint (pi_owner (k_pageinfo s pn)) \<and> sint (pi_owner (k_pageinfo s pn)) < NPROC \<and>
        (slot_of s pid v AND PTE_W \<noteq> 0 \<longrightarrow> k_pageinfo s pn = fresh_page pid) \<and>
        (\<forall>q. live s q \<longrightarrow> pn \<notin> page_nums (k_mem s) (ptab s q)))"

definition kinv_excl :: "kernel_state \<Rightarrow> bool" where
  "kinv_excl s \<longleftrightarrow>
     (\<forall>p q v w pn. live s p \<longrightarrow> live s q \<longrightarrow> user_slot s p v pn \<longrightarrow> user_slot s q w pn \<longrightarrow>
        p = q \<or> slot_of s p v AND PTE_W \<noteq> 0 \<longrightarrow> p = q \<and> v = w)"

definition kinv_info :: "kernel_state \<Rightarrow> bool" where
  "kinv_info s \<longleftrightarrow>
     k_pageinfo s 0 = \<lparr>pi_owner = -1, pi_refcount = 1\<rparr> \<and> k_pageinfo s 0xB8 = \<lparr>pi_owner = -1, pi_refcount = 1\<rparr> \<and>
     (\<forall>pn. 0 \<le> pn \<and> pn < NPAGES \<and> pi_refcount (k_pageinfo s pn) \<noteq> 0 \<longrightarrow>
        sint (pi_owner (k_pageinfo s pn)) \<in> {-2, -1} \<or> live s (sint (pi_owner (k_pageinfo s pn))))"

definition kinv :: "link_symbols \<Rightarrow> kernel_state \<Rightarrow> bool" where
  "kinv syms s \<longleftrightarrow>
     kinv_procs s \<and> kinv_kernel syms s \<and> kinv_info s \<and> kinv_excl s \<and>
     (\<forall>pid. live s pid \<longrightarrow> kinv_table s pid \<and> kinv_user s pid)"

definition kinv_tables :: "link_symbols \<Rightarrow> kernel_state \<Rightarrow> bool" where
  "kinv_tables syms s \<longleftrightarrow> kinv_procs s \<and> kinv_kernel syms s \<and> (\<forall>pid. live s pid \<longrightarrow> kinv_table s pid)"

lemma kinv_tablesI: "kinv syms s \<Longrightarrow> kinv_tables syms s"
  by (simp add: kinv_def kinv_tables_def)

lemma kinv_tablesD:
  assumes "kinv_tables syms s"
  shows "kinv_procs s" "kinv_kernel syms s" "live s pid \<Longrightarrow> kinv_table s pid"
  using assms by (simp_all add: kinv_tables_def)

lemma kinvD:
  assumes "kinv syms s"
  shows "kinv_procs s" "kinv_kernel syms s" "kinv_info s" "kinv_excl s"
    "live s pid \<Longrightarrow> kinv_table s pid" "live s pid \<Longrightarrow> kinv_user s pid"
  using assms by (simp_all add: kinv_def)

section \<open>The identity mapping\<close>

lemma and_3_bits: "(e :: 64 word) AND 3 = 3 \<Longrightarrow> e AND 1 \<noteq> 0 \<and> e AND 2 \<noteq> 0"
proof -
  assume e: "e AND 3 = 3"
  have "(e AND 3) AND 1 = e AND 1" "(e AND 3) AND 2 = e AND 2" by (simp_all add: and.assoc)
  with e show ?thesis by auto
qed

lemma vam_of_flag:
  assumes "e AND PTE_P \<noteq> 0" "f \<in> {1, 2, 4, 6, 3}"
  shows "word_of_int (vam_perm (vam_of e va)) AND f = e AND f"
proof -
  have "(e AND 0xFFF) AND f = e AND f" using assms(2) by (auto simp: and.assoc)
  with assms(1) show ?thesis by (simp add: vam_of_def PTE_FLAGS_def)
qed

lemma lookup_identity:
  assumes "pt_wf m pt" "low_identity m pt n" "n \<le> 1024" "unat va < 4096 * n"
  shows "vam_pa (virtual_memory_lookup m pt va) = va"
    "word_of_int (vam_perm (virtual_memory_lookup m pt va)) AND PTE_W \<noteq> (0 :: 64 word)"
    "vam_perm (virtual_memory_lookup m pt va) \<noteq> 0"
proof -
  have va: "unat va < 2 ^ 48" using assms(3,4) by simp
  then have v: "vpn va < n" using assms(4) by (simp add: vpn_low less_mult_imp_div_less mult.commute)
  define e where "e = slots m pt (vpn va)"
  have e: "e AND 3 = 3" "PTE_ADDR e = of_nat (vpn va) * PAGESIZE"
    using assms(2) v by (simp_all add: low_identity_def e_def)
  note p = and_3_bits[OF e(1)]
  have l: "virtual_memory_lookup m pt va = vam_of e va" by (simp add: lookup_slots[OF assms(1)] e_def)
  show "vam_pa (virtual_memory_lookup m pt va) = va"
    unfolding l using p vpn_of_page[OF va] by (simp add: vam_of_def e(2))
  show W: "word_of_int (vam_perm (virtual_memory_lookup m pt va)) AND PTE_W \<noteq> (0 :: 64 word)"
    unfolding l using p by (simp add: vam_of_flag)
  then show "vam_perm (virtual_memory_lookup m pt va) \<noteq> 0" by auto
qed

section \<open>The checks pass\<close>

lemma page_addrs_nat:
  assumes "va \<in> set (page_addrs first lst)"
  obtains i where "va = first + of_nat i * PAGESIZE" "unat va = unat first + 4096 * i" "unat va < unat lst"
proof -
  obtain i where i: "va = first + of_nat i * PAGESIZE" "i < pages_between first lst"
    using assms by (auto simp: page_addrs_def)
  then have lt: "unat first + 4096 * i < unat lst" by (auto simp: pages_between_def less_eq_div_iff_mult_less_eq Suc_le_eq[symmetric])
  have "unat lst < 2 ^ 64" using unsigned_less[of lst] by simp
  then have "unat va = unat first + 4096 * i" unfolding i(1) using lt by (intro plus_size) simp
  with i(1) lt that show thesis by simp
qed

lemma check_mappings_ok:
  assumes "syms_ok syms" "pt_wf m pt" "low_identity m pt n" "256 \<le> n" "n \<le> 1024"
  shows "check_page_table_mappings syms m pt = Inr ()"
proof -
  have id: "vam_pa (virtual_memory_lookup m pt va) = va"
    "word_of_int (vam_perm (virtual_memory_lookup m pt va)) AND PTE_W \<noteq> (0 :: 64 word)"
    if "unat va < 0x80000" for va
    using that assms(4) by (intro lookup_identity[OF assms(2,3,5)]; simp)+
  have "check_kernel_page syms m pt va = Inr ()" if "va \<in> set (page_addrs KERNEL_START_ADDR (sym_end syms))" for va
  proof -
    have "unat va < 0x80000" using page_addrs_nat[OF that] assms(1) by (fastforce simp: syms_ok_def)
    from id[OF this] show ?thesis by (simp add: check_kernel_page_def)
  qed
  then have "allR (check_kernel_page syms m pt) (page_addrs KERNEL_START_ADDR (sym_end syms)) = Inr ()"
    by (simp add: allR_Inr)
  moreover have "PTE_ADDR pt = pt" using pt_wf_aligned(1)[OF assms(2)] by (rule PTE_ADDR_self)
  ultimately show ?thesis
    unfolding check_page_table_mappings_def using id[of "KERNEL_STACK_TOP - PAGESIZE"] by simp
qed

definition owned_by :: "kernel_state \<Rightarrow> 64 word \<Rightarrow> int \<Rightarrow> bool" where
  "owned_by s P own \<longleftrightarrow>
     sint (pi_owner (k_pageinfo s (PAGENUMBER P))) = own \<and> sint (pi_refcount (k_pageinfo s (PAGENUMBER P))) = 1"

lemma PAGENUMBER_phys:
  assumes "P < MEMSIZE_PHYSICAL"
  shows "PAGENUMBER P = int (unat P div 4096)" "PAGENUMBER P < NPAGES" "0 \<le> PAGENUMBER P"
proof -
  have u: "unat P < 0x200000" using assms by (simp add: word_less_nat_alt)
  then show n: "PAGENUMBER P = int (unat P div 4096)" by (intro PAGENUMBER_nat) simp
  show "PAGENUMBER P < NPAGES" "0 \<le> PAGENUMBER P" unfolding n using u by auto
qed

lemma level_0: "P < MEMSIZE_PHYSICAL \<Longrightarrow> owned_by s P own \<Longrightarrow> check_page_table_ownership_level 0 s P own 1 = Inr ()"
  using PAGENUMBER_phys(2)[of P] by (simp add: owned_by_def)

lemma level_Suc:
  assumes "P < MEMSIZE_PHYSICAL" "owned_by s P own"
    and "\<And>i. i < 512 \<Longrightarrow> pt_entry (k_mem s) P i \<noteq> 0 \<Longrightarrow>
      check_page_table_ownership_level l s (PTE_ADDR (pt_entry (k_mem s) P i)) own 1 = Inr ()"
  shows "check_page_table_ownership_level (Suc l) s P own 1 = Inr ()"
  using assms PAGENUMBER_phys(2)[OF assms(1)] by (simp add: owned_by_def allR_Inr)

lemma check_ownership_ok:
  assumes wf: "pt_wf (k_mem s) pt" and own: "\<And>P. P \<in> set (pt_pages (k_mem s) pt) \<Longrightarrow> owned_by s P own"
  shows "check_page_table_ownership_level 3 s pt own 1 = Inr ()"
proof -
  note w = wf[unfolded pt_wf_def]
  have phys: "P < MEMSIZE_PHYSICAL" if "P \<in> set (pt_pages (k_mem s) pt)" for P using w that by blast
  note lt = pt_wf_physical[OF wf]
  have zero: "i \<noteq> 0 \<Longrightarrow> pt_entry (k_mem s) pt i = 0" "i \<noteq> 0 \<Longrightarrow> pt_entry (k_mem s) (L2_of (k_mem s) pt) i = 0"
    "\<not> i < 2 \<Longrightarrow> pt_entry (k_mem s) (L3_of (k_mem s) pt) i = 0" if "i < 512" for i
    using w that by auto
  have l4: "check_page_table_ownership_level 0 s (L4_of (k_mem s) pt i) own 1 = Inr ()" if "i < 2" for i
    using L4_of_nonzero[OF wf that] own by (intro level_0) auto
  have l3: "check_page_table_ownership_level 1 s (L3_of (k_mem s) pt) own 1 = Inr ()"
    unfolding One_nat_def
  proof (rule level_Suc)
    show "check_page_table_ownership_level 0 s (PTE_ADDR (pt_entry (k_mem s) (L3_of (k_mem s) pt) i)) own 1 = Inr ()"
      if "i < 512" "pt_entry (k_mem s) (L3_of (k_mem s) pt) i \<noteq> 0" for i
      using zero(3)[OF that(1)] that l4[of i] by (auto simp: L4_of_def)
  qed (use lt own in \<open>auto simp: pt_pages_def\<close>)
  have l2: "check_page_table_ownership_level 2 s (L2_of (k_mem s) pt) own 1 = Inr ()"
    unfolding numeral_2_eq_2
  proof (rule level_Suc)
    show "check_page_table_ownership_level (Suc 0) s (PTE_ADDR (pt_entry (k_mem s) (L2_of (k_mem s) pt) i)) own 1 = Inr ()"
      if "i < 512" "pt_entry (k_mem s) (L2_of (k_mem s) pt) i \<noteq> 0" for i
      using zero(2)[OF that(1)] that l3 by (cases "i = 0") (auto simp: L3_of_def)
  qed (use lt own in \<open>auto simp: pt_pages_def\<close>)
  show ?thesis
    unfolding numeral_3_eq_3 numeral_2_eq_2[symmetric]
  proof (rule level_Suc)
    show "check_page_table_ownership_level 2 s (PTE_ADDR (pt_entry (k_mem s) pt i)) own 1 = Inr ()"
      if "i < 512" "pt_entry (k_mem s) pt i \<noteq> 0" for i
      using zero(1)[OF that(1)] that l2 by (cases "i = 0") (auto simp: L2_of_def)
  qed (use lt own in \<open>auto simp: pt_pages_def\<close>)
qed

lemma sint_pid: "0 \<le> pid \<Longrightarrow> pid < NPROC \<Longrightarrow> sint (word_of_int pid :: 8 word) = pid"
  by (simp add: signed_of_int signed_take_bit_int_eq_self)

lemma sint_fresh: "0 \<le> pid \<Longrightarrow> pid < NPROC \<Longrightarrow> sint (pi_owner (fresh_page pid)) = pid"
  by (simp add: fresh_page_def sint_pid)

lemma kinv_live_range: "live s pid \<Longrightarrow> 0 \<le> pid \<and> pid < NPROC"
  by (simp add: live_def)

lemma tables_not_kernel:
  assumes "kinv_tables syms s" "live s pid"
  shows "page_nums (k_mem s) (ptab s pid) \<inter> page_nums (k_mem s) (sym_kernel_pagetables syms) = {}"
    "ptab s pid \<noteq> sym_kernel_pagetables syms"
proof -
  have r: "1 \<le> pid" "pid < NPROC" using assms(2) by (simp_all add: live_def)
  have "fresh_page pid \<noteq> \<lparr>pi_owner = -2, pi_refcount = 1\<rparr>"
    using sint_fresh[of pid] r by auto
  moreover have t: "\<forall>q \<in> page_nums (k_mem s) (ptab s pid). k_pageinfo s q = fresh_page pid"
    using kinv_tablesD(3)[OF assms] by (simp add: kinv_table_def)
  moreover have k: "\<forall>q \<in> page_nums (k_mem s) (sym_kernel_pagetables syms). k_pageinfo s q = \<lparr>pi_owner = -2, pi_refcount = 1\<rparr>"
    using kinv_tablesD(2)[OF assms(1)] by (simp add: kinv_kernel_def Let_def)
  ultimately show d: "page_nums (k_mem s) (ptab s pid) \<inter> page_nums (k_mem s) (sym_kernel_pagetables syms) = {}"
    by (metis (no_types, lifting) disjoint_iff)
  have "PAGENUMBER pt \<in> page_nums (k_mem s) pt" for pt by (simp add: page_nums_def pt_pages_def)
  with d show "ptab s pid \<noteq> sym_kernel_pagetables syms" by (metis disjoint_iff)
qed

lemmas kinv_not_kernel_table = tables_not_kernel[OF kinv_tablesI]

lemma check_process_ok:
  assumes "syms_ok syms" "kinv_tables syms s" "live s pid"
  shows "check_page_table_mappings syms (k_mem s) (ptab s pid) = Inr ()"
    "check_page_table_ownership syms s (ptab s pid) pid = Inr ()"
proof -
  note t = kinv_tablesD(3)[OF assms(2,3), unfolded kinv_table_def]
  show "check_page_table_mappings syms (k_mem s) (ptab s pid) = Inr ()"
    by (rule check_mappings_ok[OF assms(1)]) (use t in auto)
  have "owned_by s P pid" if "P \<in> set (pt_pages (k_mem s) (ptab s pid))" for P
    using t that sint_pid[of pid] kinv_live_range[OF assms(3)]
    by (auto simp: owned_by_def page_nums_def fresh_page_def)
  then show "check_page_table_ownership syms s (ptab s pid) pid = Inr ()"
    unfolding check_page_table_ownership_def
    using tables_not_kernel(2)[OF assms(2,3)] check_ownership_ok t by auto
qed

lemma expected_refcount_1:
  assumes "kinv_tables syms s"
  shows "expected_refcount syms s = 1"
proof -
  have "\<not> (p_state (k_processes s x) \<noteq> P_FREE \<and> ptab s x = sym_kernel_pagetables syms)" if "x \<in> set [0..15]" for x
  proof (cases "x = 0")
    case True
    then show ?thesis using kinv_tablesD(1)[OF assms] by (simp add: kinv_procs_def)
  next
    case False
    with that have "p_state (k_processes s x) \<noteq> P_FREE \<Longrightarrow> live s x" by (simp add: live_def)
    then show ?thesis using tables_not_kernel(2)[OF assms] by blast
  qed
  then show ?thesis by (simp add: expected_refcount_def filter_empty_conv)
qed

lemma check_kernel_ok:
  assumes "syms_ok syms" "kinv_tables syms s"
  shows "check_page_table_mappings syms (k_mem s) (sym_kernel_pagetables syms) = Inr ()"
    "check_page_table_ownership syms s (sym_kernel_pagetables syms) pid = Inr ()"
proof -
  note k = kinv_tablesD(2)[OF assms(2), unfolded kinv_kernel_def Let_def]
  show "check_page_table_mappings syms (k_mem s) (sym_kernel_pagetables syms) = Inr ()"
    by (rule check_mappings_ok[OF assms(1)]) (use k in auto)
  have "owned_by s P (-2)" if "P \<in> set (pt_pages (k_mem s) (sym_kernel_pagetables syms))" for P
    using k that by (auto simp: owned_by_def page_nums_def)
  then show "check_page_table_ownership syms s (sym_kernel_pagetables syms) pid = Inr ()"
    unfolding check_page_table_ownership_def expected_refcount_1[OF assms(2)]
    using check_ownership_ok[of s "sym_kernel_pagetables syms" "-2"] k by simp
qed

text \<open>Well-formed tables pass the checks, up to the one on the owners of pages at the end.\<close>

definition owner_ok :: "kernel_state \<Rightarrow> int \<Rightarrow> bool" where
  "owner_ok s pn \<longleftrightarrow>
     (sint (pi_refcount (k_pageinfo s pn)) > 0 \<and> sint (pi_owner (k_pageinfo s pn)) \<ge> 0 \<longrightarrow>
      p_state (k_processes s (sint (pi_owner (k_pageinfo s pn)))) \<noteq> P_FREE)"

lemma check_virtual_memory_tables:
  assumes "syms_ok syms" "kinv_tables syms s"
  shows "check_virtual_memory syms s = allR (\<lambda>pn. assertR ''kernel.c'' 608 (owner_ok s pn)) [0..511]"
proof -
  have "allR (\<lambda>pid. if p_state (k_processes s pid) \<noteq> P_FREE \<and> ptab s pid \<noteq> sym_kernel_pagetables syms
      then bindR (check_page_table_mappings syms (k_mem s) (ptab s pid)) (\<lambda>_.
           check_page_table_ownership syms s (ptab s pid) pid) else Inr ()) [0..15] = Inr ()"
  proof (subst allR_Inr, intro ballI)
    fix pid :: int assume "pid \<in> set [0..15]"
    then have "pid = 0 \<or> (p_state (k_processes s pid) \<noteq> P_FREE \<longrightarrow> live s pid)" by (auto simp: live_def)
    then show "(if p_state (k_processes s pid) \<noteq> P_FREE \<and> ptab s pid \<noteq> sym_kernel_pagetables syms
      then bindR (check_page_table_mappings syms (k_mem s) (ptab s pid)) (\<lambda>_.
           check_page_table_ownership syms s (ptab s pid) pid) else Inr ()) = Inr ()"
      using check_process_ok[OF assms] kinv_tablesD(1)[OF assms(2)] by (auto simp: kinv_procs_def)
  qed
  moreover have "(if sint (pi_refcount (k_pageinfo s pn)) > 0 \<and> sint (pi_owner (k_pageinfo s pn)) \<ge> 0
        then assertR ''kernel.c'' 608 (p_state (k_processes s (sint (pi_owner (k_pageinfo s pn)))) \<noteq> P_FREE)
        else Inr ()) = assertR ''kernel.c'' 608 (owner_ok s pn)" for pn
    by (auto simp: owner_ok_def assertR_def)
  ultimately show ?thesis
    using check_kernel_ok[OF assms] kinv_tablesD(1)[OF assms(2)]
    unfolding check_virtual_memory_def Let_def kinv_procs_def by simp
qed

lemma kinv_check_virtual_memory:
  assumes "syms_ok syms" "kinv syms s"
  shows "check_virtual_memory syms s = Inr ()"
proof -
  have "owner_ok s pn" if "pn \<in> set [0..511]" for pn
  proof -
    have "pi_refcount (k_pageinfo s pn) \<noteq> 0 \<Longrightarrow>
        sint (pi_owner (k_pageinfo s pn)) \<in> {-2, -1} \<or> live s (sint (pi_owner (k_pageinfo s pn)))"
      using kinvD(3)[OF assms(2)] that by (simp add: kinv_info_def)
    then show ?thesis
      by (cases "pi_refcount (k_pageinfo s pn) = 0") (auto simp: live_def owner_ok_def)
  qed
  then show ?thesis
    unfolding check_virtual_memory_tables[OF assms(1) kinv_tablesI[OF assms(2)]] by (simp add: allR_Inr)
qed

section \<open>Loading page tables\<close>

lemma identity_pages:
  assumes "syms_ok syms"
  shows "unat (sym_default_int_handler syms) < 0x100000" "unat (sym_virtual_memory_map syms) < 0x100000"
    "unat (sym_kernel_pagetables syms) < 0x100000"
  using assms by (auto simp: syms_ok_def word_less_nat_alt)

lemma set_pagetable_ok:
  assumes "syms_ok syms" "kinv_kernel syms s" "pt_wf (k_mem s) pt" "low_identity (k_mem s) pt 256"
  shows "set_pagetable syms (k_mem s) pt = Inr pt"
proof -
  note k = assms(2)[unfolded kinv_kernel_def Let_def]
  have "vam_pa (virtual_memory_lookup (k_mem s) pt va) = va" if "unat va < 0x100000" for va
    using that by (intro lookup_identity(1)[OF assms(3,4)]) simp_all
  moreover have "vam_pa (virtual_memory_lookup (k_mem s) (sym_kernel_pagetables syms) pt) = pt"
    using k pt_wf_physical(1)[OF assms(3)]
    by (intro lookup_identity(1)[of _ _ 512]) (simp_all add: word_less_nat_alt)
  ultimately show ?thesis
    unfolding set_pagetable_def Let_def
    using identity_pages[OF assms(1)] pt_wf_aligned(1)[OF assms(3)] by simp
qed

lemma low_identity_mono: "low_identity m pt n \<Longrightarrow> k \<le> n \<Longrightarrow> low_identity m pt k"
  by (simp add: low_identity_def)

lemma set_pagetable_kernel:
  assumes "syms_ok syms" "kinv syms s"
  shows "set_pagetable syms (k_mem s) (sym_kernel_pagetables syms) = Inr (sym_kernel_pagetables syms)"
  using set_pagetable_ok[OF assms(1)] kinvD(2)[OF assms(2)] low_identity_mono[of _ _ 512 256]
  by (simp add: kinv_kernel_def Let_def)

lemma set_pagetable_process:
  assumes "syms_ok syms" "kinv syms s" "live s pid"
  shows "set_pagetable syms (k_mem s) (ptab s pid) = Inr (ptab s pid)"
  using set_pagetable_ok[OF assms(1) kinvD(2)[OF assms(2)]] kinvD(5)[OF assms(2,3)]
  by (simp add: kinv_table_def)

section \<open>What the invariant depends on\<close>

definition table_pages :: "link_symbols \<Rightarrow> kernel_state \<Rightarrow> (64 word) set" where
  "table_pages syms s = set (kernel_tables syms) \<union> (\<Union>pid \<in> {pid. live s pid}. set (pt_pages (k_mem s) (ptab s pid)))"

lemma same_tables:
  assumes "pt_wf m pt" "\<forall>P \<in> set (pt_pages m pt). same_page m m' P"
  shows "pt_wf m' pt" "pt_pages m' pt = pt_pages m pt" "slots m' pt = slots m pt"
    "page_nums m' pt = page_nums m pt"
proof -
  have s: "same_page m m' p" if "p \<in> set (pt_pages m pt)" for p using assms(2) that by blast
  show "pt_wf m' pt" "slots m' pt = slots m pt"
    by (rule same_pages_slots[OF assms(1)], erule s)+
  show p: "pt_pages m' pt = pt_pages m pt" by (rule same_pages_slots[OF assms(1)], erule s)
  then show "page_nums m' pt = page_nums m pt" by (simp add: page_nums_def)
qed

lemma page_nums_range:
  assumes "pt_wf m pt" "x \<in> page_nums m pt"
  shows "0 \<le> x" "x < NPAGES"
proof -
  obtain P where P: "P \<in> set (pt_pages m pt)" "x = PAGENUMBER P" using assms(2) by (auto simp: page_nums_def)
  then have "P < MEMSIZE_PHYSICAL" using assms(1) by (auto simp: pt_wf_def)
  from PAGENUMBER_phys[OF this] P(2) show "0 \<le> x" "x < NPAGES" by simp_all
qed

lemma kinv_frame_info:
  assumes inv: "kinv syms s"
    and procs: "\<And>pid. 0 \<le> pid \<Longrightarrow> pid < NPROC \<Longrightarrow>
      (p_state (k_processes s' pid) = P_FREE) = (p_state (k_processes s pid) = P_FREE) \<and>
      p_pid (k_processes s' pid) = p_pid (k_processes s pid) \<and> ptab s' pid = ptab s pid"
    and info: "\<And>pn. 0 \<le> pn \<Longrightarrow> pn < NPAGES \<Longrightarrow> pi_refcount (k_pageinfo s pn) \<noteq> 0 \<Longrightarrow> k_pageinfo s' pn = k_pageinfo s pn"
    and new: "\<And>pn. pi_refcount (k_pageinfo s pn) = 0 \<Longrightarrow> 0 \<le> pn \<Longrightarrow> pn < NPAGES \<Longrightarrow>
      pi_refcount (k_pageinfo s' pn) \<noteq> 0 \<Longrightarrow> live s (sint (pi_owner (k_pageinfo s' pn)))"
    and mem: "\<And>P. P \<in> table_pages syms s \<Longrightarrow> same_page (k_mem s) (k_mem s') P"
  shows "kinv syms s'"
proof -
  let ?kp = "sym_kernel_pagetables syms"
  note k = kinvD(2)[OF inv, unfolded kinv_kernel_def Let_def]
  have km: "\<forall>P \<in> set (pt_pages (k_mem s) ?kp). same_page (k_mem s) (k_mem s') P"
    using mem k by (auto simp: table_pages_def)
  from k have kwf: "pt_wf (k_mem s) ?kp" by blast
  note ke = same_tables[OF kwf km]
  have live: "live s' pid = live s pid" for pid using procs[of pid] by (auto simp: live_def)
  have pt: "ptab s' pid = ptab s pid" if "live s pid" for pid using procs[of pid] that by (simp add: live_def)
  have te: "pt_wf (k_mem s') (ptab s pid)" "slots (k_mem s') (ptab s pid) = slots (k_mem s) (ptab s pid)"
    "page_nums (k_mem s') (ptab s pid) = page_nums (k_mem s) (ptab s pid)" if "live s pid" for pid
  proof -
    have wf: "pt_wf (k_mem s) (ptab s pid)" using kinvD(5)[OF inv that] by (simp add: kinv_table_def)
    have "\<forall>P \<in> set (pt_pages (k_mem s) (ptab s pid)). same_page (k_mem s) (k_mem s') P"
      using mem that by (auto simp: table_pages_def)
    from same_tables[OF wf this] show "pt_wf (k_mem s') (ptab s pid)"
      "slots (k_mem s') (ptab s pid) = slots (k_mem s) (ptab s pid)"
      "page_nums (k_mem s') (ptab s pid) = page_nums (k_mem s) (ptab s pid)" by simp_all
  qed
  have us: "user_slot s' pid v pn = user_slot s pid v pn" if "live s pid" for pid v pn
    using te(2)[OF that] pt[OF that] by (simp add: user_slot_def)
  have "kinv_procs s'" using kinvD(1)[OF inv] procs by (simp add: kinv_procs_def)
  moreover have "kinv_kernel syms s'"
    using k info page_nums_range[OF kwf] unfolding kinv_kernel_def Let_def low_identity_def kernel_only_def by (simp add: ke)
  moreover have "kinv_info s'"
    unfolding kinv_info_def live
  proof (intro conjI allI impI)
    show "k_pageinfo s' 0 = \<lparr>pi_owner = -1, pi_refcount = 1\<rparr>" "k_pageinfo s' 0xB8 = \<lparr>pi_owner = -1, pi_refcount = 1\<rparr>"
      using kinvD(3)[OF inv] info[of 0] info[of "0xB8"] by (simp_all add: kinv_info_def)
    fix pn assume "0 \<le> pn \<and> pn < NPAGES \<and> pi_refcount (k_pageinfo s' pn) \<noteq> 0"
    then show "sint (pi_owner (k_pageinfo s' pn)) \<in> {-2, -1} \<or> live s (sint (pi_owner (k_pageinfo s' pn)))"
      using kinvD(3)[OF inv] info[of pn] new[of pn] unfolding kinv_info_def by metis
  qed
  moreover have "kinv_excl s'"
    unfolding kinv_excl_def live
  proof (intro allI impI)
    fix p q v w pn
    assume h: "live s p" "live s q" "user_slot s' p v pn" "user_slot s' q w pn" "p = q \<or> slot_of s' p v AND PTE_W \<noteq> 0"
    then have "user_slot s p v pn" "user_slot s q w pn" "p = q \<or> slot_of s p v AND PTE_W \<noteq> 0"
      using us te(2) pt by simp_all
    with h(1,2) kinvD(4)[OF inv] show "p = q \<and> v = w" unfolding kinv_excl_def by blast
  qed
  moreover have "kinv_table s' pid" if "live s pid" for pid
  proof -
    have "pt_wf (k_mem s) (ptab s pid)" using kinvD(5)[OF inv that] by (simp add: kinv_table_def)
    from page_nums_range[OF this] show ?thesis
      using kinvD(5)[OF inv that] info
      unfolding kinv_table_def low_identity_def kernel_only_def pt[OF that] by (simp add: te[OF that] fresh_page_def)
  qed
  moreover have "kinv_user s' pid" if l: "live s pid" for pid
    unfolding kinv_user_def us[OF l] pt[OF l] te(2)[OF l] live
  proof (intro allI impI)
    fix v pn assume "user_slot s pid v pn"
    note u = kinvD(6)[OF inv l, unfolded kinv_user_def, rule_format, OF this]
    have "pn = PAGENUMBER (PTE_ADDR (slot_of s pid v))" using \<open>user_slot s pid v pn\<close> by (simp add: user_slot_def)
    then have "0 \<le> pn" "pn < NPAGES" using PAGENUMBER_phys(2,3)[of "PTE_ADDR (slot_of s pid v)"] u by auto
    with u info have "k_pageinfo s' pn = k_pageinfo s pn" by blast
    with u pt te(3) show "PTE_ADDR (slot_of s pid v) < MEMSIZE_PHYSICAL \<and> pi_refcount (k_pageinfo s' pn) \<noteq> 0 \<and>
        1 \<le> sint (pi_owner (k_pageinfo s' pn)) \<and> sint (pi_owner (k_pageinfo s' pn)) < NPROC \<and>
        (slot_of s pid v AND PTE_W \<noteq> 0 \<longrightarrow> k_pageinfo s' pn = fresh_page pid) \<and>
        (\<forall>q. live s q \<longrightarrow> pn \<notin> page_nums (k_mem s') (ptab s' q))" by simp
  qed
  ultimately show ?thesis by (simp add: kinv_def live)
qed

lemma kinv_frame:
  assumes "kinv syms s"
    and "\<And>pid. 0 \<le> pid \<Longrightarrow> pid < NPROC \<Longrightarrow>
      (p_state (k_processes s' pid) = P_FREE) = (p_state (k_processes s pid) = P_FREE) \<and>
      p_pid (k_processes s' pid) = p_pid (k_processes s pid) \<and> ptab s' pid = ptab s pid"
    and "k_pageinfo s' = k_pageinfo s"
    and "\<And>P. P \<in> table_pages syms s \<Longrightarrow> same_page (k_mem s) (k_mem s') P"
  shows "kinv syms s'"
  by (rule kinv_frame_info[OF assms(1)]) (use assms in simp_all)

lemma table_pages_info:
  assumes "kinv syms s" "P \<in> table_pages syms s"
  shows "page_aligned P" "P \<noteq> 0" "P < MEMSIZE_PHYSICAL" "pi_refcount (k_pageinfo s (PAGENUMBER P)) = 1"
    "P \<noteq> CONSOLE_ADDR"
proof -
  note k = kinvD(2)[OF assms(1), unfolded kinv_kernel_def Let_def]
  obtain pt own where pt: "pt_wf (k_mem s) pt" "P \<in> set (pt_pages (k_mem s) pt)"
    and i: "k_pageinfo s (PAGENUMBER P) = \<lparr>pi_owner = own, pi_refcount = 1\<rparr>" "own \<noteq> -1"
  proof (cases "P \<in> set (kernel_tables syms)")
    case True
    then show thesis using k that[of "sym_kernel_pagetables syms" "-2"] by (auto simp: page_nums_def)
  next
    case False
    then obtain pid where l: "live s pid" "P \<in> set (pt_pages (k_mem s) (ptab s pid))"
      using assms(2) by (auto simp: table_pages_def)
    then have "(word_of_int pid :: 8 word) \<noteq> -1"
      using sint_pid[of pid] by (auto simp: live_def)
    with l kinvD(5)[OF assms(1) l(1)] that[of "ptab s pid" "word_of_int pid"] show thesis
      by (auto simp: kinv_table_def page_nums_def fresh_page_def)
  qed
  show "page_aligned P" using pt pt_wf_aligned[OF pt(1)] by (auto simp: pt_pages_def)
  show "P \<noteq> 0" "P < MEMSIZE_PHYSICAL" using pt by (auto simp: pt_wf_def)
  show "pi_refcount (k_pageinfo s (PAGENUMBER P)) = 1" using i by simp
  have "PAGENUMBER CONSOLE_ADDR = 0xB8" by (simp add: PAGENUMBER_nat)
  then show "P \<noteq> CONSOLE_ADDR" using i kinvD(3)[OF assms(1)] by (auto simp: kinv_info_def)
qed

lemma kinv_console:
  assumes "kinv syms s" "\<And>Q. Q \<noteq> CONSOLE_ADDR \<Longrightarrow> same_page (k_mem s) m Q"
  shows "kinv syms (s\<lparr>k_mem := m\<rparr>)"
  using table_pages_info(5)[OF assms(1)] assms(2) by (intro kinv_frame[OF assms(1)]) simp_all

section \<open>Separation of tables\<close>

lemma pages_disjointI: "page_nums m p \<inter> page_nums m q = {} \<Longrightarrow> set (pt_pages m p) \<inter> set (pt_pages m q) = {}"
  by (auto simp: page_nums_def)

lemma fresh_page_inj:
  assumes "fresh_page p = fresh_page q" "0 \<le> p" "p < NPROC" "0 \<le> q" "q < NPROC"
  shows "p = q"
  using arg_cong[OF assms(1), of "\<lambda>i. sint (pi_owner i)"]
  unfolding sint_fresh[OF assms(2,3)] sint_fresh[OF assms(4,5)] .

lemma kinv_tables_disjoint:
  assumes "kinv syms s" "live s p" "live s q" "p \<noteq> q"
  shows "page_nums (k_mem s) (ptab s p) \<inter> page_nums (k_mem s) (ptab s q) = {}"
proof -
  have "fresh_page p \<noteq> fresh_page q" using fresh_page_inj[of p q] assms(2-4) unfolding live_def by linarith
  moreover have "\<forall>x \<in> page_nums (k_mem s) (ptab s p). k_pageinfo s x = fresh_page p"
    "\<forall>x \<in> page_nums (k_mem s) (ptab s q). k_pageinfo s x = fresh_page q"
    using kinvD(5)[OF assms(1,2)] kinvD(5)[OF assms(1,3)] by (simp_all add: kinv_table_def)
  ultimately show ?thesis by (metis disjoint_iff)
qed

lemma free_not_used:
  assumes "pn \<in> free_pages s"
  shows "pi_refcount (k_pageinfo s pn) = 0" "0 < pn" "pn < NPAGES"
  using assms by (simp_all add: free_pages_def)

section \<open>Mapping a fresh page\<close>

definition with_page :: "int \<Rightarrow> nat \<Rightarrow> int \<Rightarrow> 64 word \<Rightarrow> kernel_state \<Rightarrow> kernel_state" where
  "with_page pid v pn e s =
     set_pageinfo pn (fresh_page pid) (s\<lparr>k_mem := put_slot (k_mem s) (ptab s pid) v e\<rparr>)"

lemma with_page_simps:
  "k_processes (with_page pid v pn e s) = k_processes s"
  "k_pageinfo (with_page pid v pn e s) = (k_pageinfo s)(pn := fresh_page pid)"
  "k_mem (with_page pid v pn e s) = put_slot (k_mem s) (ptab s pid) v e"
  "k_current (with_page pid v pn e s) = k_current s"
  "live (with_page pid v pn e s) q = live s q"
  by (simp_all add: with_page_def live_def)

lemma with_page_tables:
  fixes e :: "64 word"
  assumes "kinv syms s" "live s pid" "v < 1024"
  defines "m \<equiv> put_slot (k_mem s) (ptab s pid) v e"
  shows "live s q \<Longrightarrow> pt_wf m (ptab s q)" "live s q \<Longrightarrow> page_nums m (ptab s q) = page_nums (k_mem s) (ptab s q)"
    "live s q \<Longrightarrow> slots m (ptab s q) = (if q = pid then (slot_of s q)(v := e) else slot_of s q)"
    "pt_wf m (sym_kernel_pagetables syms)"
    "pt_pages m (sym_kernel_pagetables syms) = pt_pages (k_mem s) (sym_kernel_pagetables syms)"
    "slots m (sym_kernel_pagetables syms) = slots (k_mem s) (sym_kernel_pagetables syms)"
proof -
  have wf: "pt_wf (k_mem s) (ptab s q)" if "live s q" for q using kinvD(5)[OF assms(1) that] by (simp add: kinv_table_def)
  note self = put_slot_self[OF wf[OF assms(2)] assms(3), of e, folded m_def]
  have other: "pt_wf m pt \<and> slots m pt = slots (k_mem s) pt \<and> pt_pages m pt = pt_pages (k_mem s) pt"
    if "pt_wf (k_mem s) pt" "page_nums (k_mem s) (ptab s pid) \<inter> page_nums (k_mem s) pt = {}" for pt
    unfolding m_def by (rule pt.put_other[OF wf[OF assms(2)] assms(3) that(1) pages_disjointI[OF that(2)]])
  have o: "pt_wf m (ptab s q) \<and> slots m (ptab s q) = slot_of s q \<and> pt_pages m (ptab s q) = pt_pages (k_mem s) (ptab s q)"
    if "live s q" "q \<noteq> pid" for q
    using other[OF wf[OF that(1)]] kinv_tables_disjoint[OF assms(1,2) that(1)] that(2) by blast
  show "pt_wf m (ptab s q)" if "live s q" using o[OF that] self(1) by (cases "q = pid") auto
  show "page_nums m (ptab s q) = page_nums (k_mem s) (ptab s q)" if "live s q"
    using o[OF that] self(2) by (cases "q = pid") (auto simp: page_nums_def)
  show "slots m (ptab s q) = (if q = pid then (slot_of s q)(v := e) else slot_of s q)" if "live s q"
    using o[OF that] self(3) by auto
  have "pt_wf (k_mem s) (sym_kernel_pagetables syms)"
    using kinvD(2)[OF assms(1)] by (simp add: kinv_kernel_def Let_def)
  from other[OF this kinv_not_kernel_table(1)[OF assms(1,2)]]
  show "pt_wf m (sym_kernel_pagetables syms)"
    "pt_pages m (sym_kernel_pagetables syms) = pt_pages (k_mem s) (sym_kernel_pagetables syms)"
    "slots m (sym_kernel_pagetables syms) = slots (k_mem s) (sym_kernel_pagetables syms)" by simp_all
qed

lemma user_slot_with_page:
  assumes "kinv syms s" "live s pid" "v < 1024" "256 \<le> v" "live s q" "user_slot (with_page pid v pn e s) q w pn'"
  shows "q = pid \<and> w = v \<and> e AND PTE_P \<noteq> 0 \<and> PAGENUMBER (PTE_ADDR e) = pn' \<or>
    \<not> (q = pid \<and> w = v) \<and> user_slot s q w pn' \<and> slot_of (with_page pid v pn e s) q w = slot_of s q w"
  using assms(6) with_page_tables(3)[OF assms(1-3,5), where e = e]
  by (auto simp: user_slot_def with_page_simps split: if_splits)

lemma used_page_nums:
  assumes "kinv syms s" "live s q" "x \<in> page_nums (k_mem s) (ptab s q)"
  shows "pi_refcount (k_pageinfo s x) \<noteq> 0"
  using kinvD(5)[OF assms(1,2)] assms(3) by (auto simp: kinv_table_def fresh_page_def)

lemma kinv_with_page:
  assumes inv: "kinv syms s" and l: "live s pid" and v: "256 \<le> v" "v < 1024" and pn: "pn \<in> free_pages s"
    and e: "e AND PTE_P \<noteq> 0" "PTE_ADDR e = PAGEADDRESS pn"
  shows "kinv syms (with_page pid v pn e s)"
proof -
  let ?s = "with_page pid v pn e s"
  note fr = free_not_used[OF pn]
  note pa = PAGEADDRESS_usable[OF fr(2,3)]
  have num: "PAGENUMBER (PTE_ADDR e) = pn" using e(2) pa by simp
  note tb = with_page_tables[OF inv l v(2), where e = e]
  have used: "x \<noteq> pn" if "pi_refcount (k_pageinfo s x) \<noteq> 0" for x using that fr by auto
  have free_tab: "pn \<notin> page_nums (k_mem s) (ptab s q)" if "live s q" for q using used_page_nums[OF inv that] used by blast
  have upn: "pn' \<noteq> pn" if "live s q" "user_slot s q w pn'" for q w pn'
    using kinvD(6)[OF inv that(1)] that(2) used by (auto simp: kinv_user_def)
  have "kinv_procs ?s" using kinvD(1)[OF inv] by (simp add: kinv_procs_def with_page_simps)
  moreover have "kinv_kernel syms ?s"
    using kinvD(2)[OF inv] tb(4-6) fr(1)
    by (auto simp: kinv_kernel_def Let_def with_page_simps page_nums_def low_identity_def kernel_only_def)
  moreover have "kinv_info ?s"
    using kinvD(3)[OF inv] l sint_fresh[of pid] kinv_live_range[OF l] fr(1)
    by (auto simp: kinv_info_def with_page_simps)
  moreover have "kinv_excl ?s"
    unfolding kinv_excl_def with_page_simps(5)
  proof (intro allI impI)
    fix p q x w pn'
    assume h: "live s p" "live s q" "user_slot ?s p x pn'" "user_slot ?s q w pn'" "p = q \<or> slot_of ?s p x AND PTE_W \<noteq> 0"
    from user_slot_with_page[OF inv l v(2,1) h(1,3)] user_slot_with_page[OF inv l v(2,1) h(2,4)]
    show "p = q \<and> x = w"
      using num upn h kinvD(4)[OF inv] unfolding kinv_excl_def by metis
  qed
  moreover have "kinv_table ?s q" if "live s q" for q
    using kinvD(5)[OF inv that] tb(1-3)[OF that] v(1) free_tab[OF that]
    by (auto simp: kinv_table_def with_page_simps low_identity_def kernel_only_def)
  moreover have "kinv_user ?s q" if lq: "live s q" for q
    unfolding kinv_user_def with_page_simps(5)
  proof (intro allI impI)
    fix w pn' assume us: "user_slot ?s q w pn'"
    have tabs: "pn' \<notin> page_nums (k_mem s) (ptab s r) \<Longrightarrow> live s r \<Longrightarrow> pn' \<notin> page_nums (k_mem ?s) (ptab ?s r)" for r
      using tb(2)[of r] by (simp add: with_page_simps)
    show "PTE_ADDR (slot_of ?s q w) < MEMSIZE_PHYSICAL \<and> pi_refcount (k_pageinfo ?s pn') \<noteq> 0 \<and>
        1 \<le> sint (pi_owner (k_pageinfo ?s pn')) \<and> sint (pi_owner (k_pageinfo ?s pn')) < NPROC \<and>
        (slot_of ?s q w AND PTE_W \<noteq> 0 \<longrightarrow> k_pageinfo ?s pn' = fresh_page q) \<and>
        (\<forall>r. live s r \<longrightarrow> pn' \<notin> page_nums (k_mem ?s) (ptab ?s r))"
    proof (cases "q = pid \<and> w = v")
      case True
      then have n: "pn' = pn" using user_slot_with_page[OF inv l v(2,1) lq us] num by auto
      have "slot_of ?s q w = e" using True tb(3)[OF lq] by (simp add: with_page_simps)
      then show ?thesis
        using n e(2) pa l sint_fresh[of pid] True free_tab tabs
        by (auto simp: with_page_simps live_def fresh_page_def)
    next
      case False
      then have o: "user_slot s q w pn'" "slot_of ?s q w = slot_of s q w"
        using user_slot_with_page[OF inv l v(2,1) lq us] by auto
      have "k_pageinfo ?s pn' = k_pageinfo s pn'" using upn[OF lq o(1)] by (simp add: with_page_simps)
      then show ?thesis using kinvD(6)[OF inv lq] o tabs unfolding kinv_user_def by simp
    qed
  qed
  ultimately show ?thesis by (simp add: kinv_def with_page_simps(5))
qed

lemma kinv_take_page:
  assumes "kinv syms s" "live s pid" "pn \<in> free_pages s"
  shows "kinv syms (set_pageinfo pn (fresh_page pid) s)"
  using free_not_used[OF assms(3)] assms(2) sint_fresh[of pid] kinv_live_range[OF assms(2)]
  by (intro kinv_frame_info[OF assms(1)]) (auto split: if_splits)

section \<open>Running and scheduling\<close>

lemma kinv_switch:
  "kinv syms s \<Longrightarrow> kinv syms (s\<lparr>k_current := pid, k_cr3 := c\<rparr>)"
  "kinv syms s \<Longrightarrow> kinv syms (s\<lparr>k_cr3 := c\<rparr>)"
  "kinv syms s \<Longrightarrow> kinv syms (s\<lparr>k_ticks := t\<rparr>)"
  "kinv syms s \<Longrightarrow> kinv syms (s\<lparr>k_disp_global := d\<rparr>)"
  by (erule kinv_frame; simp)+

lemma kinv_upd_regs: "kinv syms s \<Longrightarrow> kinv syms (upd_regs pid f s)"
  by (erule kinv_frame) simp_all

lemma run_ok:
  assumes "syms_ok syms" "kinv syms s" "1 \<le> pid" "pid < NPROC" "p_state (k_processes s pid) = P_RUNNABLE"
  shows "run syms pid s = Inr (Resumed (s\<lparr>k_current := pid, k_cr3 := ptab s pid\<rparr>))"
proof -
  have "live s pid" using assms(3-5) by (simp add: live_def)
  from set_pagetable_process[OF assms(1,2) this] assms(5) show ?thesis by (simp add: run_def)
qed

definition quiet :: "int \<Rightarrow> bool" where
  "quiet c \<longleftrightarrow> c \<notin> {of_char CHR ''a'', of_char CHR ''f'', of_char CHR ''e'', of_char CHR ''t'', of_char CHR ''2'', 3, of_char CHR ''q''}"

lemma check_keyboard_quiet: "quiet c \<Longrightarrow> check_keyboard c s = (No_action, s)"
  by (simp add: quiet_def check_keyboard_def)

lemma runnable_range:
  assumes "kinv syms s" "0 \<le> pid" "pid < NPROC" "p_state (k_processes s pid) = P_RUNNABLE"
  shows "1 \<le> pid"
proof (rule ccontr)
  assume "\<not> 1 \<le> pid"
  with assms(2) have "pid = 0" by simp
  with assms(1,4) show False using kinvD(1)[OF assms(1)] by (simp add: kinv_procs_def)
qed

lemma schedule_loop_safe:
  assumes "syms_ok syms" "kinv syms s"
  shows "\<exists>out. schedule_loop keys syms pid s = Inr out"
proof (induction keys arbitrary: pid)
  case Nil
  then show ?case
    using run_ok[OF assms] runnable_range[OF assms(2), of "(pid + 1) mod NPROC"] by (auto simp: Let_def)
next
  case (Cons c cs)
  have "check_keyboard c s = (No_action, s) \<or> fst (check_keyboard c s) \<noteq> No_action"
    by (simp add: check_keyboard_def Let_def)
  with Cons.IH show ?case
    using run_ok[OF assms] runnable_range[OF assms(2), of "(pid + 1) mod NPROC"]
    by (auto simp: Let_def split: prod.splits keyboard_action.splits)
qed

text \<open>The processes in the order the scheduler looks at them, from the one after \<open>pid\<close>.\<close>

lemma schedule_loop_runs:
  assumes "syms_ok syms" "kinv syms s" "\<forall>c \<in> set keys. quiet c" "0 \<le> pid"
    and "k \<le> length keys" "p_state (k_processes s ((pid + 1 + int k) mod NPROC)) = P_RUNNABLE"
    and "\<forall>j < k. p_state (k_processes s ((pid + 1 + int j) mod NPROC)) \<noteq> P_RUNNABLE"
  shows "schedule_loop keys syms pid s = run syms ((pid + 1 + int k) mod NPROC) s"
  using assms(3-7)
proof (induction keys arbitrary: pid k)
  case Nil
  then show ?case by (simp add: Let_def)
next
  case (Cons c cs)
  show ?case
  proof (cases k)
    case 0
    with Cons.prems show ?thesis by (simp add: Let_def)
  next
    case (Suc k')
    let ?pid = "(pid + 1) mod NPROC"
    have shift: "(?pid + 1 + int j) mod NPROC = (pid + 1 + int (Suc j)) mod NPROC" for j
      using mod_add_left_eq[of "pid + 1" NPROC "1 + int j"] by (simp add: algebra_simps)
    have "p_state (k_processes s ?pid) \<noteq> P_RUNNABLE" using Cons.prems(5) Suc by fastforce
    moreover have "schedule_loop cs syms ?pid s = run syms ((?pid + 1 + int k') mod NPROC) s"
      by (rule Cons.IH) (use Cons.prems Suc in \<open>auto simp del: of_nat_Suc simp: shift\<close>)
    ultimately show ?thesis
      using Cons.prems(1) check_keyboard_quiet[of c s] unfolding Suc shift by (simp add: Let_def del: of_nat_Suc)
  qed
qed

end
