(* ===== verification/Kernel_Safety.thy ===== *)
theory Kernel_Safety
  imports Kernel_Invariant
begin

text \<open>
  The kernel runs safely from an invariant state. The memory viewer draws on the console only;
  the checks that open every exception pass; and each handler that the invariant allows returns to
  a process in a state where the invariant holds again.
\<close>

unbundle bit_operations_syntax

section \<open>Drawing\<close>

lemma fill_numbuf_some: "base \<in> {10, 16, -16} \<Longrightarrow> \<exists>ds. fill_numbuf w base = Some ds"
proof -
  assume b: "base \<in> {10, 16, -16}"
  have "\<exists>ds. fill_loop digits k (unat w) [] = Some ds" if "2 \<le> k" for digits k
    using fill_loop_digits[OF that, of digits "unat w" "[]"] by blast
  with b show ?thesis by (auto simp: fill_numbuf_def)
qed

lemma printf_hex: "\<exists>out. printf_output color ''0x%06X '' [VNum w] = Some out"
proof -
  obtain ds where "fill_numbuf (ucast (ucast w :: 32 word)) 16 = Some ds" using fill_numbuf_some[of 16] by blast
  then show ?thesis
    by (simp add: printf_output_def parse_directive_def flag_of_def is_digit_def convert_unsigned_def)
qed

lemma printf_title: "\<exists>out. printf_output color ''PHYSICAL MEMORY'' [] = Some out"
  by (simp add: printf_output_def)

lemma printf_name: "\<exists>out. printf_output color ''VIRTUAL ADDRESS SPACE FOR %s'' [VStr name] = Some out"
  by (simp add: printf_output_def parse_directive_def flag_of_def is_digit_def)

lemma showing_name_some: "\<exists>name. showing_name showing = Some name"
proof -
  have "\<exists>ds. fill_numbuf x 10 = Some ds" for x using fill_numbuf_some[of 10] by blast
  then obtain ds where "fill_numbuf (word_of_int (if va_int (word_of_int showing) < 0 then - va_int (word_of_int showing)
      else va_int (word_of_int showing))) 10 = Some ds" by blast
  then show ?thesis
    by (simp add: showing_name_def printf_output_def parse_directive_def flag_of_def is_digit_def split: if_splits)
qed

lemma console_printf_ok:
  assumes "\<exists>out. printf_output color fmt val = Some out"
  obtains c m' where "console_printf cpos color fmt val m = Inr (c, m')" "\<And>Q. Q \<noteq> CONSOLE_ADDR \<Longrightarrow> same_page m m' Q"
proof -
  obtain c m' where r: "console_vprintf cpos color fmt val m = Some (c, m')"
    using assms console_vprintf_defined by (metis surj_pair)
  then show thesis using that[of c m'] console_vprintf_page[OF r] by (simp add: console_printf_def)
qed

text \<open>What drawing preserves: every page but the console's.\<close>

definition drawn :: "memory \<Rightarrow> memory \<Rightarrow> bool" where
  "drawn m m' \<longleftrightarrow> (\<forall>Q. Q \<noteq> CONSOLE_ADDR \<longrightarrow> same_page m m' Q)"

lemma drawn_refl: "drawn m m"
  by (simp add: drawn_def)

lemma drawn_trans: "drawn m m' \<Longrightarrow> drawn m' m'' \<Longrightarrow> drawn m m''"
  unfolding drawn_def by (blast intro: same_page_trans)

lemma drawn_set: "0 \<le> i \<Longrightarrow> i < 2000 \<Longrightarrow> drawn m (console_set m i c)"
  unfolding drawn_def by (blast intro: console_set_page)

lemma console_printf_drawn:
  assumes "\<exists>out. printf_output color fmt val = Some out"
  shows "\<exists>c m'. console_printf cpos color fmt val m = Inr (c, m') \<and> drawn m m'"
  using console_printf_ok[OF assms, of cpos m] unfolding drawn_def by metis

lemma maybe_printf_drawn:
  "\<exists>c m'. (if b then console_printf cpos 0x0F00 ''0x%06X '' [VNum w] m else Inr (0, m)) = Inr (c, m') \<and> drawn m m'"
  using console_printf_drawn[OF printf_hex] drawn_refl by simp

lemma shown_owner_range:
  assumes "kinv_info s" "0 \<le> pn" "pn < NPAGES"
  shows "\<exists>c. memstate_color (shown_owner (k_pageinfo s pn) - PO_KERNEL) = Inr c"
  using assms by (auto simp: kinv_info_def shown_owner_def memstate_color_def live_def)

lemma memshow_physical_page_ok:
  assumes "kinv_info s" "pn \<in> set [0..511]"
  shows "\<exists>m'. memshow_physical_page (k_pageinfo s) pn m = Inr m' \<and> drawn m m'"
proof -
  have pn: "0 \<le> pn" "pn < NPAGES" using assms(2) by auto
  obtain c where c: "memstate_color (shown_owner (k_pageinfo s pn) - PO_KERNEL) = Inr c"
    using shown_owner_range[OF assms(1) pn] by blast
  obtain c1 m1 where m1: "(if pn mod 64 = 0
      then console_printf (CPOS (1 + pn div 64) 3) 0x0F00 ''0x%06X '' [VNum (word_of_int (pn * 4096))] m
      else Inr (0, m)) = Inr (c1, m1)" "drawn m m1"
    using maybe_printf_drawn by blast
  have i: "0 \<le> CPOS (1 + pn div 64) (12 + pn mod 64)" "CPOS (1 + pn div 64) (12 + pn mod 64) < 2000"
    using pn by presburger+
  show ?thesis
    unfolding memshow_physical_page_def m1(1) bindR_simps c Let_def prod.case
    using drawn_trans[OF m1(2) drawn_set[OF i]] by blast
qed

lemma foldR_drawn:
  assumes "\<And>x m. x \<in> set xs \<Longrightarrow> drawn m0 m \<Longrightarrow> \<exists>m'. f x m = Inr m' \<and> drawn m m'" "drawn m0 m"
  shows "\<exists>m'. foldR f xs m = Inr m' \<and> drawn m0 m'"
proof (rule foldR_inv[where P = "drawn m0"])
  fix x m assume "x \<in> set xs" "drawn m0 m"
  with assms(1)[OF this] drawn_trans show "\<exists>m'. f x m = Inr m' \<and> drawn m0 m'" by blast
qed (fact assms(2))

lemma memshow_physical_ok:
  assumes "kinv_info s"
  shows "\<exists>m. memshow_physical s = Inr (s\<lparr>k_mem := m\<rparr>) \<and> drawn (k_mem s) m"
proof -
  obtain c m1 where m1: "console_printf (CPOS 0 32) 0x0F00 ''PHYSICAL MEMORY'' [] (k_mem s) = Inr (c, m1)" "drawn (k_mem s) m1"
    using console_printf_drawn[OF printf_title] by blast
  obtain m2 where "foldR (memshow_physical_page (k_pageinfo s)) [0..511] m1 = Inr m2" "drawn (k_mem s) m2"
    using foldR_drawn[of "[0..511]" "k_mem s"] memshow_physical_page_ok[OF assms] m1(2) by blast
  then show ?thesis unfolding memshow_physical_def m1(1) by auto
qed

lemma PTE_ADDR_vam:
  assumes "e AND PTE_P \<noteq> 0" "PTE_ADDR e < MEMSIZE_PHYSICAL" "page_aligned va"
  shows "vam_pn (vam_of e va) = PAGENUMBER (PTE_ADDR e)" "vam_pa (vam_of e va) = PTE_ADDR e"
proof -
  show "vam_pa (vam_of e va) = PTE_ADDR e" using assms by (simp add: vam_of_def)
  have "unat e = unat (PTE_ADDR e) + unat (PAGEOFFSET e)"
    by (simp add: PTE_ADDR_nat PAGEOFFSET_nat mod_less_eq_dividend)
  moreover have "unat (PTE_ADDR e) < 0x200000" using assms(2) by (simp add: word_less_nat_alt)
  moreover have "unat (PAGEOFFSET e) < 4096" by (simp add: PAGEOFFSET_nat)
  ultimately have e: "unat e < 2 ^ 43" by simp
  have "unat (PTE_ADDR e) div 4096 = unat e div 4096"
    by (simp add: PTE_ADDR_nat minus_mod_eq_mult_div)
  moreover have "unat (PTE_ADDR e) < 2 ^ 43" using \<open>unat (PTE_ADDR e) < 0x200000\<close> by simp
  ultimately have "PAGENUMBER e = PAGENUMBER (PTE_ADDR e)" using e by (simp add: PAGENUMBER_nat)
  then show "vam_pn (vam_of e va) = PAGENUMBER (PTE_ADDR e)" using assms(1) by (simp add: vam_of_def)
qed

lemma kinv_slot_phys:
  assumes "kinv syms s" "live s pid" "v < 1024" "slot_of s pid v AND PTE_P \<noteq> 0"
  shows "PTE_ADDR (slot_of s pid v) < MEMSIZE_PHYSICAL"
proof (cases "v < 256")
  case True
  then have "PTE_ADDR (slot_of s pid v) = of_nat v * PAGESIZE"
    using kinvD(5)[OF assms(1,2)] by (simp add: kinv_table_def low_identity_def)
  moreover have "unat (of_nat v * PAGESIZE) = 4096 * v" using True by (intro size_args) simp
  ultimately show ?thesis using True by (simp add: word_less_nat_alt)
next
  case False
  then have "user_slot s pid v (PAGENUMBER (PTE_ADDR (slot_of s pid v)))" using assms(3,4) by (simp add: user_slot_def)
  with kinvD(6)[OF assms(1,2)] show ?thesis unfolding kinv_user_def by blast
qed

lemma drawn_lookup:
  assumes "kinv syms s" "live s pid" "drawn (k_mem s) m"
  shows "virtual_memory_lookup m (ptab s pid) va = vam_of (slot_of s pid (vpn va)) va"
proof -
  have wf: "pt_wf (k_mem s) (ptab s pid)" using kinvD(5)[OF assms(1,2)] by (simp add: kinv_table_def)
  have "\<forall>P \<in> set (pt_pages (k_mem s) (ptab s pid)). same_page (k_mem s) m P"
  proof
    fix P assume "P \<in> set (pt_pages (k_mem s) (ptab s pid))"
    then have "P \<in> table_pages syms s" using assms(2) by (auto simp: table_pages_def)
    then have "P \<noteq> CONSOLE_ADDR" using table_pages_info(5)[OF assms(1)] by blast
    with assms(3) show "same_page (k_mem s) m P" by (simp add: drawn_def)
  qed
  from same_tables[OF wf this] show ?thesis by (simp add: lookup_slots)
qed

lemma virtual_color_some:
  assumes "0 \<le> vam_pn vam" "vam_pa vam < MEMSIZE_PHYSICAL"
    and "memstate_color (shown_owner (pinfo (vam_pn vam)) - PO_KERNEL) = Inr c"
  shows "\<exists>c'. virtual_color pinfo vam va = Inr c'"
  using assms by (simp add: virtual_color_def Let_def)

lemma virtual_color_ok:
  assumes "kinv syms s" "live s pid" "page_aligned va" "vpn va < 1024"
  shows "\<exists>c. virtual_color (k_pageinfo s) (vam_of (slot_of s pid (vpn va)) va) va = Inr c"
proof (cases "slot_of s pid (vpn va) AND PTE_P = 0")
  case True
  then show ?thesis by (simp add: virtual_color_def vam_of_def)
next
  case False
  note ph = kinv_slot_phys[OF assms(1,2,4) False]
  note vam = PTE_ADDR_vam[OF False ph assms(3)]
  note pn = PAGENUMBER_phys(2,3)[OF ph]
  obtain c where "memstate_color (shown_owner (k_pageinfo s (PAGENUMBER (PTE_ADDR (slot_of s pid (vpn va))))) - PO_KERNEL) = Inr c"
    using shown_owner_range[OF kinvD(3)[OF assms(1)] pn(2,1)] by blast
  then show ?thesis using ph pn(2) by (intro virtual_color_some) (simp_all only: vam)
qed

lemma viewer_cell:
  fixes n :: int
  assumes "0 \<le> n" "n < 768"
  shows "0 \<le> CPOS (11 + n div 64) (12 + n mod 64)" "CPOS (11 + n div 64) (12 + n mod 64) < 2000"
  using assms by presburger+

lemma memshow_virtual_page_ok:
  assumes "kinv syms s" "live s pid" "va \<in> set (page_addrs 0 MEMSIZE_VIRTUAL)" "drawn (k_mem s) m"
  shows "\<exists>m'. memshow_virtual_page (k_pageinfo s) (ptab s pid) va m = Inr m' \<and> drawn m m'"
proof -
  obtain i where "unat va = unat (0 :: 64 word) + 4096 * i" "unat va < unat MEMSIZE_VIRTUAL"
    by (rule page_addrs_nat[OF assms(3)])
  then have i: "unat va = 4096 * i" "i < 768" by simp_all
  then have pn: "PAGENUMBER va = int i" "page_aligned va" "vpn va < 1024"
    by (simp_all add: PAGENUMBER_nat page_aligned_nat vpn_low)
  obtain c where c: "virtual_color (k_pageinfo s) (virtual_memory_lookup m (ptab s pid) va) va = Inr c"
    unfolding drawn_lookup[OF assms(1,2,4)] using virtual_color_ok[OF assms(1,2) pn(2,3)] by blast
  obtain c1 m1 where m1: "(if int i mod 64 = 0
      then console_printf (CPOS (11 + int i div 64) 3) 0x0F00 ''0x%06X '' [VNum va] m else Inr (0, m)) = Inr (c1, m1)" "drawn m m1"
    using maybe_printf_drawn by blast
  show ?thesis
    unfolding memshow_virtual_page_def c bindR_simps pn(1) Let_def m1(1) prod.case
    using drawn_trans[OF m1(2) drawn_set[OF viewer_cell[of "int i"]]] i(2) by simp
qed

lemma memshow_virtual_ok:
  assumes "kinv syms s" "live s pid"
  shows "\<exists>m. memshow_virtual (ptab s pid) name s = Inr (s\<lparr>k_mem := m\<rparr>) \<and> drawn (k_mem s) m"
proof -
  obtain c m1 where m1: "console_printf (CPOS 10 26) 0x0F00 ''VIRTUAL ADDRESS SPACE FOR %s'' [VStr name] (k_mem s) = Inr (c, m1)"
      "drawn (k_mem s) m1"
    using console_printf_drawn[OF printf_name] by blast
  obtain m2 where "foldR (memshow_virtual_page (k_pageinfo s) (ptab s pid)) (page_addrs 0 MEMSIZE_VIRTUAL) m1 = Inr m2"
      "drawn (k_mem s) m2"
    using foldR_drawn[of "page_addrs 0 MEMSIZE_VIRTUAL" "k_mem s" "memshow_virtual_page (k_pageinfo s) (ptab s pid)" m1]
      memshow_virtual_page_ok[OF assms] m1(2) by blast
  moreover have "PTE_ADDR (ptab s pid) = ptab s pid"
    using kinvD(5)[OF assms] pt_wf_aligned(1) PTE_ADDR_self by (auto simp: kinv_table_def)
  ultimately show ?thesis unfolding memshow_virtual_def m1(1) by auto
qed

lemma kinv_drawn: "kinv syms s \<Longrightarrow> drawn (k_mem s) m \<Longrightarrow> kinv syms (s\<lparr>k_mem := m\<rparr>)"
  by (rule kinv_console) (auto simp: drawn_def)

lemma kinv_viewer: "kinv syms s \<Longrightarrow> kinv syms (s\<lparr>k_last_ticks := t, k_showing := i\<rparr>)"
  by (erule kinv_frame) simp_all

lemma memshow_virtual_animate_ok:
  assumes "kinv syms s"
  shows "\<exists>m t i. memshow_virtual_animate s = Inr (s\<lparr>k_mem := m, k_last_ticks := t, k_showing := i\<rparr>) \<and> drawn (k_mem s) m"
proof -
  define s1 where "s1 = (if k_last_ticks s = 0 \<or> k_ticks s - k_last_ticks s \<ge> 100 div 2
    then s\<lparr>k_last_ticks := k_ticks s, k_showing := k_showing s + 1\<rparr> else s)"
  define i where "i = next_showing (k_processes s1) (k_showing s1) mod NPROC"
  have s2: "s1\<lparr>k_showing := i\<rparr> = s\<lparr>k_last_ticks := k_last_ticks s1, k_showing := i\<rparr>"
    by (simp add: s1_def)
  let ?s2 = "s\<lparr>k_last_ticks := k_last_ticks s1, k_showing := i\<rparr>"
  have inv: "kinv syms ?s2" by (rule kinv_viewer[OF assms])
  have run: "memshow_virtual_animate s =
      (if p_state (k_processes ?s2 i) \<noteq> P_FREE then
         (case showing_name i of None \<Rightarrow> Inl Undefined_behaviour
          | Some name \<Rightarrow> memshow_virtual (ptab ?s2 i) name ?s2) else Inr ?s2)"
    unfolding memshow_virtual_animate_def Let_def s1_def[symmetric] i_def[symmetric] s2 ..
  show ?thesis
  proof (cases "p_state (k_processes ?s2 i) = P_FREE")
    case True
    then show ?thesis unfolding run using drawn_refl
      by (intro exI[of _ "k_mem s"] exI[of _ "k_last_ticks s1"] exI[of _ i]) simp
  next
    case False
    have "0 \<le> i" "i < NPROC" by (simp_all add: i_def)
    with False have "live ?s2 i" using kinvD(1)[OF inv] by (cases "i = 0") (auto simp: live_def kinv_procs_def)
    moreover obtain name where "showing_name i = Some name" using showing_name_some by blast
    ultimately obtain m where "memshow_virtual_animate s = Inr (?s2\<lparr>k_mem := m\<rparr>)" "drawn (k_mem ?s2) m"
      using memshow_virtual_ok[OF inv] False unfolding run by auto
    then show ?thesis
      by (intro exI[of _ m] exI[of _ "k_last_ticks s1"] exI[of _ i]) simp
  qed
qed

text \<open>
  The checks and the drawing at the start of \<open>exception\<close>. What they may change: the console and
  the variables of the animation.
\<close>

definition viewed :: "kernel_state \<Rightarrow> kernel_state \<Rightarrow> bool" where
  "viewed s s' \<longleftrightarrow> (\<exists>m t i. s' = s\<lparr>k_mem := m, k_last_ticks := t, k_showing := i\<rparr> \<and> drawn (k_mem s) m)"

lemma viewed_refl: "viewed s s"
  unfolding viewed_def by (intro exI[of _ "k_mem s"] exI[of _ "k_last_ticks s"] exI[of _ "k_showing s"]) (simp add: drawn_refl)

lemma viewed_simps:
  assumes "viewed s s'"
  shows "k_processes s' = k_processes s" "k_pageinfo s' = k_pageinfo s" "k_current s' = k_current s"
    "k_cr3 s' = k_cr3 s" "k_ticks s' = k_ticks s" "k_disp_global s' = k_disp_global s" "drawn (k_mem s) (k_mem s')"
  using assms by (auto simp: viewed_def)

lemma kinv_viewed: "kinv syms s \<Longrightarrow> viewed s s' \<Longrightarrow> kinv syms s'"
proof -
  assume inv: "kinv syms s" and "viewed s s'"
  then obtain m t i where s': "s' = s\<lparr>k_mem := m\<rparr>\<lparr>k_last_ticks := t, k_showing := i\<rparr>" "drawn (k_mem s) m"
    by (auto simp: viewed_def)
  show ?thesis unfolding s'(1) by (rule kinv_viewer[OF kinv_drawn[OF inv s'(2)]])
qed

lemma show_memory_ok:
  assumes "syms_ok syms" "kinv syms s"
  shows "\<exists>s'. show_memory syms reg s = Inr s' \<and> viewed s s'"
proof -
  obtain m1 where m1: "memshow_physical s = Inr (s\<lparr>k_mem := m1\<rparr>)" "drawn (k_mem s) m1"
    using memshow_physical_ok[OF kinvD(3)[OF assms(2)]] by blast
  obtain m t i where "memshow_virtual_animate (s\<lparr>k_mem := m1\<rparr>) = Inr (s\<lparr>k_mem := m1\<rparr>\<lparr>k_mem := m, k_last_ticks := t, k_showing := i\<rparr>)"
      "drawn m1 m"
    using memshow_virtual_animate_ok[OF kinv_drawn[OF assms(2) m1(2)]] by auto
  then have "\<exists>s'. bindR (memshow_physical s) memshow_virtual_animate = Inr s' \<and> viewed s s'"
    unfolding m1(1) viewed_def using drawn_trans[OF m1(2)] by auto
  then show ?thesis
    using kinv_check_virtual_memory[OF assms] viewed_refl[of s] by (auto simp: show_memory_def)
qed

end
