(* ===== verification/Kernel_Handlers.thy ===== *)
theory Kernel_Handlers
  imports Kernel_Safety
begin

text \<open>
  The exception handler on states that satisfy the invariant. The first part is what every
  exception does: save the registers, check, draw, handle, and resume a process. The locale
  \<open>kernel_property\<close> carries a property of states through it, and is used for the invariant \<open>kinv\<close>
  alone and together with the page accounting that \<open>fork\<close> and \<open>exit\<close> need. The second part are the
  handlers that change no page table, and \<open>page_alloc\<close>.
\<close>

unbundle bit_operations_syntax

section \<open>Page accounting\<close>

text \<open>
  \<open>accounted\<close> adds to the invariant what \<open>fork\<close> and \<open>exit\<close> rely on: user mappings lie below
  \<open>MEMSIZE_VIRTUAL\<close>, the reference count of a mapped page is the number of processes that map it, and
  a process can reach every page it owns, through its page table or as a page of that table.
\<close>

definition sharers :: "kernel_state \<Rightarrow> int \<Rightarrow> int set" where
  "sharers s pn = {q. live s q \<and> (\<exists>v. user_slot s q v pn)}"

definition accounted :: "kernel_state \<Rightarrow> bool" where
  "accounted s \<longleftrightarrow>
     (\<forall>p v pn. live s p \<longrightarrow> user_slot s p v pn \<longrightarrow>
        v < 768 \<and> unat (pi_refcount (k_pageinfo s pn)) = card (sharers s pn)) \<and>
     (\<forall>pn. 0 \<le> pn \<and> pn < NPAGES \<and> pi_refcount (k_pageinfo s pn) \<noteq> 0 \<and> 1 \<le> sint (pi_owner (k_pageinfo s pn)) \<longrightarrow>
        pn \<in> page_nums (k_mem s) (ptab s (sint (pi_owner (k_pageinfo s pn)))) \<or>
        (\<exists>v. user_slot s (sint (pi_owner (k_pageinfo s pn))) v pn))"

definition healthy :: "link_symbols \<Rightarrow> kernel_state \<Rightarrow> bool" where
  "healthy syms s \<longleftrightarrow> kinv syms s \<and> accounted s"

lemma accountedD:
  assumes "accounted s"
  shows "live s p \<Longrightarrow> user_slot s p v pn \<Longrightarrow> v < 768"
    "live s p \<Longrightarrow> user_slot s p v pn \<Longrightarrow> unat (pi_refcount (k_pageinfo s pn)) = card (sharers s pn)"
    "0 \<le> pn \<Longrightarrow> pn < NPAGES \<Longrightarrow> pi_refcount (k_pageinfo s pn) \<noteq> 0 \<Longrightarrow> sint (pi_owner (k_pageinfo s pn)) = own \<Longrightarrow> 1 \<le> own \<Longrightarrow>
      pn \<in> page_nums (k_mem s) (ptab s own) \<or> (\<exists>v. user_slot s own v pn)"
  using assms unfolding accounted_def by blast+

section \<open>Steps that leave memory management alone\<close>

definition framed :: "link_symbols \<Rightarrow> kernel_state \<Rightarrow> kernel_state \<Rightarrow> bool" where
  "framed syms s s' \<longleftrightarrow>
     (\<forall>pid. 0 \<le> pid \<longrightarrow> pid < NPROC \<longrightarrow>
        (p_state (k_processes s' pid) = P_FREE) = (p_state (k_processes s pid) = P_FREE) \<and>
        p_pid (k_processes s' pid) = p_pid (k_processes s pid) \<and> ptab s' pid = ptab s pid) \<and>
     k_pageinfo s' = k_pageinfo s \<and>
     (\<forall>P \<in> table_pages syms s. same_page (k_mem s) (k_mem s') P)"

lemma framed_kinv: "kinv syms s \<Longrightarrow> framed syms s s' \<Longrightarrow> kinv syms s'"
  unfolding framed_def by (erule kinv_frame) blast+

lemma framed_live: "framed syms s s' \<Longrightarrow> live s' pid = live s pid"
  by (auto simp: framed_def live_def)

lemma framed_views:
  assumes "kinv syms s" "framed syms s s'" "live s pid"
  shows "ptab s' pid = ptab s pid" "slot_of s' pid = slot_of s pid"
    "pt_pages (k_mem s') (ptab s' pid) = pt_pages (k_mem s) (ptab s pid)"
    "page_nums (k_mem s') (ptab s' pid) = page_nums (k_mem s) (ptab s pid)"
    "user_slot s' pid = user_slot s pid"
proof -
  show pt: "ptab s' pid = ptab s pid" using assms(2) kinv_live_range[OF assms(3)] by (simp add: framed_def)
  have wf: "pt_wf (k_mem s) (ptab s pid)" using kinvD(5)[OF assms(1,3)] by (simp add: kinv_table_def)
  have "\<forall>P \<in> set (pt_pages (k_mem s) (ptab s pid)). same_page (k_mem s) (k_mem s') P"
    using assms(2,3) by (auto simp: framed_def table_pages_def)
  note t = same_tables[OF wf this]
  show "slot_of s' pid = slot_of s pid" "pt_pages (k_mem s') (ptab s' pid) = pt_pages (k_mem s) (ptab s pid)"
    "page_nums (k_mem s') (ptab s' pid) = page_nums (k_mem s) (ptab s pid)" unfolding pt by (fact t)+
  then show "user_slot s' pid = user_slot s pid" by (intro ext) (simp add: user_slot_def)
qed

lemma framed_sharers:
  assumes "kinv syms s" "framed syms s s'"
  shows "sharers s' pn = sharers s pn"
  using framed_views(5)[OF assms] framed_live[OF assms(2)] unfolding sharers_def by (metis (no_types, lifting))

lemma framed_accounted:
  assumes "kinv syms s" "framed syms s s'" "accounted s"
  shows "accounted s'"
proof -
  have i: "k_pageinfo s' = k_pageinfo s" using assms(2) by (simp add: framed_def)
  note v = framed_views[OF assms(1,2)] framed_live[OF assms(2)] framed_sharers[OF assms(1,2)]
  have own: "live s (sint (pi_owner (k_pageinfo s pn)))"
    if "0 \<le> pn" "pn < NPAGES" "pi_refcount (k_pageinfo s pn) \<noteq> 0" "1 \<le> sint (pi_owner (k_pageinfo s pn))" for pn
    using kinvD(3)[OF assms(1)] that by (fastforce simp: kinv_info_def)
  show ?thesis
    unfolding accounted_def i v(6,7)
  proof (intro conjI allI impI)
    fix p x pn assume h: "live s p" "user_slot s' p x pn"
    then have us: "user_slot s p x pn" by (simp add: v(5))
    show "x < 768" "unat (pi_refcount (k_pageinfo s pn)) = card (sharers s pn)"
      by (fact accountedD(1)[OF assms(3) h(1) us] accountedD(2)[OF assms(3) h(1) us])+
  next
    fix pn
    assume h: "0 \<le> pn \<and> pn < NPAGES \<and> pi_refcount (k_pageinfo s pn) \<noteq> 0 \<and> 1 \<le> sint (pi_owner (k_pageinfo s pn))"
    then have "live s (sint (pi_owner (k_pageinfo s pn)))" using own by blast
    with h accountedD(3)[OF assms(3), of pn] v(4,5)
    show "pn \<in> page_nums (k_mem s') (ptab s' (sint (pi_owner (k_pageinfo s pn)))) \<or>
      (\<exists>v. user_slot s' (sint (pi_owner (k_pageinfo s pn))) v pn)" by auto
  qed
qed

lemma framed_healthy: "healthy syms s \<Longrightarrow> framed syms s s' \<Longrightarrow> healthy syms s'"
  using framed_kinv framed_accounted unfolding healthy_def by blast

lemma framed_refl: "framed syms s s"
  by (simp add: framed_def)

lemma framed_trans:
  assumes "kinv syms s" "framed syms s s'" "framed syms s' s''"
  shows "framed syms s s''"
proof -
  have "table_pages syms s' = table_pages syms s"
    using framed_views(3)[OF assms(1,2)] framed_live[OF assms(2)] by (simp add: table_pages_def)
  with assms(2,3) show ?thesis unfolding framed_def by (metis same_page_trans)
qed

lemma framed_upd:
  "framed syms s (s\<lparr>k_current := pid, k_cr3 := c\<rparr>)" "framed syms s (s\<lparr>k_cr3 := c\<rparr>)"
  "framed syms s (s\<lparr>k_ticks := t\<rparr>)" "framed syms s (s\<lparr>k_disp_global := d\<rparr>)"
  "framed syms s (upd_regs pid f s)"
  "framed syms s (upd_proc pid (\<lambda>p. p\<lparr>display_status := g p\<rparr>) s)"
  by (simp_all add: framed_def)

lemma framed_viewed: "kinv syms s \<Longrightarrow> viewed s s' \<Longrightarrow> framed syms s s'"
  using table_pages_info(5)[of syms s] viewed_simps[of s s'] by (auto simp: framed_def drawn_def)

lemma framed_drawn: "kinv syms s \<Longrightarrow> drawn (k_mem s) m \<Longrightarrow> framed syms s (s\<lparr>k_mem := m\<rparr>)"
  using table_pages_info(5)[of syms s] by (auto simp: framed_def drawn_def)

section \<open>Entering and leaving the kernel\<close>

definition running :: "kernel_state \<Rightarrow> bool" where
  "running s \<longleftrightarrow> 1 \<le> k_current s \<and> k_current s < NPROC \<and> p_state (cur s) = P_RUNNABLE"

lemma running_live: "running s \<Longrightarrow> live s (k_current s)"
  by (simp add: running_def live_def)

text \<open>The state in which \<open>exception\<close> has saved the registers and switched to the kernel's page table.\<close>

definition entered :: "link_symbols \<Rightarrow> x86_64_registers \<Rightarrow> kernel_state \<Rightarrow> kernel_state" where
  "entered syms reg s = (upd_regs (k_current s) (\<lambda>_. reg) s)\<lparr>k_cr3 := sym_kernel_pagetables syms\<rparr>"

text \<open>The end of \<open>exception\<close>, after the \<open>switch\<close>.\<close>

definition conclude :: "link_symbols \<Rightarrow> int list \<Rightarrow> handled \<Rightarrow> kfault + outcome" where
  "conclude syms keys h =
     (case h of
        Done out \<Rightarrow> Inr out
      | Break s \<Rightarrow> if p_state (cur s) = P_RUNNABLE then run syms (k_current s) s else schedule syms keys s)"

lemma entered_simps [simp]:
  "k_current (entered syms reg s) = k_current s" "k_pageinfo (entered syms reg s) = k_pageinfo s"
  "k_mem (entered syms reg s) = k_mem s" "p_state (k_processes (entered syms reg s) q) = p_state (k_processes s q)"
  "ptab (entered syms reg s) q = ptab s q" "p_pid (k_processes (entered syms reg s) q) = p_pid (k_processes s q)"
  "p_registers (k_processes (entered syms reg s) (k_current s)) = reg"
  by (simp_all add: entered_def upd_regs_def)

lemma framed_entered: "framed syms s (entered syms reg s)"
  by (simp add: framed_def)

lemma exception_enters:
  assumes "syms_ok syms" "kinv syms s" "quiet key"
  shows "\<exists>s'. viewed (entered syms reg s) s' \<and> framed syms s s' \<and>
    exception syms key keys cr2 pad1 pad2 reg s =
      bindR (handle syms keys cr2 pad1 pad2 reg s') (conclude syms keys)"
proof -
  have e: "kinv syms (entered syms reg s)" by (rule framed_kinv[OF assms(2) framed_entered])
  obtain s' where s': "show_memory syms reg (entered syms reg s) = Inr s'" "viewed (entered syms reg s) s'"
    using show_memory_ok[OF assms(1) e] by blast
  have "framed syms s s'"
    by (rule framed_trans[OF assms(2) framed_entered framed_viewed[OF e s'(2)]])
  moreover have "exception syms key keys cr2 pad1 pad2 reg s =
      bindR (handle syms keys cr2 pad1 pad2 reg s') (conclude syms keys)"
    using s'(1) set_pagetable_kernel[OF assms(1,2)] check_keyboard_quiet[OF assms(3)]
    by (simp add: exception_def entered_def conclude_def[abs_def])
  ultimately show ?thesis using s'(2) by blast
qed

text \<open>The ways a call of \<open>exception\<close> may end if a property is to hold again whenever a process runs.\<close>

fun outcome_sat :: "(kernel_state \<Rightarrow> bool) \<Rightarrow> outcome \<Rightarrow> bool" where
  "outcome_sat P (Resumed s) = (P s \<and> running s \<and> k_cr3 s = ptab s (k_current s))"
| "outcome_sat P (Waiting pid s) = P s"
| "outcome_sat P (Rebooted arg s) = True"
| "outcome_sat P (Powered_off s) = True"
| "outcome_sat P (Returned s) = False"

fun handled_sat :: "(kernel_state \<Rightarrow> bool) \<Rightarrow> handled \<Rightarrow> bool" where
  "handled_sat P (Break s) = (P s \<and> 0 \<le> k_current s \<and> k_current s < NPROC)"
| "handled_sat P (Done out) = outcome_sat P out"

text \<open>
  A property of kernel states that implies the invariant and that steps which leave memory
  management alone preserve: scheduling and the end of \<open>exception\<close> preserve it.
\<close>

locale kernel_property =
  fixes syms :: link_symbols and P :: "kernel_state \<Rightarrow> bool"
  assumes inv: "P s \<Longrightarrow> kinv syms s"
    and frame: "P s \<Longrightarrow> framed syms s s' \<Longrightarrow> P s'"
begin

lemma run_keeps:
  assumes "syms_ok syms" "P s" "0 \<le> pid" "pid < NPROC" "p_state (k_processes s pid) = P_RUNNABLE"
  shows "\<exists>out. run syms pid s = Inr out \<and> outcome_sat P out"
proof -
  have pid: "1 \<le> pid" by (rule runnable_range[OF inv[OF assms(2)] assms(3-5)])
  show ?thesis
    unfolding run_ok[OF assms(1) inv[OF assms(2)] pid assms(4,5)]
    using frame[OF assms(2) framed_upd(1)[where pid = pid and c = "ptab s pid"]] assms(4,5) pid by (simp add: running_def)
qed

lemma schedule_loop_keeps:
  assumes "syms_ok syms" "P s"
  shows "\<exists>out. schedule_loop keys syms pid s = Inr out \<and> outcome_sat P out"
proof (induction keys arbitrary: pid)
  case Nil
  then show ?case
    using run_keeps[OF assms, of "(pid + 1) mod NPROC"] assms(2) by (auto simp: Let_def)
next
  case (Cons c cs)
  have "check_keyboard c s = (No_action, s) \<or> fst (check_keyboard c s) \<noteq> No_action"
    by (simp add: check_keyboard_def Let_def)
  with Cons.IH run_keeps[OF assms, of "(pid + 1) mod NPROC"] show ?case
    by (auto simp: Let_def split: prod.splits keyboard_action.splits)
qed

lemma schedule_keeps:
  "syms_ok syms \<Longrightarrow> P s \<Longrightarrow> \<exists>out. schedule syms keys s = Inr out \<and> outcome_sat P out"
  unfolding schedule_def by (rule schedule_loop_keeps)

lemma conclude_keeps:
  assumes "syms_ok syms" "handled_sat P h"
  shows "\<exists>out. conclude syms keys h = Inr out \<and> outcome_sat P out"
  using assms run_keeps[OF assms(1)] schedule_keeps[OF assms(1)]
  by (cases h) (auto simp: conclude_def)

lemma exception_keeps:
  assumes "syms_ok syms" "P s" "quiet key"
    and "\<And>s'. viewed (entered syms reg s) s' \<Longrightarrow> framed syms s s' \<Longrightarrow> P s' \<Longrightarrow>
      \<exists>h. handle syms keys cr2 pad1 pad2 reg s' = Inr h \<and> handled_sat P h"
  shows "\<exists>out. exception syms key keys cr2 pad1 pad2 reg s = Inr out \<and> outcome_sat P out"
proof -
  obtain s' where s': "viewed (entered syms reg s) s'" "framed syms s s'"
    "exception syms key keys cr2 pad1 pad2 reg s = bindR (handle syms keys cr2 pad1 pad2 reg s') (conclude syms keys)"
    using exception_enters[OF assms(1) inv[OF assms(2)] assms(3)] by blast
  with assms(4)[OF s'(1,2) frame[OF assms(2) s'(2)]] conclude_keeps[OF assms(1)] show ?thesis by auto
qed

end

interpretation base: kernel_property syms "kinv syms" for syms
  by unfold_locales (auto intro: framed_kinv)

interpretation strict: kernel_property syms "healthy syms" for syms
  by unfold_locales (simp add: healthy_def, erule (1) framed_healthy)

section \<open>User pages are not table pages\<close>

lemma user_slot_self:
  "256 \<le> v \<Longrightarrow> v < 1024 \<Longrightarrow> slot_of s pid v AND PTE_P \<noteq> 0 \<Longrightarrow> user_slot s pid v (PAGENUMBER (PTE_ADDR (slot_of s pid v)))"
  by (simp add: user_slot_def)

lemma user_page_info:
  assumes "kinv syms s" "live s pid" "user_slot s pid v pn"
  shows "PTE_ADDR (slot_of s pid v) < MEMSIZE_PHYSICAL" "pi_refcount (k_pageinfo s pn) \<noteq> 0"
    "1 \<le> sint (pi_owner (k_pageinfo s pn))" "sint (pi_owner (k_pageinfo s pn)) < NPROC"
    "slot_of s pid v AND PTE_W \<noteq> 0 \<Longrightarrow> k_pageinfo s pn = fresh_page pid"
    "live s q \<Longrightarrow> pn \<notin> page_nums (k_mem s) (ptab s q)"
    "pn \<notin> page_nums (k_mem s) (sym_kernel_pagetables syms)"
    "0 \<le> pn" "pn < NPAGES" "PAGEADDRESS pn = PTE_ADDR (slot_of s pid v)"
proof -
  note u = kinvD(6)[OF assms(1,2), unfolded kinv_user_def, rule_format, OF assms(3)]
  show phys: "PTE_ADDR (slot_of s pid v) < MEMSIZE_PHYSICAL" and "pi_refcount (k_pageinfo s pn) \<noteq> 0"
    "1 \<le> sint (pi_owner (k_pageinfo s pn))" "sint (pi_owner (k_pageinfo s pn)) < NPROC"
    "slot_of s pid v AND PTE_W \<noteq> 0 \<Longrightarrow> k_pageinfo s pn = fresh_page pid"
    "live s q \<Longrightarrow> pn \<notin> page_nums (k_mem s) (ptab s q)" using u by blast+
  show "pn \<notin> page_nums (k_mem s) (sym_kernel_pagetables syms)"
  proof
    assume "pn \<in> page_nums (k_mem s) (sym_kernel_pagetables syms)"
    then have "k_pageinfo s pn = \<lparr>pi_owner = -2, pi_refcount = 1\<rparr>"
      using kinvD(2)[OF assms(1)] by (simp add: kinv_kernel_def Let_def)
    with u show False by simp
  qed
  have pn: "pn = PAGENUMBER (PTE_ADDR (slot_of s pid v))" using assms(3) by (simp add: user_slot_def)
  show r: "0 \<le> pn" "pn < NPAGES" unfolding pn using PAGENUMBER_phys[OF phys] by auto
  have "4096 * (unat (PTE_ADDR (slot_of s pid v)) div 4096) = unat (PTE_ADDR (slot_of s pid v))"
    using PTE_ADDR_aligned[of "slot_of s pid v"] unfolding page_aligned_nat by auto
  then show "PAGEADDRESS pn = PTE_ADDR (slot_of s pid v)"
    unfolding word_unat_eq_iff using r PAGENUMBER_phys(1)[OF phys] pn by (simp add: PAGEADDRESS_nat)
qed

lemma PAGENUMBER_inj:
  assumes "page_aligned P" "page_aligned Q" "P < MEMSIZE_PHYSICAL" "Q < MEMSIZE_PHYSICAL" "PAGENUMBER P = PAGENUMBER Q"
  shows "P = Q"
proof -
  have "unat P div 4096 = unat Q div 4096"
    using assms(5) unfolding PAGENUMBER_phys(1)[OF assms(3)] PAGENUMBER_phys(1)[OF assms(4)] by simp
  moreover have "unat X = 4096 * (unat X div 4096)" if "page_aligned X" for X :: "64 word"
    using that unfolding page_aligned_nat by auto
  ultimately have "unat P = unat Q" using assms(1,2) by metis
  then show ?thesis by (simp add: word_unat_eq_iff)
qed

lemma user_page_not_table:
  assumes "kinv syms s" "live s pid" "user_slot s pid v pn"
  shows "PTE_ADDR (slot_of s pid v) \<notin> table_pages syms s"
proof
  let ?P = "PTE_ADDR (slot_of s pid v)"
  note i = user_page_info[OF assms]
  assume "?P \<in> table_pages syms s"
  then have "pn \<in> page_nums (k_mem s) (sym_kernel_pagetables syms) \<or> (\<exists>q. live s q \<and> pn \<in> page_nums (k_mem s) (ptab s q))"
    using assms(3) kinvD(2)[OF assms(1)]
    by (auto simp: table_pages_def page_nums_def user_slot_def kinv_kernel_def Let_def)
  with i(6,7) show False by blast
qed

text \<open>What a process may access in user mode: the console, and its own user pages.\<close>

lemma user_access:
  assumes "kinv syms s" "live s pid" "v < 1024" "slot_of s pid v AND PTE_P \<noteq> 0" "slot_of s pid v AND PTE_U \<noteq> 0"
  shows "PTE_ADDR (slot_of s pid v) = CONSOLE_ADDR \<and> v = 0xB8 \<or>
    user_slot s pid v (PAGENUMBER (PTE_ADDR (slot_of s pid v)))"
proof (cases "256 \<le> v")
  case True
  then show ?thesis using user_slot_self[OF True assms(3,4)] by blast
next
  case False
  then have v: "v < 256" by simp
  with kinvD(5)[OF assms(1,2)] assms(5) have "v = 0xB8" "PTE_ADDR (slot_of s pid v) = of_nat v * PAGESIZE"
    unfolding kinv_table_def kernel_only_def low_identity_def by blast+
  then show ?thesis by simp
qed

lemma user_access_not_table:
  assumes "kinv syms s" "live s pid" "v < 1024" "slot_of s pid v AND PTE_P \<noteq> 0" "slot_of s pid v AND PTE_U \<noteq> 0"
  shows "PTE_ADDR (slot_of s pid v) \<notin> table_pages syms s" "PTE_ADDR (slot_of s pid v) < MEMSIZE_PHYSICAL"
proof -
  show "PTE_ADDR (slot_of s pid v) < MEMSIZE_PHYSICAL" by (rule kinv_slot_phys[OF assms(1-4)])
  from user_access[OF assms] show "PTE_ADDR (slot_of s pid v) \<notin> table_pages syms s"
    using user_page_not_table[OF assms(1,2)] table_pages_info(5)[OF assms(1)] by metis
qed

section \<open>Handlers that change no page table\<close>

lemma diff_add_less:
  fixes x a k :: "64 word"
  assumes "unat (x - (a + k)) < n" "unat k + n < 2 ^ 64"
  shows "unat (x - a) < unat k + n"
proof -
  have "unat (k + (x - (a + k))) = unat k + unat (x - (a + k))"
    using assms by (subst unat_add_lem[symmetric]) simp
  moreover have "k + (x - (a + k)) = x - a" by simp
  ultimately show ?thesis using assms(1) by simp
qed

lemma store_vamapping_outside:
  assumes "\<not> unat (x - a) < 24"
  shows "store_vamapping m a pad1 pad2 vam x = m x"
proof -
  have "\<not> unat (x - (a + k)) < n" if "unat k + n \<le> 24" for k :: "64 word" and n
    using diff_add_less[of x a k n] that assms by auto
  from this[of 0 4] this[of 4 4] this[of 8 8] this[of 16 4] this[of 20 4]
  show ?thesis by (simp add: store_vamapping_def Let_def store_le_def)
qed

lemma store_vamapping_page:
  assumes "unat (PAGEOFFSET a) + 24 \<le> 4096" "Q \<noteq> PTE_ADDR a"
  shows "same_page m (store_vamapping m a pad1 pad2 vam) Q"
  unfolding same_page_def using assms(2) PTE_ADDR_near[OF assms(1)] store_vamapping_outside by metis

lemma phys_page_end:
  assumes "page_aligned P" "P < MEMSIZE_PHYSICAL"
  shows "unat P + 4096 \<le> 0x200000"
proof -
  define k where "k = unat P div 4096"
  have P: "unat P = 4096 * k" using assms(1) by (auto simp: page_aligned_nat k_def)
  moreover have "unat P < 0x200000" using assms(2) by (simp add: word_less_nat_alt)
  ultimately have "k < 512" by simp
  with P show ?thesis by simp
qed

lemma slot_bound: "slot_of s pid v AND PTE_P \<noteq> 0 \<Longrightarrow> v < 1024"
  by (auto simp: slots_def split: if_splits)

lemma and_6_bits: "(e :: 64 word) AND 6 = 6 \<Longrightarrow> e AND 2 \<noteq> 0 \<and> e AND 4 \<noteq> 0"
proof -
  assume e: "e AND 6 = 6"
  have "(e AND 6) AND 2 = e AND 2" "(e AND 6) AND 4 = e AND 4" by (simp_all add: and.assoc)
  with e show ?thesis by auto
qed

lemma kinv_lookup:
  "kinv syms s \<Longrightarrow> live s pid \<Longrightarrow> virtual_memory_lookup (k_mem s) (ptab s pid) va = vam_of (slot_of s pid (vpn va)) va"
  using kinvD(5)[of syms s pid] by (simp add: kinv_table_def lookup_slots)

text \<open>A change of memory confined to one page that the process may write.\<close>

definition user_write :: "kernel_state \<Rightarrow> int \<Rightarrow> memory \<Rightarrow> bool" where
  "user_write s pid m \<longleftrightarrow>
     (\<exists>v. slot_of s pid v AND PTE_P \<noteq> 0 \<and> slot_of s pid v AND PTE_W \<noteq> 0 \<and> slot_of s pid v AND PTE_U \<noteq> 0 \<and>
       (\<forall>Q. Q \<noteq> PTE_ADDR (slot_of s pid v) \<longrightarrow> same_page (k_mem s) m Q))"

lemma user_write_framed:
  assumes "kinv syms s" "live s pid" "user_write s pid m"
  shows "framed syms s (s\<lparr>k_mem := m\<rparr>)"
proof -
  obtain v where v: "slot_of s pid v AND PTE_P \<noteq> 0" "slot_of s pid v AND PTE_U \<noteq> 0"
    "\<And>Q. Q \<noteq> PTE_ADDR (slot_of s pid v) \<Longrightarrow> same_page (k_mem s) m Q"
    using assms(3) by (auto simp: user_write_def)
  have "PTE_ADDR (slot_of s pid v) \<notin> table_pages syms s"
    by (rule user_access_not_table(1)[OF assms(1,2) slot_bound[OF v(1)] v(1,2)])
  then have "same_page (k_mem s) m P" if "P \<in> table_pages syms s" for P using v(3)[of P] that by blast
  then show ?thesis by (simp add: framed_def)
qed

lemma syscall_mapping_effect:
  assumes inv: "kinv syms s" and l: "live s pid"
    and off: "unat (PAGEOFFSET (reg_rdi (p_registers (k_processes s pid)))) + 24 \<le> 4096"
  shows "syscall_mapping pad1 pad2 pid s = Inr s \<or> (\<exists>m. syscall_mapping pad1 pad2 pid s = Inr (s\<lparr>k_mem := m\<rparr>) \<and> user_write s pid m)"
proof -
  define a where "a = reg_rdi (p_registers (k_processes s pid))"
  define e where "e = slot_of s pid (vpn a)"
  have look: "virtual_memory_lookup (k_mem s) (ptab s pid) a = vam_of e a" unfolding e_def by (rule kinv_lookup[OF inv l])
  show ?thesis
  proof (cases "e AND PTE_P \<noteq> 0 \<and> word_of_int (vam_perm (vam_of e a)) AND 6 = (6 :: 64 word)")
    case False
    then have "word_of_int (vam_perm (vam_of e a)) AND 6 \<noteq> (6 :: 64 word)" by (auto simp: vam_of_def)
    then show ?thesis by (simp add: syscall_mapping_def Let_def a_def[symmetric] look)
  next
    case True
    then have p: "e AND PTE_P \<noteq> 0" "e AND PTE_W \<noteq> 0" "e AND PTE_U \<noteq> 0"
      using and_6_bits[of e] vam_of_flag[of e 6 a] by auto
    note acc = user_access_not_table[OF inv l slot_bound[OF p(1)[unfolded e_def]] p(1)[unfolded e_def] p(3)[unfolded e_def], folded e_def]
    define pa where "pa = PTE_ADDR e + PAGEOFFSET a"
    have pa: "vam_pa (vam_of e a) = pa" using p(1) by (simp add: vam_of_def pa_def)
    have o: "PAGEOFFSET a < 4096" by (simp add: PAGEOFFSET_def and_FFF_less)
    have pg: "PTE_ADDR pa = PTE_ADDR e" "PAGEOFFSET pa = PAGEOFFSET a"
      unfolding pa_def using PTE_ADDR_plus[OF _ o] PAGEOFFSET_plus[OF _ o] by simp_all
    have "unat (PTE_ADDR e) + 4096 \<le> 0x200000" by (rule phys_page_end[OF PTE_ADDR_aligned acc(2)])
    then have lt: "unat (PTE_ADDR e) + unat (PAGEOFFSET a) + 23 < 0x200000" using off by (simp add: a_def)
    have eq: "pa + 24 - 1 = of_nat (unat (PTE_ADDR e) + unat (PAGEOFFSET a) + 23)" by (simp add: pa_def)
    have "unat (pa + 24 - 1) < 0x200000" unfolding eq using lt by (subst unat_of_nat64) simp_all
    then have "pa + 24 - 1 < MEMSIZE_PHYSICAL" by (simp add: word_less_nat_alt)
    then have "syscall_mapping pad1 pad2 pid s = Inr s \<or> (\<exists>vam. syscall_mapping pad1 pad2 pid s =
        Inr (s\<lparr>k_mem := store_vamapping (k_mem s) pa pad1 pad2 vam\<rparr>))"
      using True by (auto simp: syscall_mapping_def Let_def a_def[symmetric] look pa not_le)
    moreover have "user_write s pid (store_vamapping (k_mem s) pa pad1 pad2 vam)" for vam
      unfolding user_write_def
      using p store_vamapping_page[of pa] off pg by (intro exI[of _ "vpn a"]) (simp add: e_def a_def)
    ultimately show ?thesis by blast
  qed
qed

lemma syscall_mapping_framed:
  assumes "kinv syms s" "live s pid" "unat (PAGEOFFSET (reg_rdi (p_registers (k_processes s pid)))) + 24 \<le> 4096"
  shows "\<exists>m. syscall_mapping pad1 pad2 pid s = Inr (s\<lparr>k_mem := m\<rparr>) \<and> framed syms s (s\<lparr>k_mem := m\<rparr>)"
proof -
  have "Inr s = Inr (s\<lparr>k_mem := k_mem s\<rparr>) \<and> framed syms s (s\<lparr>k_mem := k_mem s\<rparr>)" by (simp add: framed_refl)
  then show ?thesis using syscall_mapping_effect[OF assms, of pad1 pad2] user_write_framed[OF assms(1,2)] by metis
qed

lemma printf_fault:
  "\<exists>out. printf_output color ''Process %d page fault for %p (%s %s, rip=%p)!\<newline>''
     [VNum pid, VNum a, VStr op, VStr problem, VNum rip] = Some out"
proof -
  have ds: "\<exists>ds. fill_numbuf w 10 = Some ds" "\<exists>ds. fill_numbuf w (-16) = Some ds" for w
    using fill_numbuf_some by blast+
  show ?thesis
    using ds(1)[of "word_of_int (if va_int pid < 0 then - va_int pid else va_int pid)"] ds(2)[of a] ds(2)[of rip]
    by (auto simp: printf_output_def parse_directive_def flag_of_def is_digit_def split: if_splits)
qed

lemma handle_pagefault_framed:
  assumes "kinv syms s" "live s (k_current s)" "reg_err reg AND 4 \<noteq> 0"
  shows "\<exists>s'. handle_pagefault cr2 reg s = Inr (Break s') \<and> framed syms s s' \<and> k_current s' = k_current s
    \<and> p_state (cur s') = P_BROKEN \<and> drawn (k_mem s) (k_mem s')"
proof -
  obtain c m where m: "console_printf (CPOS 24 0) 0x0C00 ''Process %d page fault for %p (%s %s, rip=%p)!\<newline>''
      [VNum (word_of_int (p_pid (cur s))), VNum cr2, VStr (if reg_err reg AND 2 \<noteq> 0 then ''write'' else ''read''),
       VStr (if reg_err reg AND 1 \<noteq> 0 then ''protection problem'' else ''missing page''), VNum (reg_rip reg)] (k_mem s) = Inr (c, m)"
    "drawn (k_mem s) m"
    using console_printf_drawn[OF printf_fault] by blast
  let ?s' = "upd_proc (k_current s) (\<lambda>p. p\<lparr>p_state := P_BROKEN\<rparr>) (s\<lparr>k_mem := m\<rparr>)"
  have "handle_pagefault cr2 reg s = Inr (Break ?s')"
    unfolding handle_pagefault_def Let_def m(1) using assms(3) by simp
  moreover have "framed syms s ?s'"
    using framed_drawn[OF assms(1) m(2)] assms(2) by (auto simp: framed_def live_def)
  ultimately show ?thesis using m(2) by auto
qed

lemma syscall_mem_tog_framed: "framed syms s (syscall_mem_tog pid s)" "k_current (syscall_mem_tog pid s) = k_current s"
  by (auto simp: syscall_mem_tog_def Let_def framed_def)

section \<open>The page\_alloc system call\<close>

text \<open>
  \<open>virtual_memory_map\<close> on one page and any aligned address: only bits 12 to 47 of the address
  count, and without a last-level table there is no mapping.
\<close>

lemma map_one_page_any:
  assumes "pt_wf m pt" "page_aligned va" "page_aligned pa" "pa < MEMSIZE_PHYSICAL"
  shows "virtual_memory_map m pt va pa PAGESIZE 7 =
    Inr (if vpn va < 1024 then (0, put_slot m pt (vpn va) (pa + 7)) else (-1, m))"
proof -
  have pa: "unat pa + 4096 \<le> 0x200000" by (rule phys_page_end[OF assms(3,4)])
  then have u: "unat (pa + PAGESIZE) = unat pa + 4096" using plus_size(1)[of pa 1] by simp
  then have p: "pa \<le> pa + PAGESIZE" "pa + PAGESIZE \<le> MEMSIZE_PHYSICAL"
    using pa by (simp_all add: word_le_nat_alt)
  have va: "va \<le> va + PAGESIZE \<or> va + PAGESIZE = 0"
  proof (cases "unat va + 4096 < 2 ^ 64")
    case True
    then show ?thesis using plus_size(2)[of va 1] by simp
  next
    case False
    define k where "k = unat va div 4096"
    have k: "unat va = 4096 * k" using assms(2) by (auto simp: page_aligned_nat k_def)
    moreover have "unat va < 2 ^ 64" using unsigned_less[of va] by simp
    ultimately have "k = 2 ^ 52 - 1" using False by simp
    with k have "unat va = 2 ^ 64 - 4096" by simp
    then have "va = - PAGESIZE" by (simp add: word_unat_eq_iff)
    then show ?thesis by simp
  qed
  define i where "i = sint (ucast (drop_bit 21 va) :: 32 word)"
  define l4 where "l4 = (if vpn va < 1024 then L4_of m pt (vpn va div 512) else 0)"
  have "vpn va < 1024 \<Longrightarrow> i \<noteq> -1"
  proof
    assume v: "vpn va < 1024" and "i = -1"
    have "(ucast (drop_bit 21 va) :: 32 word) = word_of_int i" by (simp add: i_def)
    with \<open>i = -1\<close> have "(ucast (drop_bit 21 va) :: 32 word) = -1" by simp
    then have "bit (ucast (drop_bit 21 va) :: 32 word) 1" by simp
    then have "bit va 22" by (simp add: bit_simps)
    moreover have "vpn va = take_bit 36 (drop_bit 12 (unat va))" by (simp add: vpn_def take_bit_eq_mod drop_bit_eq_div)
    ultimately have "bit (vpn va) 10" by (simp add: bit_simps)
    moreover have "\<not> bit (vpn va) 10" using v by (simp add: bit_nat_def)
    ultimately show False by blast
  qed
  then have l4: "(if i \<noteq> -1 then lookup_l4pagetable m pt va 7 else Inr 0) = Inr l4"
    unfolding lookup_l4_wf[OF assms(1)] l4_def by auto
  have "map_loop 1 m pt va pa 7 (-1) 0 = Inr (if vpn va < 1024 then (0, put_slot m pt (vpn va) (pa + 7)) else (-1, m))"
    unfolding One_nat_def map_loop.simps Let_def
    using l4 L4_of_nonzero(1)[OF assms(1), of "vpn va div 512"]
    by (auto simp: i_def[symmetric] l4_def put_slot_def pageindex_vpn)
  then show ?thesis
    unfolding virtual_memory_map_def using assms(2,3) p va pt_wf_aligned(1)[OF assms(1)] by (simp add: mod_PAGESIZE)
qed

lemma page_alloc_state:
  assumes "kinv syms s" "live s pid" "PROC_START_ADDR \<le> addr" "page_aligned addr" "free_pages s \<noteq> {}"
  defines "pn \<equiv> Min (free_pages s)"
  shows "sys_page_alloc_find_free (ptab s pid) own addr s =
    Inr (0, if vpn addr < 1024 then set_pageinfo pn (fresh_page own) (s\<lparr>k_mem := put_slot (k_mem s) (ptab s pid) (vpn addr) (PAGEADDRESS pn + 7)\<rparr>)
            else set_pageinfo pn (fresh_page own) s)"
proof -
  have wf: "pt_wf (k_mem s) (ptab s pid)" using kinvD(5)[OF assms(1,2)] by (simp add: kinv_table_def)
  note u = PAGEADDRESS_usable[OF Min_free_pages(2,3)[OF assms(5)], folded pn_def]
  show ?thesis
    unfolding sys_page_alloc_eq
    using assms(3,5) map_one_page_any[OF wf assms(4) u(1,2)]
    by (simp add: Let_def pn_def[symmetric] not_less[symmetric] set_pageinfo_def)
qed

lemma page_alloc_entry:
  assumes "pn \<in> free_pages s"
  shows "(PAGEADDRESS pn + 7) AND PTE_P \<noteq> 0" "PTE_ADDR (PAGEADDRESS pn + 7) = PAGEADDRESS pn"
  using PAGEADDRESS_usable(1)[OF free_not_used(2,3)[OF assms]] and_1_plus[of "PAGEADDRESS pn" 7] PTE_ADDR_plus[of "PAGEADDRESS pn" 7]
  by simp_all

lemma page_alloc_kinv:
  assumes "kinv syms s" "live s pid" "addr < PROC_START_ADDR \<or> page_aligned addr \<and> 256 \<le> vpn addr"
  shows "\<exists>r s'. sys_page_alloc_find_free (ptab s pid) pid addr s = Inr (r, s') \<and> kinv syms s' \<and>
    k_processes s' = k_processes s \<and> k_current s' = k_current s"
proof (cases "free_pages s = {}")
  case True
  then show ?thesis using assms(1) by (simp add: sys_page_alloc_eq)
next
  case False
  note pn = Min_free_pages(1)[OF False]
  have take: "kinv syms (set_pageinfo (Min (free_pages s)) (fresh_page pid) s)" by (rule kinv_take_page[OF assms(1,2) pn])
  show ?thesis
  proof (cases "addr < PROC_START_ADDR")
    case True
    then show ?thesis using take False by (simp add: sys_page_alloc_eq Let_def)
  next
    case low: False
    then have a: "PROC_START_ADDR \<le> addr" "page_aligned addr" "256 \<le> vpn addr" using assms(3) by auto
    show ?thesis
      unfolding page_alloc_state[OF assms(1,2) a(1,2) False]
      using take kinv_with_page[OF assms(1,2) a(3) _ pn page_alloc_entry[OF pn]] by (auto simp: with_page_def)
  qed
qed

lemma user_slot_with_page_iff:
  assumes inv: "kinv syms s" and l: "live s pid" "live s q" and v: "256 \<le> v" "v < 1024" and pn: "pn \<in> free_pages s"
    and e: "e AND PTE_P \<noteq> 0" "PTE_ADDR e = PAGEADDRESS pn" and absent: "slot_of s pid v AND PTE_P = 0"
  shows "user_slot (with_page pid v pn e s) q w x \<longleftrightarrow> q = pid \<and> w = v \<and> x = pn \<or> user_slot s q w x"
proof -
  have "PAGENUMBER (PTE_ADDR e) = pn" using PAGEADDRESS_usable(5)[OF free_not_used(2,3)[OF pn]] e(2) by simp
  moreover have "user_slot s pid v x \<Longrightarrow> False" using absent by (simp add: user_slot_def)
  ultimately show ?thesis
    using with_page_tables(3)[OF inv l(1) v(2) l(2), where e = e] v e(1)
    by (auto simp: user_slot_def with_page_simps split: if_splits)
qed

lemma accounted_with_page:
  assumes inv: "kinv syms s" and acc: "accounted s" and l: "live s pid" and v: "256 \<le> v" "v < 768" and pn: "pn \<in> free_pages s"
    and e: "e AND PTE_P \<noteq> 0" "PTE_ADDR e = PAGEADDRESS pn" and absent: "slot_of s pid v AND PTE_P = 0"
  shows "accounted (with_page pid v pn e s)"
proof -
  let ?s = "with_page pid v pn e s"
  have v': "v < 1024" using v by simp
  note us = user_slot_with_page_iff[OF inv l _ v(1) v' pn e absent]
  note fr = free_not_used[OF pn]
  have old: "x \<noteq> pn" if "live s q" "user_slot s q w x" for q w x
    using user_page_info(2)[OF inv that] fr(1) by auto
  then have none: "\<not> user_slot s q w pn" if "live s q" for q w using that by blast
  have sh: "sharers ?s x = (if x = pn then {pid} else sharers s x)" for x
    using us none l unfolding sharers_def with_page_simps(5) by auto
  have tabs: "page_nums (k_mem ?s) (ptab ?s q) = page_nums (k_mem s) (ptab s q)" if "live s q" for q
    using with_page_tables(2)[OF inv l v' that, where e = e] by (simp add: with_page_simps)
  have "w < 768 \<and> unat (pi_refcount (k_pageinfo ?s x)) = card (sharers ?s x)"
    if h: "live s p" "user_slot ?s p w x" for p w x
    using us[OF h(1)] h old[OF h(1), of w x] accountedD(1,2)[OF acc h(1), of w x] v(2)
    by (auto simp: sh with_page_simps fresh_page_def)
  moreover have "x \<in> page_nums (k_mem ?s) (ptab ?s own) \<or> (\<exists>w. user_slot ?s own w x)"
    if h: "0 \<le> x" "x < NPAGES" "pi_refcount (k_pageinfo ?s x) \<noteq> 0" "sint (pi_owner (k_pageinfo ?s x)) = own" "1 \<le> own" for x own
  proof (cases "x = pn")
    case True
    then have "own = pid" using h(4) sint_fresh[of pid] kinv_live_range[OF l] by (simp add: with_page_simps)
    then show ?thesis using us[OF l] True by blast
  next
    case False
    then have o: "k_pageinfo ?s x = k_pageinfo s x" by (simp add: with_page_simps)
    then have "live s own" using kinvD(3)[OF inv] h by (fastforce simp: kinv_info_def)
    with o show ?thesis using accountedD(3)[OF acc h(1,2), of own] h us tabs by auto
  qed
  ultimately show ?thesis unfolding accounted_def with_page_simps(5) by blast
qed

lemma page_alloc_healthy:
  assumes "healthy syms s" "live s pid" "PROC_START_ADDR \<le> addr" "page_aligned addr" "vpn addr < 768" "256 \<le> vpn addr"
    and "slot_of s pid (vpn addr) AND PTE_P = 0"
  shows "\<exists>r s'. sys_page_alloc_find_free (ptab s pid) pid addr s = Inr (r, s') \<and> healthy syms s' \<and>
    k_processes s' = k_processes s \<and> k_current s' = k_current s"
proof (cases "free_pages s = {}")
  case True
  then show ?thesis using assms(1) by (simp add: sys_page_alloc_eq)
next
  case False
  have inv: "kinv syms s" "accounted s" using assms(1) by (simp_all add: healthy_def)
  note pn = Min_free_pages(1)[OF False]
  have v: "vpn addr < 1024" using assms(5) by simp
  show ?thesis
    unfolding page_alloc_state[OF inv(1) assms(2-4) False] healthy_def
    using kinv_with_page[OF inv(1) assms(2,6) v pn page_alloc_entry[OF pn]]
      accounted_with_page[OF inv assms(2,6,5) pn page_alloc_entry[OF pn] assms(7)] v by (simp add: with_page_def)
qed

section \<open>Handled exceptions\<close>

lemma entered_view:
  assumes "viewed (entered syms reg s) s'"
  shows "k_current s' = k_current s" "p_registers (cur s') = reg" "k_pageinfo s' = k_pageinfo s"
    "p_state (k_processes s' q) = p_state (k_processes s q)" "ptab s' q = ptab s q"
    "p_pid (k_processes s' q) = p_pid (k_processes s q)"
  using viewed_simps[OF assms] by simp_all

lemma entered_running: "viewed (entered syms reg s) s' \<Longrightarrow> running s \<Longrightarrow> running s'"
  using entered_view[of syms reg s s'] by (simp add: running_def)

context kernel_property
begin

text \<open>System calls and faults that leave memory management alone.\<close>

lemma handle_plain_keeps:
  assumes "syms_ok syms" "P s" "running s"
    and "reg_intno reg \<in> {49, 50, 32, 56} \<or> reg_intno reg = 14 \<and> reg_err reg AND 4 \<noteq> 0 \<or>
      reg_intno reg = 54 \<and> unat (PAGEOFFSET (reg_rdi (p_registers (cur s)))) + 24 \<le> 4096"
  shows "\<exists>h. handle syms keys cr2 pad1 pad2 reg s = Inr h \<and> handled_sat P h"
proof -
  note inv = inv[OF assms(2)]
  have r: "0 \<le> k_current s" "k_current s < NPROC" using assms(3) by (simp_all add: running_def)
  consider "reg_intno reg = 49" | "reg_intno reg = 50" | "reg_intno reg = 32" | "reg_intno reg = 56"
    | "reg_intno reg = 14" "reg_err reg AND 4 \<noteq> 0"
    | "reg_intno reg = 54" "unat (PAGEOFFSET (reg_rdi (p_registers (cur s)))) + 24 \<le> 4096" using assms(4) by auto
  then show ?thesis
  proof cases
    case 1
    then show ?thesis using frame[OF assms(2) framed_upd(5)] r by (simp add: handle_def)
  next
    case 2
    then show ?thesis using schedule_keeps[OF assms(1,2), of keys] by (auto simp: handle_def)
  next
    case 3
    then show ?thesis using schedule_keeps[OF assms(1) frame[OF assms(2) framed_upd(3)[where t = "k_ticks s + 1"]], of keys] by (auto simp: handle_def)
  next
    case 4
    then show ?thesis using frame[OF assms(2) syscall_mem_tog_framed(1)] r by (simp add: handle_def syscall_mem_tog_framed(2))
  next
    case 5
    then show ?thesis
      using handle_pagefault_framed[OF inv running_live[OF assms(3)] 5(2)] frame[OF assms(2)] r by (fastforce simp: handle_def)
  next
    case 6
    obtain m where m: "syscall_mapping pad1 pad2 (k_current s) s = Inr (s\<lparr>k_mem := m\<rparr>)" "framed syms s (s\<lparr>k_mem := m\<rparr>)"
      using syscall_mapping_framed[OF inv running_live[OF assms(3)] 6(2)] by blast
    with 6 show ?thesis using frame[OF assms(2) m(2)] r by (simp add: handle_def)
  qed
qed

lemma handle_page_alloc_keeps:
  assumes "P s" "running s" "reg_intno reg = 51"
    and "\<exists>r s'. sys_page_alloc_find_free (ptab s (k_current s)) (k_current s) (reg_rdi (p_registers (cur s))) s = Inr (r, s') \<and> P s' \<and>
      k_processes s' = k_processes s \<and> k_current s' = k_current s"
  shows "\<exists>h. handle syms keys cr2 pad1 pad2 reg s = Inr h \<and> handled_sat P h"
proof -
  have "p_pid (cur s) = k_current s"
    using kinvD(1)[OF inv[OF assms(1)]] assms(2) by (simp add: kinv_procs_def running_def)
  then show ?thesis
    using assms(2,3,4) frame[OF _ framed_upd(5)] by (auto simp: handle_def handle_page_alloc_def running_def)
qed

end

end
