(* ===== verification/Kernel_Exit.thy ===== *)
theory Kernel_Exit
  imports Kernel_Handlers
begin

text \<open>
  The exit system call. \<open>handle_exit_eq\<close> computes the state it leaves: the page-table pages and
  the writable pages of the process are free, the pages it shared have one reference less. If no
  other process uses a page of the process, the invariant and the accounting hold again.
\<close>

unbundle bit_operations_syntax

section \<open>The user pages in order\<close>

lemma user_page_addr:
  assumes "v < 1024"
  shows "vpn (of_nat v * PAGESIZE) = v" "page_aligned (of_nat v * PAGESIZE)" "unat (of_nat v * PAGESIZE) = 4096 * v"
proof -
  show u: "unat (of_nat v * PAGESIZE) = 4096 * v" using assms by (intro size_args(1)) simp
  show "vpn (of_nat v * PAGESIZE) = v" using assms by (simp add: vpn_low u)
  show "page_aligned (of_nat v * PAGESIZE)" by (simp add: page_aligned_nat u)
qed

lemma page_addrs_user: "page_addrs PROC_START_ADDR MEMSIZE_VIRTUAL = map (\<lambda>v. of_nat v * PAGESIZE) [256..<768]"
proof -
  have "pages_between PROC_START_ADDR MEMSIZE_VIRTUAL = 512" by (simp add: pages_between_def)
  moreover have "[256..<768] = map (\<lambda>i. i + 256) [0..<512]" by (simp add: map_add_upt)
  ultimately show ?thesis by (simp add: page_addrs_def comp_def algebra_simps)
qed

section \<open>What exit does\<close>

lemma kinv_user_page_pos:
  assumes "kinv syms s" "live s pid" "user_slot s pid v pn"
  shows "0 < pn"
  using user_page_info(3,8)[OF assms] kinvD(3)[OF assms(1)] by (cases "pn = 0") (auto simp: kinv_info_def)

text \<open>
  The page descriptors when the release loop for the process \<open>pid\<close> has reached page \<open>n\<close>:
  \<open>maps_below\<close> says that the loop has met the page \<open>pn\<close>, mapped writable if \<open>w\<close> is set.
\<close>

definition maps_below :: "kernel_state \<Rightarrow> int \<Rightarrow> nat \<Rightarrow> bool \<Rightarrow> int \<Rightarrow> bool" where
  "maps_below s pid n w pn \<longleftrightarrow> (\<exists>v < n. user_slot s pid v pn \<and> (w \<longrightarrow> slot_of s pid v AND PTE_W \<noteq> 0))"

definition exit_info :: "kernel_state \<Rightarrow> int \<Rightarrow> nat \<Rightarrow> int \<Rightarrow> physical_pageinfo" where
  "exit_info s pid n pn =
     (if pn \<in> page_nums (k_mem s) (ptab s pid) \<or> maps_below s pid n True pn then \<lparr>pi_owner = 0, pi_refcount = 0\<rparr>
      else if maps_below s pid n False pn then (k_pageinfo s pn)\<lparr>pi_refcount := pi_refcount (k_pageinfo s pn) - 1\<rparr>
      else k_pageinfo s pn)"

lemma exit_info_Suc:
  assumes inv: "kinv syms s" and l: "live s pid" and us: "user_slot s pid v pn"
  shows "exit_info s pid v pn = k_pageinfo s pn"
    "exit_info s pid (Suc v) = (exit_info s pid v)(pn :=
       if slot_of s pid v AND PTE_W \<noteq> 0 then \<lparr>pi_owner = 0, pi_refcount = 0\<rparr>
       else (k_pageinfo s pn)\<lparr>pi_refcount := pi_refcount (k_pageinfo s pn) - 1\<rparr>)"
proof -
  have inj: "w = v" if "user_slot s pid w pn" for w
    using kinvD(4)[OF inv] l us that unfolding kinv_excl_def by blast
  have nt: "pn \<notin> page_nums (k_mem s) (ptab s pid)" by (rule user_page_info(6)[OF inv l us l])
  have new: "\<not> maps_below s pid v w pn" for w using inj unfolding maps_below_def by blast
  show "exit_info s pid v pn = k_pageinfo s pn" using new nt by (simp add: exit_info_def)
  have "user_slot s pid v x \<longleftrightarrow> x = pn" for x using us by (auto simp: user_slot_def)
  then have "maps_below s pid (Suc v) w x = (if x = pn then w \<longrightarrow> slot_of s pid v AND PTE_W \<noteq> 0 else maps_below s pid v w x)" for w x
    using inj unfolding maps_below_def less_Suc_eq by metis
  with nt show "exit_info s pid (Suc v) = (exit_info s pid v)(pn :=
       if slot_of s pid v AND PTE_W \<noteq> 0 then \<lparr>pi_owner = 0, pi_refcount = 0\<rparr>
       else (k_pageinfo s pn)\<lparr>pi_refcount := pi_refcount (k_pageinfo s pn) - 1\<rparr>)"
    by (simp add: exit_info_def fun_eq_iff)
qed

lemma exit_info_absent:
  assumes "slot_of s pid v AND PTE_P = 0"
  shows "exit_info s pid (Suc v) = exit_info s pid v"
proof -
  have "\<not> user_slot s pid v x" for x using assms by (simp add: user_slot_def)
  then have "maps_below s pid (Suc v) w x = maps_below s pid v w x" for w x
    unfolding maps_below_def less_Suc_eq by metis
  then show ?thesis by (simp add: exit_info_def fun_eq_iff)
qed

lemma exit_info_256: "exit_info s pid 256 pn = (if pn \<in> page_nums (k_mem s) (ptab s pid) then \<lparr>pi_owner = 0, pi_refcount = 0\<rparr> else k_pageinfo s pn)"
  by (auto simp: exit_info_def user_slot_def maps_below_def)

text \<open>One turn of the release loop, on a state that agrees with the one at the start.\<close>

definition leaving :: "kernel_state \<Rightarrow> nat \<Rightarrow> kernel_state" where
  "leaving s n = (upd_proc (k_current s) (\<lambda>p. p\<lparr>p_state := P_FREE\<rparr>) s)\<lparr>k_pageinfo := exit_info s (k_current s) n\<rparr>"

lemma exit_page_step:
  assumes inv: "kinv syms s" and run: "running s" and v: "256 \<le> v" "v < 768"
    and tables: "set tables = page_nums (k_mem s) (ptab s (k_current s))"
  shows "exit_page tables (of_nat v * PAGESIZE) (leaving s v) = leaving s (Suc v)"
proof -
  define pid where "pid = k_current s"
  have l: "live s pid" unfolding pid_def by (rule running_live[OF run])
  have v': "v < 1024" using v by simp
  define e where "e = slot_of s pid v"
  note va = user_page_addr[OF v']
  have look: "virtual_memory_lookup (k_mem (leaving s v)) (p_pagetable (cur (leaving s v))) (of_nat v * PAGESIZE) = vam_of e (of_nat v * PAGESIZE)"
    using kinv_lookup[OF inv l, of "of_nat v * PAGESIZE"] va(1) by (simp add: leaving_def pid_def e_def)
  have pt: "p_pagetable (cur (leaving s v)) \<noteq> 0"
    using kinvD(5)[OF inv l] by (auto simp: leaving_def kinv_table_def pt_wf_def pt_pages_def pid_def)
  have pp: "p_pid (cur (leaving s v)) = pid"
    using kinvD(1)[OF inv] run by (simp add: leaving_def kinv_procs_def running_def pid_def)
  have same: "leaving s (Suc v) = (leaving s v)\<lparr>k_pageinfo := exit_info s pid (Suc v)\<rparr>" by (simp add: leaving_def pid_def)
  show ?thesis
  proof (cases "e AND PTE_P = 0")
    case True
    then have "vam_of e (of_nat v * PAGESIZE) = \<lparr>vam_pn = -1, vam_pa = -1, vam_perm = 0\<rparr>" by (simp add: vam_of_def)
    then show ?thesis
      using exit_info_absent[OF True[unfolded e_def]] unfolding exit_page_def look same by (simp add: leaving_def pid_def)
  next
    case False
    define pn where "pn = PAGENUMBER (PTE_ADDR e)"
    have us: "user_slot s pid v pn" unfolding pn_def e_def using user_slot_self[OF v(1) v'] False by (simp add: e_def)
    note i = user_page_info[OF inv l us] and step = exit_info_Suc[OF inv l us]
    note vam = PTE_ADDR_vam[OF False i(1)[folded e_def] va(2)]
    have w: "word_of_int (vam_perm (vam_of e (of_nat v * PAGESIZE))) AND PTE_W = e AND PTE_W" using False by (intro vam_of_flag) auto
    have pi: "k_pageinfo (leaving s v) pn = k_pageinfo s pn" using step(1) by (simp add: leaving_def pid_def)
    have nt: "pn \<notin> set tables" using i(6)[OF l] tables by (simp add: pid_def)
    have own: "sint (pi_owner (fresh_page pid)) = pid" using sint_fresh kinv_live_range[OF l] by simp
    show ?thesis
      unfolding exit_page_def look vam pn_def[symmetric] w pi Let_def pp same step(2)
      using pt nt i(2,5) kinv_user_page_pos[OF inv l us] own
      by (auto simp: e_def set_pageinfo_def leaving_def pid_def)
  qed
qed

lemma fold_set_pageinfo:
  assumes "\<And>i. f (f i) = f i"
  shows "fold (\<lambda>pn s. set_pageinfo pn (f (k_pageinfo s pn)) s) ns s =
    s\<lparr>k_pageinfo := (\<lambda>pn. if pn \<in> set ns then f (k_pageinfo s pn) else k_pageinfo s pn)\<rparr>"
  by (induction ns arbitrary: s) (auto simp: set_pageinfo_def fun_eq_iff assms)

lemma table_list:
  "map PAGENUMBER [pt, PTE_ADDR (pt_entry m pt 0), PTE_ADDR (pt_entry m (PTE_ADDR (pt_entry m pt 0)) 0),
     PTE_ADDR (pt_entry m (PTE_ADDR (pt_entry m (PTE_ADDR (pt_entry m pt 0)) 0)) 0),
     PTE_ADDR (pt_entry m (PTE_ADDR (pt_entry m (PTE_ADDR (pt_entry m pt 0)) 0)) 1)] = map PAGENUMBER (pt_pages m pt)"
  by (simp add: pt_pages_def L2_of_def L3_of_def L4_of_def)

lemma handle_exit_eq:
  assumes "kinv syms s" "running s"
  shows "handle_exit s = leaving s 768"
proof -
  let ?tables = "map PAGENUMBER (pt_pages (k_mem s) (ptab s (k_current s)))"
  have set: "set ?tables = page_nums (k_mem s) (ptab s (k_current s))" by (simp add: page_nums_def)
  have start: "upd_proc (k_current s) (\<lambda>p. p\<lparr>p_state := P_FREE\<rparr>)
      (fold (\<lambda>pn s. set_pageinfo pn ((k_pageinfo s pn)\<lparr>pi_refcount := 0\<rparr>) s) ?tables
        (fold (\<lambda>pn s. set_pageinfo pn ((k_pageinfo s pn)\<lparr>pi_owner := 0\<rparr>) s) ?tables s)) = leaving s 256"
    unfolding fold_set_pageinfo[of "\<lambda>i. i\<lparr>pi_refcount := 0\<rparr>", simplified] fold_set_pageinfo[of "\<lambda>i. i\<lparr>pi_owner := 0\<rparr>", simplified]
    by (auto simp: leaving_def upd_proc_def exit_info_256 fun_eq_iff simp flip: set)
  have "n \<le> 768 \<Longrightarrow> fold (\<lambda>v. exit_page ?tables (of_nat v * PAGESIZE)) [256..<n] (leaving s 256) = leaving s n" if "256 \<le> n" for n
    using that
  proof (induction n rule: nat_induct_at_least)
    case (Suc n)
    then show ?case using exit_page_step[OF assms Suc.hyps _ set] by simp
  qed simp
  from this[of 768] have "fold (\<lambda>v. exit_page ?tables (of_nat v * PAGESIZE)) [256..<768] (leaving s 256) = leaving s 768"
    by (simp only: order_refl simp_thms numeral_le_iff semiring_norm)
  then show ?thesis
    unfolding handle_exit_def Let_def table_list start unfolding page_addrs_user fold_map comp_def .
qed

section \<open>The state after exit\<close>

lemma leaving_simps:
  "k_mem (leaving s n) = k_mem s" "ptab (leaving s n) q = ptab s q" "k_pageinfo (leaving s n) = exit_info s (k_current s) n"
  "p_pid (k_processes (leaving s n) q) = p_pid (k_processes s q)" "k_current (leaving s n) = k_current s"
  "p_state (k_processes (leaving s n) q) = (if q = k_current s then P_FREE else p_state (k_processes s q))"
  "live (leaving s n) q \<longleftrightarrow> live s q \<and> q \<noteq> k_current s" "user_slot (leaving s n) q = user_slot s q"
  by (auto simp: leaving_def live_def user_slot_def fun_eq_iff)

lemma exit_info_other:
  assumes inv: "kinv syms s" and l: "live s pid"
  shows "live s q \<Longrightarrow> q \<noteq> pid \<Longrightarrow> x \<in> page_nums (k_mem s) (ptab s q) \<Longrightarrow> exit_info s pid n x = k_pageinfo s x"
    "x \<in> page_nums (k_mem s) (sym_kernel_pagetables syms) \<Longrightarrow> exit_info s pid n x = k_pageinfo s x"
    "\<not> 1 \<le> sint (pi_owner (k_pageinfo s x)) \<Longrightarrow> exit_info s pid n x = k_pageinfo s x"
proof -
  have nt: "\<not> maps_below s pid n w x" if "\<And>v. \<not> user_slot s pid v x" for w x using that by (auto simp: maps_below_def)
  show "exit_info s pid n x = k_pageinfo s x" if "live s q" "q \<noteq> pid" "x \<in> page_nums (k_mem s) (ptab s q)"
  proof -
    have "x \<notin> page_nums (k_mem s) (ptab s pid)" using kinv_tables_disjoint[OF inv l that(1)] that(2,3) by auto
    then show ?thesis using nt user_page_info(6)[OF inv l _ that(1)] that(3) by (auto simp: exit_info_def)
  qed
  show "exit_info s pid n x = k_pageinfo s x" if "x \<in> page_nums (k_mem s) (sym_kernel_pagetables syms)"
  proof -
    have "x \<notin> page_nums (k_mem s) (ptab s pid)" using kinv_not_kernel_table(1)[OF inv l] that by auto
    then show ?thesis using nt user_page_info(7)[OF inv l] that by (auto simp: exit_info_def)
  qed
  show "exit_info s pid n x = k_pageinfo s x" if "\<not> 1 \<le> sint (pi_owner (k_pageinfo s x))"
  proof -
    have "x \<notin> page_nums (k_mem s) (ptab s pid)"
      using kinvD(5)[OF inv l] that sint_fresh[of pid] l by (auto simp: kinv_table_def live_def)
    then show ?thesis using nt user_page_info(3)[OF inv l] that by (auto simp: exit_info_def)
  qed
qed

lemma leaving_tables:
  assumes inv: "kinv syms s" and run: "running s"
  shows "kinv_tables syms (leaving s n)"
proof -
  note l = running_live[OF run]
  note o = exit_info_other[OF inv l]
  have "kinv_procs (leaving s n)" using kinvD(1)[OF inv] by (simp add: kinv_procs_def leaving_simps)
  moreover have "kinv_kernel syms (leaving s n)"
    using kinvD(2)[OF inv] o(2) by (simp add: kinv_kernel_def Let_def leaving_simps)
  moreover have "kinv_table (leaving s n) q" if "live (leaving s n) q" for q
    using kinvD(5)[OF inv] that o(1) by (auto simp: kinv_table_def leaving_simps)
  ultimately show ?thesis by (simp add: kinv_tables_def)
qed

section \<open>A clean exit\<close>

text \<open>No page of the process is mapped by another one.\<close>

definition unshared :: "kernel_state \<Rightarrow> int \<Rightarrow> bool" where
  "unshared s pid \<longleftrightarrow> (\<forall>pn. pi_refcount (k_pageinfo s pn) \<noteq> 0 \<and> sint (pi_owner (k_pageinfo s pn)) = pid \<longrightarrow> sharers s pn \<subseteq> {pid})"

lemma sharers_finite: "finite (sharers s pn)"
  by (rule finite_subset[of _ "{1..<NPROC}"]) (auto simp: sharers_def live_def)

lemma sharers_card: "card (sharers s pn) \<le> 15"
proof -
  have "sharers s pn \<subseteq> {1..<NPROC}" by (auto simp: sharers_def live_def)
  from card_mono[OF _ this] show ?thesis by simp
qed

lemma maps_below_shared:
  assumes "kinv syms s" "live s q" "live s pid" "q \<noteq> pid" "user_slot s q v pn"
  shows "\<not> maps_below s pid n True pn"
  using kinvD(4)[OF assms(1)] assms(2-5) unfolding kinv_excl_def maps_below_def by metis

lemma exit_info_shared:
  assumes inv: "kinv syms s" and acc: "accounted s" and l: "live s q" "live s pid" "q \<noteq> pid" and us: "user_slot s q v pn"
  shows "exit_info s pid 768 pn =
    (if pid \<in> sharers s pn then (k_pageinfo s pn)\<lparr>pi_refcount := pi_refcount (k_pageinfo s pn) - 1\<rparr> else k_pageinfo s pn)"
proof -
  have "maps_below s pid 768 False pn \<longleftrightarrow> pid \<in> sharers s pn"
    using accountedD(1)[OF acc l(2)] l(2) by (auto simp: maps_below_def sharers_def)
  then show ?thesis
    using maps_below_shared[OF inv l us] user_page_info(6)[OF inv l(1) us l(2)] by (auto simp: exit_info_def)
qed

lemma unat_minus_1: "1 \<le> unat (x :: 8 word) \<Longrightarrow> unat (x - 1) = unat x - 1"
  by (metis One_nat_def le_zero_eq nat_neq_iff not_one_le_zero unat_0 unat_minus_one)

lemma shared_count:
  assumes inv: "kinv syms s" and acc: "accounted s" and l: "live s q" and us: "user_slot s q v pn"
  shows "1 \<le> unat (pi_refcount (k_pageinfo s pn))" "unat (pi_refcount (k_pageinfo s pn)) = card (sharers s pn)"
    "pid \<in> sharers s pn \<Longrightarrow> pid \<noteq> q \<Longrightarrow> 2 \<le> unat (pi_refcount (k_pageinfo s pn))"
proof -
  show c: "unat (pi_refcount (k_pageinfo s pn)) = card (sharers s pn)" by (rule accountedD(2)[OF acc l us])
  have q: "q \<in> sharers s pn" using l us by (auto simp: sharers_def)
  then show "1 \<le> unat (pi_refcount (k_pageinfo s pn))" unfolding c using sharers_finite[of s pn] by (metis One_nat_def Suc_leI card_gt_0_iff empty_iff)
  assume "pid \<in> sharers s pn" "pid \<noteq> q"
  with q have "card {pid, q} \<le> card (sharers s pn)" by (intro card_mono sharers_finite) auto
  with \<open>pid \<noteq> q\<close> show "2 \<le> unat (pi_refcount (k_pageinfo s pn))" unfolding c by simp
qed

lemma exit_owned:
  assumes inv: "kinv syms s" and acc: "accounted s" and l: "live s pid" and un: "unshared s pid"
    and h: "0 \<le> pn" "pn < NPAGES" "sint (pi_owner (k_pageinfo s pn)) = pid" "pi_refcount (k_pageinfo s pn) \<noteq> 0"
  shows "pi_refcount (exit_info s pid 768 pn) = 0"
proof -
  have "1 \<le> pid" using l by (simp add: live_def)
  from accountedD(3)[OF acc h(1,2,4,3) this]
  consider "pn \<in> page_nums (k_mem s) (ptab s pid)" | v where "user_slot s pid v pn" by blast
  then show ?thesis
  proof cases
    case 1
    then show ?thesis by (simp add: exit_info_def)
  next
    case (2 v)
    then have m: "maps_below s pid 768 False pn" "pid \<in> sharers s pn"
      using accountedD(1)[OF acc l 2] l by (auto simp: maps_below_def sharers_def)
    have "sharers s pn \<subseteq> {pid}" using un h by (auto simp: unshared_def)
    with m(2) have "card (sharers s pn) = 1" by (metis card_1_singleton_iff insert_absorb subset_singletonD insert_not_empty One_nat_def empty_iff)
    then have "unat (pi_refcount (k_pageinfo s pn)) = unat (1 :: 8 word)" using accountedD(2)[OF acc l 2] by simp
    then have "pi_refcount (k_pageinfo s pn) = 1" by (simp only: word_unat_eq_iff)
    with m(1) show ?thesis by (simp add: exit_info_def)
  qed
qed

lemma exit_info_refcount:
  assumes "kinv syms s" "live s pid" "pi_refcount (exit_info s pid n pn) \<noteq> 0"
  shows "pi_refcount (k_pageinfo s pn) \<noteq> 0" "pi_owner (exit_info s pid n pn) = pi_owner (k_pageinfo s pn)"
proof -
  have "maps_below s pid n False pn \<Longrightarrow> pi_refcount (k_pageinfo s pn) \<noteq> 0"
    using user_page_info(2)[OF assms(1,2)] by (auto simp: maps_below_def)
  then show "pi_refcount (k_pageinfo s pn) \<noteq> 0" "pi_owner (exit_info s pid n pn) = pi_owner (k_pageinfo s pn)"
    using assms(3) by (auto simp: exit_info_def split: if_splits)
qed

lemma leaving_kinv:
  assumes inv: "kinv syms s" and acc: "accounted s" and run: "running s" and un: "unshared s (k_current s)"
  shows "kinv syms (leaving s 768)"
proof -
  let ?pid = "k_current s" and ?s = "leaving s 768"
  note l = running_live[OF run]
  note t = kinv_tablesD[OF leaving_tables[OF inv run, of 768]]
  note r = exit_info_refcount[OF inv l]
  have "kinv_info ?s"
  proof -
    have "sint (pi_owner (k_pageinfo s pn)) \<noteq> ?pid" if "0 \<le> pn" "pn < NPAGES" "pi_refcount (exit_info s ?pid 768 pn) \<noteq> 0" for pn
      using exit_owned[OF inv acc l un that(1,2)] that(3) r(1)[OF that(3)] by blast
    then show ?thesis
      using kinvD(3)[OF inv] r exit_info_other(3)[OF inv l, where x = 0] exit_info_other(3)[OF inv l, where x = "0xB8"]
      unfolding kinv_info_def leaving_simps by auto
  qed
  moreover have "kinv_excl ?s"
    using kinvD(4)[OF inv] unfolding kinv_excl_def leaving_simps by blast
  moreover have "kinv_user ?s q" if lq: "live ?s q" for q
    unfolding kinv_user_def leaving_simps
  proof (intro allI impI)
    fix v pn assume us: "user_slot s q v pn"
    have q: "live s q" "q \<noteq> ?pid" using lq by (simp_all add: leaving_simps)
    note i = user_page_info[OF inv q(1) us] and c = shared_count[OF inv acc q(1) us]
    have ne: "pi_refcount (exit_info s ?pid 768 pn) \<noteq> 0"
      unfolding exit_info_shared[OF inv acc q(1) l q(2) us]
      using i(2) c(3)[of ?pid] unat_minus_1[of "pi_refcount (k_pageinfo s pn)"] q(2) by auto
    have "exit_info s ?pid 768 pn = k_pageinfo s pn" if "slot_of s q v AND PTE_W \<noteq> 0"
    proof -
      have "?pid \<notin> sharers s pn" using kinvD(4)[OF inv] q l us that unfolding kinv_excl_def sharers_def by blast
      then show ?thesis by (simp add: exit_info_shared[OF inv acc q(1) l q(2) us])
    qed
    with i ne r(2)[OF ne] show "PTE_ADDR (slot_of s q v) < MEMSIZE_PHYSICAL \<and> pi_refcount (exit_info s ?pid 768 pn) \<noteq> 0 \<and>
        1 \<le> sint (pi_owner (exit_info s ?pid 768 pn)) \<and> sint (pi_owner (exit_info s ?pid 768 pn)) < NPROC \<and>
        (slot_of s q v AND PTE_W \<noteq> 0 \<longrightarrow> exit_info s ?pid 768 pn = fresh_page q) \<and>
        (\<forall>p. live s p \<and> p \<noteq> ?pid \<longrightarrow> pn \<notin> page_nums (k_mem s) (ptab s p))" by auto
  qed
  ultimately show ?thesis using t by (auto simp: kinv_def)
qed

lemma leaving_accounted:
  assumes inv: "kinv syms s" and acc: "accounted s" and run: "running s" and un: "unshared s (k_current s)"
  shows "accounted (leaving s 768)"
proof -
  let ?pid = "k_current s" and ?s = "leaving s 768"
  note l = running_live[OF run]
  have sh: "sharers ?s pn = sharers s pn - {?pid}" for pn unfolding sharers_def leaving_simps by blast
  have "unat (pi_refcount (exit_info s ?pid 768 pn)) = card (sharers ?s pn)" if q: "live s q" "q \<noteq> ?pid" "user_slot s q v pn" for q v pn
    unfolding exit_info_shared[OF inv acc q(1) l q(2,3)] sh
    using shared_count[OF inv acc q(1,3)] unat_minus_1[of "pi_refcount (k_pageinfo s pn)"] sharers_finite[of s pn]
    by (auto simp: card_Diff_singleton_if)
  moreover have "pn \<in> page_nums (k_mem s) (ptab s own) \<or> (\<exists>v. user_slot s own v pn)"
    if "0 \<le> pn" "pn < NPAGES" "pi_refcount (exit_info s ?pid 768 pn) \<noteq> 0" "sint (pi_owner (exit_info s ?pid 768 pn)) = own" "1 \<le> own" for pn own
    using accountedD(3)[OF acc that(1,2)] exit_info_refcount[OF inv l that(3)] that(4,5) by auto
  ultimately show ?thesis
    using accountedD(1)[OF acc] unfolding accounted_def leaving_simps by blast
qed

end
