(* ===== verification/Kernel_Process.thy ===== *)
theory Kernel_Process
  imports Kernel_Exit
begin

text \<open>
  How processes come into being: the kernel's state after start-up satisfies the invariant, and a
  page table made by \<open>duplicate_pagetable\<close> turns a free slot into a process without user pages.
\<close>

unbundle bit_operations_syntax

section \<open>The kernel's state after start-up\<close>

text \<open>The slots of the kernel's page table: the first megabyte without U but for the console, the second with U.\<close>

definition kernel_slot :: "nat \<Rightarrow> 64 word" where
  "kernel_slot v =
     (if v < 512 then of_nat v * PAGESIZE + (if v = 0xB8 \<or> 256 \<le> v then 7 else 3) else 0)"

lemma slot_flags:
  assumes "v < 1024" "f \<in> {3, 5, 7}"
  shows "(of_nat v * PAGESIZE + f) AND 1 = f AND 1" "(of_nat v * PAGESIZE + f) AND 3 = f AND 3"
    "(of_nat v * PAGESIZE + f) AND 4 = f AND 4" "PTE_ADDR (of_nat v * PAGESIZE + f) = of_nat v * PAGESIZE"
proof -
  define x where "x = of_nat v * PAGESIZE + f"
  have al: "page_aligned (of_nat v * PAGESIZE)" by (rule user_page_addr(2)[OF assms(1)])
  have f: "f < 4096" using assms(2) by auto
  have x: "x AND 0xFFF = f" using PAGEOFFSET_plus[OF al f] by (simp add: PAGEOFFSET_def x_def)
  have "x AND g = f AND g" if "0xFFF AND g = g" for g
    using that x by (metis and.assoc)
  then show "(of_nat v * PAGESIZE + f) AND 1 = f AND 1" "(of_nat v * PAGESIZE + f) AND 3 = f AND 3"
    "(of_nat v * PAGESIZE + f) AND 4 = f AND 4" by (simp_all add: x_def)
  show "PTE_ADDR (of_nat v * PAGESIZE + f) = of_nat v * PAGESIZE" by (rule PTE_ADDR_plus[OF al f])
qed

lemma kernel_slot_views:
  assumes "slots m pt = kernel_slot"
  shows "low_identity m pt 512" "kernel_only m pt"
  using assms slot_flags[of _ 3] slot_flags[of _ 7]
  by (auto simp: low_identity_def kernel_only_def kernel_slot_def)

lemma boot_tables:
  assumes ok: "syms_ok syms"
    and wf: "pt_wf m kp" "pt_pages m kp = kernel_tables syms"
    and sl: "slots m kp = (\<lambda>v. if v < 512 then of_nat v * PAGESIZE + 7 else 0)"
  defines "m1 \<equiv> put_range 0 256 (map_entry 0 3) m kp"
  defines "m2 \<equiv> put_slot m1 kp 0xB8 (0xB8000 + 7)"
  shows "virtual_memory_map m kp 0 0 PROC_START_ADDR (uint (PTE_P OR PTE_W)) = Inr (0, m1)"
    "virtual_memory_map m1 kp 0xB8000 0xB8000 PAGESIZE (uint (PTE_P OR PTE_W OR PTE_U)) = Inr (0, m2)"
    "pt_wf m2 kp" "pt_pages m2 kp = kernel_tables syms" "slots m2 kp = kernel_slot"
proof -
  have z: "page_aligned 0" "vpn 0 = 0" "page_aligned 0xB8000" "vpn 0xB8000 = 0xB8" by (simp_all add: page_aligned_nat vpn_def)
  have "virtual_memory_map m kp 0 0 (of_nat 256 * PAGESIZE) 3 = Inr (0, m1)"
    using virtual_memory_map_range[OF wf(1) z(1), of 256 3 0] z by (simp add: m1_def)
  then show "virtual_memory_map m kp 0 0 PROC_START_ADDR (uint (PTE_P OR PTE_W)) = Inr (0, m1)" by simp
  note r = put_range_self[OF wf(1), of 0 256 "map_entry 0 3", folded m1_def, simplified]
  show "virtual_memory_map m1 kp 0xB8000 0xB8000 PAGESIZE (uint (PTE_P OR PTE_W OR PTE_U)) = Inr (0, m2)"
    using map_one_page[OF r(1) z(3), of 7 "0xB8000"] z by (simp add: m2_def)
  note p = put_slot_self[OF r(1), of "0xB8" "0xB8000 + 7", folded m2_def, simplified]
  show "pt_wf m2 kp" "pt_pages m2 kp = kernel_tables syms" using p r wf by simp_all
  show "slots m2 kp = kernel_slot"
    unfolding p(3) r(3) sl by (auto simp: kernel_slot_def map_entry_def fun_eq_iff)
qed

lemma kernel_tables_pn:
  assumes "syms_ok syms" "P \<in> set (kernel_tables syms)"
  shows "0x40 \<le> PAGENUMBER P" "4096 * PAGENUMBER P < uint (sym_end syms)" "PAGENUMBER P < 0x7F" "P \<noteq> CONSOLE_ADDR"
proof -
  define kp where "kp = sym_kernel_pagetables syms"
  have k: "0x40000 \<le> unat kp" "unat kp + 5 * 4096 \<le> unat (sym_end syms)" "unat (sym_end syms) \<le> 0x7F000"
    using assms(1) by (auto simp: syms_ok_def kp_def word_le_nat_alt)
  obtain i where i: "i < 5" "P = kp + of_nat i * PAGESIZE" using assms(2) by (auto simp: kernel_tables_def kp_def)
  have u: "unat P = unat kp + 4096 * i" unfolding i(2) using k i(1) by (intro plus_size) simp
  have b: "0x40000 \<le> unat P" "unat P < unat (sym_end syms)" "unat P < 0x7F000" using u k i(1) by simp_all
  have n: "PAGENUMBER P = int (unat P div 4096)" using b by (intro PAGENUMBER_nat) simp
  show "0x40 \<le> PAGENUMBER P" unfolding n using b(1) by (simp add: less_eq_div_iff_mult_less_eq)
  show "PAGENUMBER P < 0x7F" unfolding n using b(3) by (simp add: div_less_iff_less_mult)
  have "4096 * (unat P div 4096) \<le> unat P" by simp
  with b(2) have "4096 * (unat P div 4096) < unat (sym_end syms)" by linarith
  then show "4096 * PAGENUMBER P < uint (sym_end syms)" unfolding n uint_nat by linarith
  show "P \<noteq> CONSOLE_ADDR" using b(3) by auto
qed

lemma accounted_empty:
  assumes "\<And>pid. \<not> live s pid" "\<And>pn. 0 \<le> pn \<Longrightarrow> pn < NPAGES \<Longrightarrow> \<not> 1 \<le> sint (pi_owner (k_pageinfo s pn))"
  shows "accounted s"
  using assms unfolding accounted_def by blast

lemma boot_kernel_lemma:
  assumes "syms_ok syms"
  obtains s' where "boot_kernel syms s = Inr s'" "healthy syms s'" "\<And>pid. \<not> live s' pid" "slots (k_mem s') (sym_kernel_pagetables syms) = kernel_slot"
    "\<And>pid. 0 \<le> pid \<Longrightarrow> pid < NPROC \<Longrightarrow> k_processes s' pid = free_process pid"
    "{0x100..<NPAGES} \<subseteq> free_pages s'" "\<And>Q. Q \<notin> set (kernel_tables syms) \<Longrightarrow> Q \<noteq> CONSOLE_ADDR \<Longrightarrow> same_page (k_mem s) (k_mem s') Q"
proof -
  let ?kp = "sym_kernel_pagetables syms"
  obtain m0 where m0: "virtual_memory_init syms (k_mem s) = Inr (?kp, m0)" "pt_wf m0 ?kp" "pt_pages m0 ?kp = kernel_tables syms"
    "slots m0 ?kp = (\<lambda>v. if v < 512 then of_nat v * PAGESIZE + 7 else 0)" "\<And>Q. Q \<notin> set (kernel_tables syms) \<Longrightarrow> same_page (k_mem s) m0 Q"
    by (rule virtual_memory_init_slots[OF assms, of "k_mem s"]) blast
  define s1 where "s1 = console_clear (pageinfo_init syms (s\<lparr>k_mem := m0, k_cr3 := ?kp\<rparr>))"
  have clear: "same_page m0 (k_mem s1) Q" if "Q \<noteq> CONSOLE_ADDR" for Q
    using console_clear_page[OF that, of "pageinfo_init syms (s\<lparr>k_mem := m0, k_cr3 := ?kp\<rparr>)"] by (simp add: s1_def pageinfo_init_def)
  have "\<forall>P \<in> set (pt_pages m0 ?kp). same_page m0 (k_mem s1) P"
    using clear kernel_tables_pn(4)[OF assms] by (auto simp: m0(3))
  note t = same_tables[OF m0(2) this]
  note b = boot_tables[OF assms t(1) t(2)[unfolded m0(3)] t(3)[unfolded m0(4)]]
  let ?m = "put_slot (put_range 0 256 (map_entry 0 3) (k_mem s1) ?kp) ?kp 0xB8 (0xB8000 + 7)"
  let ?s = "s1\<lparr>k_mem := ?m, k_processes := (\<lambda>i. if 0 \<le> i \<and> i < NPROC then free_process i else k_processes s i)\<rparr>"
  have r: "boot_kernel syms s = Inr ?s"
    unfolding boot_kernel_def kernel_setup_def Let_def m0(1) by (simp add: s1_def[symmetric] b(1,2)[simplified] cong: if_cong)
  have info: "k_pageinfo s1 pn = \<lparr>pi_owner = word_of_int (init_owner syms (PAGEADDRESS pn)),
       pi_refcount = (if init_owner syms (PAGEADDRESS pn) \<noteq> PO_FREE then 1 else 0)\<rparr>" if "0 \<le> pn" "pn < NPAGES" for pn
    using pageinfo_init_at[OF that] by (simp add: s1_def console_clear_def)
  have nl: "\<not> live ?s pid" for pid by (simp add: live_def free_process_def)
  have "kinv_procs ?s" by (simp add: kinv_procs_def free_process_def)
  moreover have "kinv_kernel syms ?s"
  proof -
    have "k_pageinfo s1 (PAGENUMBER P) = \<lparr>pi_owner = -2, pi_refcount = 1\<rparr>" if "P \<in> set (kernel_tables syms)" for P
      using kernel_tables_pn[OF assms that] by (subst info) (auto simp: init_owner_page)
    then show ?thesis
      using b(3,4) kernel_slot_views[OF b(5)] by (auto simp: kinv_kernel_def Let_def page_nums_def)
  qed
  moreover have i: "kinv_info ?s"
    by (auto simp: kinv_info_def info init_owner_page split: if_splits)
  ultimately have kinv: "kinv syms ?s" using nl by (simp add: kinv_def kinv_excl_def)
  have acc: "accounted ?s"
  proof -
    have "\<not> 1 \<le> sint (pi_owner (k_pageinfo s1 pn))" if "0 \<le> pn" "pn < NPAGES" for pn
      unfolding info[OF that] using that by (auto simp: init_owner_page)
    with nl show ?thesis by (intro accounted_empty) simp_all
  qed
  have free: "{0x100..<NPAGES} \<subseteq> free_pages ?s"
  proof
    fix pn :: int assume "pn \<in> {0x100..<NPAGES}"
    moreover have "unat (sym_end syms) \<le> 0x7F000" using assms by (simp add: syms_ok_def)
    then have "uint (sym_end syms) \<le> 0x7F000" unfolding uint_nat by linarith
    ultimately show "pn \<in> free_pages ?s" by (auto simp: free_pages_def info init_owner_page)
  qed
  have same: "same_page (k_mem s) ?m Q" if "Q \<notin> set (kernel_tables syms)" "Q \<noteq> CONSOLE_ADDR" for Q
  proof -
    have q: "Q \<notin> {L4_of (k_mem s1) ?kp 0, L4_of (k_mem s1) ?kp 1}"
      using that(1) L4_of_nonzero(3)[OF t(1)] t(2) m0(3) by auto
    note r1 = put_range_same_page[OF t(1), of 0 256 Q "map_entry 0 3"] put_range_self[OF t(1), of 0 256 "map_entry 0 3"]
    have q': "Q \<notin> {L4_of (put_range 0 256 (map_entry 0 3) (k_mem s1) ?kp) ?kp 0, L4_of (put_range 0 256 (map_entry 0 3) (k_mem s1) ?kp) ?kp 1}"
      using that(1) L4_of_nonzero(3)[OF r1(2)] r1(3) t(2) m0(3) by auto
    have "same_page (k_mem s1) (put_range 0 256 (map_entry 0 3) (k_mem s1) ?kp) Q" using r1(1) q by simp
    moreover have "same_page (put_range 0 256 (map_entry 0 3) (k_mem s1) ?kp) ?m Q"
      using put_slot_same_page[OF r1(2) _ q', of "0xB8"] by simp
    ultimately show ?thesis using m0(5)[OF that(1)] clear[OF that(2)] by (meson same_page_trans)
  qed
  show thesis
  proof (rule that[OF r _ nl _ _ free])
    show "healthy syms ?s" using kinv acc by (simp add: healthy_def)
    show "slots (k_mem ?s) ?kp = kernel_slot" using b(5) by simp
    show "same_page (k_mem s) (k_mem ?s) Q" if "Q \<notin> set (kernel_tables syms)" "Q \<noteq> CONSOLE_ADDR" for Q
      using same[OF that] by simp
  qed simp
qed

section \<open>A new process\<close>

text \<open>
  \<open>joined syms c s s'\<close>: in \<open>s'\<close> the free slot \<open>c\<close> of \<open>s\<close> holds a process with a new page table made of
  free pages and no user mapping, and nothing else that the invariant depends on has changed.
\<close>

definition joined :: "link_symbols \<Rightarrow> int \<Rightarrow> kernel_state \<Rightarrow> kernel_state \<Rightarrow> bool" where
  "joined syms c s s' \<longleftrightarrow>
     1 \<le> c \<and> c < NPROC \<and> \<not> live s c \<and>
     (\<forall>p. p \<noteq> c \<longrightarrow> 0 \<le> p \<longrightarrow> p < NPROC \<longrightarrow>
        (p_state (k_processes s' p) = P_FREE) = (p_state (k_processes s p) = P_FREE) \<and>
        p_pid (k_processes s' p) = p_pid (k_processes s p) \<and> ptab s' p = ptab s p) \<and>
     p_pid (k_processes s' c) = c \<and> p_state (k_processes s' c) \<noteq> P_FREE \<and>
     pt_wf (k_mem s') (ptab s' c) \<and> low_identity (k_mem s') (ptab s' c) 256 \<and> kernel_only (k_mem s') (ptab s' c) \<and>
     (\<forall>v. 256 \<le> v \<longrightarrow> slot_of s' c v = 0) \<and>
     page_nums (k_mem s') (ptab s' c) \<subseteq> free_pages s \<and>
     k_pageinfo s' = (\<lambda>q. if q \<in> page_nums (k_mem s') (ptab s' c) then fresh_page c else k_pageinfo s q) \<and>
     (\<forall>Q. Q \<notin> set (pt_pages (k_mem s') (ptab s' c)) \<longrightarrow> same_page (k_mem s) (k_mem s') Q)"

lemma joined_live: "joined syms c s s' \<Longrightarrow> live s' p \<longleftrightarrow> live s p \<or> p = c"
  by (auto simp: joined_def live_def)

lemma joined_info:
  assumes "joined syms c s s'" "pi_refcount (k_pageinfo s pn) \<noteq> 0"
  shows "k_pageinfo s' pn = k_pageinfo s pn" "pn \<notin> page_nums (k_mem s') (ptab s' c)"
proof -
  show "pn \<notin> page_nums (k_mem s') (ptab s' c)" using assms free_not_used(1)[of pn s] by (auto simp: joined_def)
  then show "k_pageinfo s' pn = k_pageinfo s pn" using assms(1) by (simp add: joined_def)
qed

lemma joined_same:
  assumes "kinv syms s" "joined syms c s s'" "P \<in> table_pages syms s"
  shows "same_page (k_mem s) (k_mem s') P"
proof -
  have "pi_refcount (k_pageinfo s (PAGENUMBER P)) \<noteq> 0" using table_pages_info(4)[OF assms(1,3)] by simp
  from joined_info(2)[OF assms(2) this] have "P \<notin> set (pt_pages (k_mem s') (ptab s' c))" by (auto simp: page_nums_def)
  with assms(2) show ?thesis by (simp add: joined_def)
qed

lemma joined_views:
  assumes "kinv syms s" "joined syms c s s'" "live s p"
  shows "ptab s' p = ptab s p" "slot_of s' p = slot_of s p" "user_slot s' p = user_slot s p"
    "pt_wf (k_mem s') (ptab s p)"
    "pt_pages (k_mem s') (ptab s p) = pt_pages (k_mem s) (ptab s p)"
    "page_nums (k_mem s') (ptab s p) = page_nums (k_mem s) (ptab s p)"
proof -
  have "p \<noteq> c" "0 \<le> p" "p < NPROC" using assms(2,3) by (auto simp: joined_def live_def)
  with assms(2) show pt: "ptab s' p = ptab s p" by (simp add: joined_def)
  have wf: "pt_wf (k_mem s) (ptab s p)" using kinvD(5)[OF assms(1,3)] by (simp add: kinv_table_def)
  have "\<forall>P \<in> set (pt_pages (k_mem s) (ptab s p)). same_page (k_mem s) (k_mem s') P"
    using joined_same[OF assms(1,2)] assms(3) by (auto simp: table_pages_def)
  note t = same_tables[OF wf this]
  from t pt show "slot_of s' p = slot_of s p" "pt_wf (k_mem s') (ptab s p)"
    "pt_pages (k_mem s') (ptab s p) = pt_pages (k_mem s) (ptab s p)"
    "page_nums (k_mem s') (ptab s p) = page_nums (k_mem s) (ptab s p)" by simp_all
  then show "user_slot s' p = user_slot s p" by (intro ext) (simp add: user_slot_def)
qed

lemma joined_no_user: "joined syms c s s' \<Longrightarrow> \<not> user_slot s' c v pn"
  by (simp add: joined_def user_slot_def)

lemma joined_user:
  assumes "kinv syms s" "joined syms c s s'" "live s' p" "user_slot s' p v pn"
  shows "live s p" "user_slot s p v pn" "slot_of s' p v = slot_of s p v"
proof -
  have "p \<noteq> c" using joined_no_user[OF assms(2)] assms(4) by blast
  then show "live s p" using joined_live[OF assms(2)] assms(3) by blast
  from joined_views[OF assms(1,2) this] assms(4) show "user_slot s p v pn" "slot_of s' p v = slot_of s p v" by simp_all
qed

lemma joined_kinv:
  assumes inv: "kinv syms s" and j: "joined syms c s s'"
  shows "kinv syms s'"
proof -
  let ?kp = "sym_kernel_pagetables syms"
  note jd = j[unfolded joined_def] and views = joined_views[OF inv j] and info = joined_info[OF j]
  note k = kinvD(2)[OF inv, unfolded kinv_kernel_def Let_def]
  have kwf: "pt_wf (k_mem s) ?kp" using k by blast
  have "\<forall>P \<in> set (pt_pages (k_mem s) ?kp). same_page (k_mem s) (k_mem s') P"
    using joined_same[OF inv j] k by (auto simp: table_pages_def)
  note ke = same_tables[OF kwf this]
  have "kinv_procs s'"
    unfolding kinv_procs_def
  proof (intro conjI allI impI)
    show "p_state (k_processes s' 0) = P_FREE" using jd kinvD(1)[OF inv] by (simp add: kinv_procs_def)
    fix pid assume "0 \<le> pid \<and> pid < NPROC"
    then show "p_pid (k_processes s' pid) = pid" using jd kinvD(1)[OF inv] by (cases "pid = c") (simp_all add: kinv_procs_def)
  qed
  moreover have "kinv_kernel syms s'"
    using k info(1) unfolding kinv_kernel_def Let_def low_identity_def kernel_only_def by (simp add: ke)
  moreover have "kinv_info s'"
  proof -
    have c: "sint (pi_owner (fresh_page c)) = c" using jd by (intro sint_fresh) simp_all
    have "k_pageinfo s' pn = k_pageinfo s pn \<or> k_pageinfo s' pn = fresh_page c" for pn using jd by simp
    then have "sint (pi_owner (k_pageinfo s' pn)) \<in> {-2, -1} \<or> live s' (sint (pi_owner (k_pageinfo s' pn)))"
      if "0 \<le> pn \<and> pn < NPAGES \<and> pi_refcount (k_pageinfo s' pn) \<noteq> 0" for pn
      using kinvD(3)[OF inv] that c unfolding kinv_info_def joined_live[OF j] by metis
    moreover have "k_pageinfo s' 0 = \<lparr>pi_owner = -1, pi_refcount = 1\<rparr>" "k_pageinfo s' 0xB8 = \<lparr>pi_owner = -1, pi_refcount = 1\<rparr>"
      using kinvD(3)[OF inv] info(1)[of 0] info(1)[of "0xB8"] by (simp_all add: kinv_info_def)
    ultimately show ?thesis unfolding kinv_info_def by blast
  qed
  moreover have "kinv_excl s'"
    unfolding kinv_excl_def
  proof (intro allI impI)
    fix p q v w pn
    assume h: "live s' p" "live s' q" "user_slot s' p v pn" "user_slot s' q w pn" "p = q \<or> slot_of s' p v AND PTE_W \<noteq> 0"
    note a = joined_user[OF inv j h(1,3)] and b = joined_user[OF inv j h(2,4)]
    show "p = q \<and> v = w" using kinvD(4)[OF inv] a b h(5) unfolding kinv_excl_def by metis
  qed
  moreover have "kinv_table s' p" if "live s' p" for p
  proof (cases "p = c")
    case True
    then show ?thesis using jd by (auto simp: kinv_table_def)
  next
    case False
    then have l: "live s p" using joined_live[OF j] that by blast
    show ?thesis
      using kinvD(5)[OF inv l] info(1) views[OF l] used_page_nums[OF inv l]
      unfolding kinv_table_def low_identity_def kernel_only_def by auto
  qed
  moreover have "kinv_user s' p" if lp: "live s' p" for p
    unfolding kinv_user_def
  proof (intro allI impI)
    fix v pn assume "user_slot s' p v pn"
    note a = joined_user[OF inv j lp this]
    note i = user_page_info[OF inv a(1,2)]
    have "pn \<notin> page_nums (k_mem s') (ptab s' q)" if "live s' q" for q
      using i(2,6) info(2) views(1,6) joined_live[OF j, of q] that by (cases "q = c") auto
    with i a(3) info(1)[OF i(2)] show "PTE_ADDR (slot_of s' p v) < MEMSIZE_PHYSICAL \<and> pi_refcount (k_pageinfo s' pn) \<noteq> 0 \<and>
        1 \<le> sint (pi_owner (k_pageinfo s' pn)) \<and> sint (pi_owner (k_pageinfo s' pn)) < NPROC \<and>
        (slot_of s' p v AND PTE_W \<noteq> 0 \<longrightarrow> k_pageinfo s' pn = fresh_page p) \<and>
        (\<forall>q. live s' q \<longrightarrow> pn \<notin> page_nums (k_mem s') (ptab s' q))" by simp
  qed
  ultimately show ?thesis by (simp add: kinv_def)
qed

lemma joined_sharers:
  assumes "kinv syms s" "joined syms c s s'"
  shows "sharers s' pn = sharers s pn"
proof
  show "sharers s' pn \<subseteq> sharers s pn" using joined_user(1,2)[OF assms] unfolding sharers_def by blast
  show "sharers s pn \<subseteq> sharers s' pn"
    unfolding sharers_def joined_live[OF assms(2)] using joined_views(3)[OF assms] by auto
qed

lemma joined_accounted:
  assumes inv: "kinv syms s" and j: "joined syms c s s'" and acc: "accounted s"
  shows "accounted s'"
proof -
  have "v < 768 \<and> unat (pi_refcount (k_pageinfo s' pn)) = card (sharers s' pn)" if h: "live s' p" "user_slot s' p v pn" for p v pn
  proof -
    note u = joined_user(1,2)[OF inv j h]
    show ?thesis
      unfolding joined_sharers[OF inv j] joined_info(1)[OF j user_page_info(2)[OF inv u]]
      using accountedD(1,2)[OF acc u] by blast
  qed
  moreover have "pn \<in> page_nums (k_mem s') (ptab s' own) \<or> (\<exists>v. user_slot s' own v pn)"
    if h: "0 \<le> pn" "pn < NPAGES" "pi_refcount (k_pageinfo s' pn) \<noteq> 0" "sint (pi_owner (k_pageinfo s' pn)) = own" "1 \<le> own" for pn own
  proof (cases "pn \<in> page_nums (k_mem s') (ptab s' c)")
    case True
    then have "k_pageinfo s' pn = fresh_page c" using j by (simp add: joined_def)
    then have "own = c" using h(4) j sint_fresh[of c] by (simp add: joined_def)
    with True show ?thesis by simp
  next
    case False
    then have i: "k_pageinfo s' pn = k_pageinfo s pn" using j by (simp add: joined_def)
    then have l: "live s own" using kinvD(3)[OF inv] h by (fastforce simp: kinv_info_def)
    show ?thesis using accountedD(3)[OF acc h(1,2), of own] h i joined_views[OF inv j l] by simp
  qed
  ultimately show ?thesis unfolding accounted_def by blast
qed

lemma duplicate_joined:
  assumes inv: "kinv syms s" and c: "1 \<le> c" "c < NPROC" "\<not> live s c"
    and wf: "pt_wf (k_mem s) pt" "low_identity (k_mem s) pt 256" "kernel_only (k_mem s) pt"
    and used: "page_nums (k_mem s) pt \<inter> free_pages s = {}" and room: "5 \<le> card (free_pages s)"
  obtains L s1 where "duplicate_pagetable pt c (upd_proc c f s) = Inr (L, s1)" "L \<noteq> 0"
    "s1 = (upd_proc c f s)\<lparr>k_mem := k_mem s1, k_pageinfo := k_pageinfo s1\<rparr>"
    "free_pages s1 = free_pages s - page_nums (k_mem s1) L" "card (page_nums (k_mem s1) L) = 5"
    "\<And>s'. k_mem s' = k_mem s1 \<Longrightarrow> k_pageinfo s' = k_pageinfo s1 \<Longrightarrow> (\<forall>p. p \<noteq> c \<longrightarrow> k_processes s' p = k_processes s p) \<Longrightarrow>
       p_pid (k_processes s' c) = c \<Longrightarrow> p_state (k_processes s' c) \<noteq> P_FREE \<Longrightarrow> ptab s' c = L \<Longrightarrow> joined syms c s s'"
proof -
  let ?s = "upd_proc c f s"
  have id: "slots (k_mem s) pt v AND 3 = 3" "PTE_ADDR (slots (k_mem s) pt v) = of_nat v * PAGESIZE" if "v < 256" for v
    using wf(2) that by (simp_all add: low_identity_def)
  have phys: "PTE_ADDR (slots (k_mem s) pt v) < MEMSIZE_PHYSICAL" if "v < 256" for v
    using user_page_addr(3)[of v] that by (simp add: id(2) word_less_nat_alt)
  have fp: "free_pages ?s = free_pages s" by (simp add: free_pages_def)
  obtain L s1 where d: "duplicate_pagetable pt c ?s = Inr (L, s1)" "L \<noteq> 0" "pt_wf (k_mem s1) L"
    "slots (k_mem s1) L = (\<lambda>v. if v < 256 then present (slots (k_mem s) pt v) else 0)"
    "page_nums (k_mem s1) L \<subseteq> free_pages s" "card (page_nums (k_mem s1) L) = 5"
    "k_pageinfo s1 = (\<lambda>q. if q \<in> page_nums (k_mem s1) L then fresh_page c else k_pageinfo s q)"
    "\<forall>Q. Q \<notin> set (pt_pages (k_mem s1) L) \<longrightarrow> same_page (k_mem s) (k_mem s1) Q"
    "s1 = ?s\<lparr>k_mem := k_mem s1, k_pageinfo := k_pageinfo s1\<rparr>"
    by (rule duplicate_pagetable_lemma[of ?s pt c, unfolded upd_proc_simps(1,2) fp, OF wf(1) used room])
       (use phys in blast)+
  have free: "free_pages s1 = free_pages s - page_nums (k_mem s1) L"
    using d(5) by (auto simp: free_pages_def d(7) fresh_page_def split: if_splits)
  have sl: "slots (k_mem s1) L v = slots (k_mem s) pt v" if "v < 256" for v
    using and_3_bits[OF id(1)[OF that]] that by (simp add: d(4) present_def)
  show thesis
  proof (rule that[OF d(1,2,9) free d(6)])
    fix s' assume h: "k_mem s' = k_mem s1" "k_pageinfo s' = k_pageinfo s1" "\<forall>p. p \<noteq> c \<longrightarrow> k_processes s' p = k_processes s p"
      "p_pid (k_processes s' c) = c" "p_state (k_processes s' c) \<noteq> P_FREE" "ptab s' c = L"
    have "low_identity (k_mem s1) L 256" "kernel_only (k_mem s1) L"
      using wf(2,3) by (simp_all add: low_identity_def kernel_only_def sl)
    then show "joined syms c s s'"
      unfolding joined_def h(1,2,6) using c h d(3-8) by (simp add: d(4))
  qed
qed

lemma kernel_source:
  assumes "kinv syms s"
  shows "pt_wf (k_mem s) (sym_kernel_pagetables syms)" "low_identity (k_mem s) (sym_kernel_pagetables syms) 256"
    "kernel_only (k_mem s) (sym_kernel_pagetables syms)" "page_nums (k_mem s) (sym_kernel_pagetables syms) \<inter> free_pages s = {}"
  using kinvD(2)[OF assms] low_identity_mono[of _ _ 512 256] by (auto simp: kinv_kernel_def Let_def free_pages_def)

lemma process_source:
  assumes "kinv syms s" "live s p"
  shows "pt_wf (k_mem s) (ptab s p)" "low_identity (k_mem s) (ptab s p) 256" "kernel_only (k_mem s) (ptab s p)"
    "page_nums (k_mem s) (ptab s p) \<inter> free_pages s = {}"
  using kinvD(5)[OF assms] used_page_nums[OF assms] by (auto simp: kinv_table_def free_pages_def)

end
