(* ===== verification/Kernel_Fork.thy ===== *)
theory Kernel_Fork
  imports Kernel_Process
begin

text \<open>
  The fork system call, on a state with enough free pages: the child gets copies of the writable
  pages and shares the read-only ones, and the invariant and the accounting hold again.
\<close>

unbundle bit_operations_syntax

section \<open>Sharing a read-only page\<close>

definition with_share :: "int \<Rightarrow> nat \<Rightarrow> int \<Rightarrow> 64 word \<Rightarrow> kernel_state \<Rightarrow> kernel_state" where
  "with_share c v pn e s =
     set_pageinfo pn ((k_pageinfo s pn)\<lparr>pi_refcount := pi_refcount (k_pageinfo s pn) + 1\<rparr>)
       (s\<lparr>k_mem := put_slot (k_mem s) (ptab s c) v e\<rparr>)"

lemma with_share_simps:
  "k_processes (with_share c v pn e s) = k_processes s"
  "k_pageinfo (with_share c v pn e s) = (k_pageinfo s)(pn := (k_pageinfo s pn)\<lparr>pi_refcount := pi_refcount (k_pageinfo s pn) + 1\<rparr>)"
  "k_mem (with_share c v pn e s) = put_slot (k_mem s) (ptab s c) v e"
  "k_current (with_share c v pn e s) = k_current s"
  "live (with_share c v pn e s) q = live s q"
  by (simp_all add: with_share_def live_def)

lemma with_share_user:
  assumes "kinv syms s" "live s c" "live s q" "256 \<le> v" "v < 1024" "user_slot s p v pn" "slot_of s c v AND PTE_P = 0"
  shows "user_slot (with_share c v pn (slot_of s p v) s) q w x \<longleftrightarrow> q = c \<and> w = v \<and> x = pn \<or> user_slot s q w x"
proof -
  have "\<not> user_slot s c v x" using assms(7) by (simp add: user_slot_def)
  then show ?thesis
    using with_page_tables(3)[OF assms(1,2,5,3), where e = "slot_of s p v"] assms(4,5,6)
    by (auto simp: user_slot_def with_share_simps split: if_splits)
qed

lemma with_share_slot:
  assumes "kinv syms s" "live s c" "live s q" "v < 1024"
  shows "slot_of (with_share c v pn e s) q = (if q = c then (slot_of s c)(v := e) else slot_of s q)"
  using with_page_tables(3)[OF assms(1,2,4,3), where e = e] by (auto simp: with_share_simps)

text \<open>When the child \<open>c\<close> may take over the read-only page \<open>pn\<close> that \<open>p\<close> maps at \<open>v\<close>.\<close>

definition sharable :: "link_symbols \<Rightarrow> kernel_state \<Rightarrow> int \<Rightarrow> int \<Rightarrow> nat \<Rightarrow> int \<Rightarrow> bool" where
  "sharable syms s p c v pn \<longleftrightarrow>
     kinv syms s \<and> accounted s \<and> live s p \<and> live s c \<and> 256 \<le> v \<and> v < 768 \<and> user_slot s p v pn \<and>
     slot_of s p v AND PTE_W = 0 \<and> slot_of s c v AND PTE_P = 0 \<and> (\<forall>w. \<not> user_slot s c w pn)"

lemma sharableD:
  assumes "sharable syms s p c v pn"
  shows "kinv syms s" "accounted s" "live s p" "live s c" "256 \<le> v" "v < 768" "v < 1024" "user_slot s p v pn"
    "slot_of s p v AND PTE_W = 0" "slot_of s c v AND PTE_P = 0" "\<And>w. \<not> user_slot s c w pn"
  using assms by (simp_all add: sharable_def)

lemma share_sharers:
  assumes sh: "sharable syms s p c v pn"
  shows "sharers (with_share c v pn (slot_of s p v) s) x = (if x = pn then insert c (sharers s pn) else sharers s x)"
  using with_share_user[OF sharableD(1,4)[OF sh] _ sharableD(5,7,8,10)[OF sh]] sharableD(4)[OF sh]
  unfolding sharers_def with_share_simps(5) by auto

lemma share_refcount:
  assumes sh: "sharable syms s p c v pn"
  shows "unat (pi_refcount (k_pageinfo s pn) + 1) = card (insert c (sharers s pn))" "pi_refcount (k_pageinfo s pn) + 1 \<noteq> 0"
proof -
  note inv = sharableD(1)[OF sh] and acc = sharableD(2)[OF sh] and l = sharableD(3,4)[OF sh] and v = sharableD(5,6)[OF sh]
    and share_v = sharableD(7)[OF sh] and us = sharableD(8)[OF sh] and ro = sharableD(9)[OF sh]
    and absent = sharableD(10)[OF sh] and new = sharableD(11)[OF sh]
  have "c \<notin> sharers s pn" using new by (simp add: sharers_def)
  then have c: "card (insert c (sharers s pn)) = Suc (unat (pi_refcount (k_pageinfo s pn)))"
    using accountedD(2)[OF acc l(1) us] sharers_finite[of s pn] by simp
  have "unat (pi_refcount (k_pageinfo s pn)) \<le> 15" using accountedD(2)[OF acc l(1) us] sharers_card[of s pn] by simp
  then have "unat (pi_refcount (k_pageinfo s pn) + 1) = Suc (unat (pi_refcount (k_pageinfo s pn)))"
    by (simp add: unat_word_ariths)
  with c show "unat (pi_refcount (k_pageinfo s pn) + 1) = card (insert c (sharers s pn))" "pi_refcount (k_pageinfo s pn) + 1 \<noteq> 0"
    by auto
qed

lemma share_kinv:
  assumes sh: "sharable syms s p c v pn"
  shows "kinv syms (with_share c v pn (slot_of s p v) s)"
proof -
  note inv = sharableD(1)[OF sh] and acc = sharableD(2)[OF sh] and l = sharableD(3,4)[OF sh] and v = sharableD(5,6)[OF sh]
    and share_v = sharableD(7)[OF sh] and us = sharableD(8)[OF sh] and ro = sharableD(9)[OF sh]
    and absent = sharableD(10)[OF sh] and new = sharableD(11)[OF sh]
  let ?e = "slot_of s p v" and ?s = "with_share c v pn (slot_of s p v) s"
  note tb = with_page_tables[OF inv l(2) share_v, where e = ?e]
  note u = with_share_user[OF inv l(2) _ v(1) share_v us absent] and sl = with_share_slot[OF inv l(2) _ share_v, of _ pn ?e]
  note i = user_page_info[OF inv l(1) us]
  have "kinv_procs ?s" using kinvD(1)[OF inv] by (simp add: kinv_procs_def with_share_simps)
  moreover have "kinv_kernel syms ?s"
    using kinvD(2)[OF inv] tb(4-6) i(7)
    by (auto simp: kinv_kernel_def Let_def with_share_simps page_nums_def low_identity_def kernel_only_def)
  moreover have "kinv_info ?s"
    using kinvD(3)[OF inv] i(2,3) share_refcount(2)[OF sh] unfolding kinv_info_def with_share_simps(2,5) by auto
  moreover have "kinv_excl ?s"
    unfolding kinv_excl_def with_share_simps(5)
  proof (intro allI impI)
    fix a b x w y
    assume h: "live s a" "live s b" "user_slot ?s a x y" "user_slot ?s b w y" "a = b \<or> slot_of ?s a x AND PTE_W \<noteq> 0"
    have old: "user_slot s a x y \<Longrightarrow> slot_of ?s a x = slot_of s a x"
      using sl[OF h(1)] absent by (auto simp: user_slot_def)
    have w: "slot_of s a x AND PTE_W = 0" if "user_slot s a x pn"
      using kinvD(4)[OF inv] h(1) l(1) that us ro unfolding kinv_excl_def by metis
    have e: "slot_of ?s c v AND PTE_W = 0" using sl[OF l(2)] ro by simp
    show "a = b \<and> x = w"
      using u[OF h(1)] u[OF h(2)] h old w e new kinvD(4)[OF inv] unfolding kinv_excl_def by metis
  qed
  moreover have "kinv_table ?s q" if "live s q" for q
    using kinvD(5)[OF inv that] tb(1-3)[OF that] v(1) i(6)[OF that]
    by (auto simp: kinv_table_def with_share_simps low_identity_def kernel_only_def)
  moreover have "kinv_user ?s q" if lq: "live s q" for q
    unfolding kinv_user_def with_share_simps(5)
  proof (intro allI impI)
    fix w y assume h: "user_slot ?s q w y"
    have tabs: "page_nums (k_mem ?s) (ptab ?s r) = page_nums (k_mem s) (ptab s r)" if "live s r" for r
      using tb(2)[OF that] by (simp add: with_share_simps)
    show "PTE_ADDR (slot_of ?s q w) < MEMSIZE_PHYSICAL \<and> pi_refcount (k_pageinfo ?s y) \<noteq> 0 \<and>
        1 \<le> sint (pi_owner (k_pageinfo ?s y)) \<and> sint (pi_owner (k_pageinfo ?s y)) < NPROC \<and>
        (slot_of ?s q w AND PTE_W \<noteq> 0 \<longrightarrow> k_pageinfo ?s y = fresh_page q) \<and>
        (\<forall>r. live s r \<longrightarrow> y \<notin> page_nums (k_mem ?s) (ptab ?s r))"
    proof (cases "q = c \<and> w = v")
      case True
      then have "slot_of ?s q w = ?e" using sl[OF lq] by simp
      moreover have "y = pn" using True u[OF lq] h absent by (metis user_slot_def)
      ultimately show ?thesis using i share_refcount(2)[OF sh] ro tabs by (simp add: with_share_simps)
    next
      case False
      then have o: "user_slot s q w y" "slot_of ?s q w = slot_of s q w" using u[OF lq] h sl[OF lq] by auto
      note j = user_page_info[OF inv lq o(1)]
      have "slot_of s q w AND PTE_W \<noteq> 0 \<Longrightarrow> y \<noteq> pn"
        using kinvD(4)[OF inv] lq l(1) o(1) us ro unfolding kinv_excl_def by metis
      then show ?thesis using j o(2) share_refcount(2)[OF sh] tabs by (auto simp: with_share_simps)
    qed
  qed
  ultimately show ?thesis by (simp add: kinv_def with_share_simps(5))
qed

lemma share_accounted:
  assumes sh: "sharable syms s p c v pn"
  shows "accounted (with_share c v pn (slot_of s p v) s)"
proof -
  note inv = sharableD(1)[OF sh] and acc = sharableD(2)[OF sh] and l = sharableD(3,4)[OF sh] and v = sharableD(5,6)[OF sh]
    and share_v = sharableD(7)[OF sh] and us = sharableD(8)[OF sh] and ro = sharableD(9)[OF sh]
    and absent = sharableD(10)[OF sh] and new = sharableD(11)[OF sh]
  let ?s = "with_share c v pn (slot_of s p v) s"
  note u = with_share_user[OF inv l(2) _ v(1) share_v us absent]
  have "w < 768 \<and> unat (pi_refcount (k_pageinfo ?s x)) = card (sharers ?s x)" if h: "live s q" "user_slot ?s q w x" for q w x
    using u[OF h(1)] h(2) accountedD(1,2)[OF acc h(1), of w x] v(2) share_refcount(1)[OF sh]
    unfolding share_sharers[OF sh] with_share_simps(2) by auto
  moreover have "x \<in> page_nums (k_mem ?s) (ptab ?s own) \<or> (\<exists>w. user_slot ?s own w x)"
    if h: "0 \<le> x" "x < NPAGES" "pi_refcount (k_pageinfo ?s x) \<noteq> 0" "sint (pi_owner (k_pageinfo ?s x)) = own" "1 \<le> own" for x own
  proof -
    have o: "sint (pi_owner (k_pageinfo s x)) = own" "pi_refcount (k_pageinfo s x) \<noteq> 0"
      using h user_page_info(2)[OF inv l(1) us] by (auto simp: with_share_simps split: if_splits)
    then have lo: "live s own" using kinvD(3)[OF inv] h by (fastforce simp: kinv_info_def)
    show ?thesis
      using accountedD(3)[OF acc h(1,2) o(2,1) h(5)] u[OF lo] with_page_tables(2)[OF inv l(2) share_v lo, where e = "slot_of s p v"]
      by (auto simp: with_share_simps)
  qed
  ultimately show ?thesis unfolding accounted_def with_share_simps(5) by blast
qed

section \<open>Copying the address space\<close>

lemma store_load_le:
  assumes "n < 2 ^ 64" "8 * n \<le> LENGTH('a)"
  shows "store_le m a n (load_le m a n :: 'a::len word) = m"
proof
  fix x
  define k where "k = unat (x - a)"
  have x: "x = a + of_nat k" by (simp add: k_def)
  show "store_le m a n (load_le m a n :: 'a word) x = m x"
  proof (cases "k < n")
    case True
    have "bit (ucast (drop_bit (8 * k) (load_le m a n :: 'a word)) :: 8 word) j = bit (m x) j" if "j < 8" for j
    proof -
      have "(8 * k + j) div 8 = k" "(8 * k + j) mod 8 = j" "8 * k + j < 8 * n" "8 * k + j < LENGTH('a)" using that True assms(2) by auto
      then show ?thesis using that by (simp add: bit_simps bit_load_le x)
    qed
    then have "ucast (drop_bit (8 * k) (load_le m a n :: 'a word)) = m x" by (intro bit_word_eqI) simp
    with True show ?thesis by (simp add: store_le_def k_def)
  next
    case False
    then show ?thesis by (simp add: store_le_def k_def)
  qed
qed

lemma put_slot_idem: "v < 1024 \<Longrightarrow> put_slot m pt v (slots m pt v) = m"
  by (simp add: put_slot_def slots_def set_pt_entry_def pt_entry_def store_load_le)

lemma memcpy_page:
  assumes "page_aligned P" "page_aligned Q" "P \<noteq> Q"
  shows "memcpy m P Q PAGESIZE = (\<lambda>x. if PTE_ADDR x = P then m (Q + (x - P)) else m x)"
proof -
  have "\<not> P - Q < 4096" using diff_less_page[OF assms(2), of P] PTE_ADDR_self[OF assms(1)] assms(3) by simp
  then show ?thesis by (subst memcpy_effect) (simp_all add: diff_less_page[OF assms(1)] not_less)
qed

lemma user_page_not_console:
  assumes "kinv syms s" "live s p" "user_slot s p v pn"
  shows "PTE_ADDR (slot_of s p v) \<noteq> CONSOLE_ADDR"
proof
  assume "PTE_ADDR (slot_of s p v) = CONSOLE_ADDR"
  then have "pn = 0xB8" using assms(3) by (simp add: user_slot_def PAGENUMBER_nat)
  then show False using user_page_info(3)[OF assms] kinvD(3)[OF assms(1)] by (simp add: kinv_info_def)
qed

lemma PTE_FLAGS_bound: "PTE_FLAGS e < 4096"
  by (simp add: PTE_FLAGS_def and_FFF_less)

lemma PTE_FLAGS_flag: "f \<in> {1, 2, 4} \<Longrightarrow> PTE_FLAGS e AND f = e AND f"
  by (auto simp: PTE_FLAGS_def and.assoc)

text \<open>The page copied for the child, with the flags of the parent's entry.\<close>

definition with_copy :: "int \<Rightarrow> nat \<Rightarrow> 64 word \<Rightarrow> kernel_state \<Rightarrow> kernel_state" where
  "with_copy c v e s =
     (let pn = Min (free_pages s) in
      with_page c v pn (PAGEADDRESS pn + PTE_FLAGS e) (s\<lparr>k_mem := memcpy (k_mem s) (PAGEADDRESS pn) (PTE_ADDR e) PAGESIZE\<rparr>))"

lemma free_page_not_table:
  assumes "kinv syms s" "pn \<in> free_pages s"
  shows "PAGEADDRESS pn \<notin> table_pages syms s"
  using table_pages_info(4)[OF assms(1)] free_not_used[OF assms(2)] PAGEADDRESS_usable(5)[of pn] by fastforce

lemma copy_framed:
  assumes "kinv syms s" "live s p" "user_slot s p v x" "free_pages s \<noteq> {}"
  defines "P \<equiv> PAGEADDRESS (Min (free_pages s))"
  shows "framed syms s (s\<lparr>k_mem := memcpy (k_mem s) P (PTE_ADDR (slot_of s p v)) PAGESIZE\<rparr>)"
    "memcpy (k_mem s) P (PTE_ADDR (slot_of s p v)) PAGESIZE =
      (\<lambda>a. if PTE_ADDR a = P then k_mem s (PTE_ADDR (slot_of s p v) + (a - P)) else k_mem s a)"
    "P \<noteq> PTE_ADDR (slot_of s p v)"
proof -
  note pn = Min_free_pages[OF assms(4)]
  note u = PAGEADDRESS_usable[OF pn(2,3), folded P_def]
  show ne: "P \<noteq> PTE_ADDR (slot_of s p v)"
    using user_page_info(2)[OF assms(1-3)] assms(3) free_not_used(1)[OF pn(1)] u(5) by (auto simp: user_slot_def)
  show eq: "memcpy (k_mem s) P (PTE_ADDR (slot_of s p v)) PAGESIZE =
      (\<lambda>a. if PTE_ADDR a = P then k_mem s (PTE_ADDR (slot_of s p v) + (a - P)) else k_mem s a)"
    by (rule memcpy_page[OF u(1) PTE_ADDR_aligned ne])
  have "P \<notin> table_pages syms s" unfolding P_def by (rule free_page_not_table[OF assms(1) pn(1)])
  then show "framed syms s (s\<lparr>k_mem := memcpy (k_mem s) P (PTE_ADDR (slot_of s p v)) PAGESIZE\<rparr>)"
    unfolding framed_def eq same_page_def by auto
qed

lemma framed_wf: "kinv syms s \<Longrightarrow> framed syms s s' \<Longrightarrow> live s q \<Longrightarrow> pt_wf (k_mem s') (ptab s' q)"
  using kinvD(5)[OF framed_kinv, of syms s s' q] framed_live[of syms s s' q] by (simp add: kinv_table_def)

lemma fork_page_step:
  assumes inv: "kinv syms s" and l: "live s (k_current s)" "live s c" and v: "256 \<le> v" "v < 768" and zero: "slot_of s c v = 0"
  defines "e \<equiv> slot_of s (k_current s) v"
  shows "e AND PTE_P = 0 \<Longrightarrow> fork_page c (of_nat v * PAGESIZE) s =
      Inr (set_pageinfo (-1) ((k_pageinfo s (-1))\<lparr>pi_refcount := pi_refcount (k_pageinfo s (-1)) + 1\<rparr>) s)"
    "e AND PTE_P \<noteq> 0 \<Longrightarrow> e AND PTE_W = 0 \<Longrightarrow> fork_page c (of_nat v * PAGESIZE) s = Inr (with_share c v (PAGENUMBER (PTE_ADDR e)) e s)"
    "e AND PTE_P \<noteq> 0 \<Longrightarrow> e AND PTE_W \<noteq> 0 \<Longrightarrow> free_pages s \<noteq> {} \<Longrightarrow> fork_page c (of_nat v * PAGESIZE) s = Inr (with_copy c v e s)"
proof -
  let ?va = "of_nat v * PAGESIZE :: 64 word"
  have v': "v < 1024" using v by simp
  note va = user_page_addr[OF v']
  have wf: "pt_wf (k_mem s) (ptab s c)" using kinvD(5)[OF inv l(2)] by (simp add: kinv_table_def)
  have look: "virtual_memory_lookup (k_mem s) (p_pagetable (cur s)) ?va = vam_of e ?va"
    using kinv_lookup[OF inv l(1), of ?va] va(1) by (simp add: e_def)
  have low: "unat ?va < 0x400000" using va(3) v' by simp
  have phys: "e AND PTE_P \<noteq> 0 \<Longrightarrow> PTE_ADDR e < MEMSIZE_PHYSICAL" unfolding e_def by (rule kinv_slot_phys[OF inv l(1) v'])
  note copy = map_copy_page[OF wf va(2) low phys, unfolded va(1)]
  have w: "word_of_int (vam_perm (vam_of e ?va)) AND PTE_W = e AND PTE_W" if "e AND PTE_P \<noteq> 0"
    using that by (intro vam_of_flag) auto
  {
    assume a: "e AND PTE_P = 0"
    then have "vam_of e ?va = \<lparr>vam_pn = -1, vam_pa = -1, vam_perm = 0\<rparr>" by (simp add: vam_of_def)
    moreover have "put_slot (k_mem s) (ptab s c) v (present e) = k_mem s"
      using put_slot_idem[OF v', of "k_mem s" "ptab s c"] a zero by (simp add: present_def)
    ultimately show "fork_page c ?va s = Inr (set_pageinfo (-1) ((k_pageinfo s (-1))\<lparr>pi_refcount := pi_refcount (k_pageinfo s (-1)) + 1\<rparr>) s)"
      using copy unfolding fork_page_def look by (simp add: Let_def)
  }
  assume p: "e AND PTE_P \<noteq> 0"
  note vam = PTE_ADDR_vam[OF p phys[OF p] va(2)]
  have us: "user_slot s (k_current s) v (PAGENUMBER (PTE_ADDR e))" unfolding e_def by (rule user_slot_self[OF v(1) v' p[unfolded e_def]])
  show "fork_page c ?va s = Inr (with_share c v (PAGENUMBER (PTE_ADDR e)) e s)" if "e AND PTE_W = 0"
    using copy w[OF p] that p unfolding fork_page_def look vam Let_def by (simp add: with_share_def present_def)
  show "fork_page c ?va s = Inr (with_copy c v e s)" if wr: "e AND PTE_W \<noteq> 0" and free: "free_pages s \<noteq> {}"
  proof -
    define pn where "pn = Min (free_pages s)"
    note u = PAGEADDRESS_usable[OF Min_free_pages(2,3)[OF free], folded pn_def]
    have al: "alloc_page_process c s = (PAGEADDRESS pn, set_pageinfo pn (fresh_page c) s)"
      using free Min_free_pages(2,3)[OF free] by (simp add: alloc_page_process_eq scan_free_Min pn_def Let_def)
    note cf = copy_framed[OF inv l(1) us free, folded e_def pn_def]
    let ?m = "memcpy (k_mem s) (PAGEADDRESS pn) (PTE_ADDR e) PAGESIZE"
    have wf': "pt_wf ?m (ptab s c)" using framed_wf[OF inv cf(1) l(2)] by simp
    have pe: "vam_perm (vam_of e ?va) = uint (PTE_FLAGS e)" using p by (simp add: vam_of_def)
    have f: "word_of_int (uint (PTE_FLAGS e)) AND PTE_P \<noteq> (0 :: 64 word)" using p PTE_FLAGS_flag[of 1 e] by simp
    have b: "uint (PTE_FLAGS e) < 0x1000" using PTE_FLAGS_bound[of e] by (simp add: word_less_def)
    have "virtual_memory_map ?m (ptab s c) ?va (PAGEADDRESS pn) PAGESIZE (uint (PTE_FLAGS e)) =
        Inr (0, put_slot ?m (ptab s c) v (PAGEADDRESS pn + PTE_FLAGS e))"
      using map_one_page[OF wf' va(2) low _ b, of "PAGEADDRESS pn"] u f by (simp add: va(1))
    then show ?thesis
      using w[OF p] wr user_page_not_console[OF inv l(1) us, folded e_def]
      unfolding fork_page_def look vam Let_def al pe
      by (simp add: with_copy_def with_page_def pn_def[symmetric] Let_def set_pageinfo_def)
  qed
qed

text \<open>How the entry of the child at page \<open>v\<close> relates to that of the parent \<open>p\<close> in the state before.\<close>

definition copied :: "kernel_state \<Rightarrow> kernel_state \<Rightarrow> int \<Rightarrow> int \<Rightarrow> nat \<Rightarrow> bool" where
  "copied s s' p c v \<longleftrightarrow>
     (let e = slot_of s p v; e' = slot_of s' c v in
      if e AND PTE_P = 0 then e' = 0
      else if e AND PTE_W = 0 then e' = e
      else PTE_FLAGS e' = PTE_FLAGS e \<and> PAGENUMBER (PTE_ADDR e') \<in> free_pages s \<and>
           (\<forall>a < 4096. k_mem s' (PTE_ADDR e' + a) = k_mem s (PTE_ADDR e + a)))"

text \<open>
  What one turn of the loop does to the rest: nothing to other page tables, and nothing to the
  contents of a page in use that is not a table of the child.
\<close>

definition in_use :: "kernel_state \<Rightarrow> 64 word \<Rightarrow> bool" where
  "in_use s Q \<longleftrightarrow> page_aligned Q \<and> Q < MEMSIZE_PHYSICAL \<and> pi_refcount (k_pageinfo s (PAGENUMBER Q)) \<noteq> 0"

definition keeps_pages :: "kernel_state \<Rightarrow> kernel_state \<Rightarrow> bool" where
  "keeps_pages s s' \<longleftrightarrow>
     (\<forall>Q. in_use s Q \<longrightarrow> in_use s' Q \<and> pi_owner (k_pageinfo s' (PAGENUMBER Q)) = pi_owner (k_pageinfo s (PAGENUMBER Q)))"

lemma keeps_pagesD:
  "keeps_pages s s' \<Longrightarrow> in_use s Q \<Longrightarrow> in_use s' Q"
  "keeps_pages s s' \<Longrightarrow> in_use s Q \<Longrightarrow> pi_owner (k_pageinfo s' (PAGENUMBER Q)) = pi_owner (k_pageinfo s (PAGENUMBER Q))"
  by (simp_all add: keeps_pages_def)

lemma keeps_pages_trans: "keeps_pages s t \<Longrightarrow> keeps_pages t u \<Longrightarrow> keeps_pages s u"
  by (simp add: keeps_pages_def)

definition fork_turn :: "link_symbols \<Rightarrow> int \<Rightarrow> nat \<Rightarrow> kernel_state \<Rightarrow> kernel_state \<Rightarrow> bool" where
  "fork_turn syms c v s s' \<longleftrightarrow>
     kinv syms s' \<and> accounted s' \<and> k_processes s' = k_processes s \<and> k_current s' = k_current s \<and>
     (\<forall>q. live s q \<longrightarrow> slot_of s' q = (if q = c then (slot_of s c)(v := slot_of s' c v) else slot_of s q)) \<and>
     pt_pages (k_mem s') (ptab s c) = pt_pages (k_mem s) (ptab s c) \<and>
     copied s s' (k_current s) c v \<and>
     (\<exists>pn. free_pages s' = (if slot_of s (k_current s) v AND 3 = 3 then free_pages s - {pn} else free_pages s)) \<and>
     keeps_pages s s' \<and>
     (\<forall>Q. in_use s Q \<longrightarrow> Q \<notin> set (pt_pages (k_mem s) (ptab s c)) \<longrightarrow> same_page (k_mem s) (k_mem s') Q)"

lemma and_3_iff: "(e :: 64 word) AND 3 = 3 \<longleftrightarrow> e AND 1 \<noteq> 0 \<and> e AND 2 \<noteq> 0"
proof
  assume "e AND 1 \<noteq> 0 \<and> e AND 2 \<noteq> 0"
  then have b: "bit e 0" "bit e 1" using and_1_bit[of e] by (auto simp: and_exp_eq_0_iff_not_bit[where n = 1, simplified])
  show "e AND 3 = 3"
  proof (rule bit_word_eqI)
    fix n assume "n < LENGTH(64)"
    have "bit (3 :: 64 word) n \<longleftrightarrow> n = 0 \<or> n = 1" by (auto simp: bit_numeral_rec(2) bit_simps numeral_3_eq_3 split: nat.splits) 
    with b show "bit (e AND 3) n = bit (3 :: 64 word) n" by (auto simp: bit_simps)
  qed
qed (rule and_3_bits)

lemma outside_info:
  assumes "kinv syms s" "accounted s"
  shows "kinv syms (set_pageinfo (-1) i s)" "accounted (set_pageinfo (-1) i s)"
proof -
  let ?s = "set_pageinfo (-1) i s"
  show "kinv syms ?s" by (rule kinv_frame_info[OF assms(1)]) auto
  have u: "live ?s p = live s p" "user_slot ?s p = user_slot s p" "sharers ?s = sharers s" for p
    by (simp_all add: live_def user_slot_def[abs_def] sharers_def[abs_def])
  have "pn \<noteq> -1" if "live s p" "user_slot s p v pn" for p v pn using user_page_info(8)[OF assms(1) that] by simp
  then show "accounted ?s" using assms(2) unfolding accounted_def u by simp
qed

lemma fork_turn_absent:
  assumes inv: "kinv syms s" and acc: "accounted s" and l: "live s (k_current s)" "live s c" and zero: "slot_of s c v = 0"
    and e: "slot_of s (k_current s) v AND PTE_P = 0"
  shows "fork_turn syms c v s (set_pageinfo (-1) i s)"
proof -
  have "keeps_pages s (set_pageinfo (-1) i s)"
    using PAGENUMBER_phys(3) by (fastforce simp: keeps_pages_def in_use_def)
  moreover have "free_pages (set_pageinfo (-1) i s) = free_pages s" by (auto simp: free_pages_def)
  moreover have "slot_of s (k_current s) v AND 3 \<noteq> 3" using e and_3_bits by blast
  moreover have "(slot_of s c)(v := slot_of s c v) = slot_of s c" by simp
  ultimately show ?thesis
    unfolding fork_turn_def using outside_info[OF inv acc] e zero by (simp add: copied_def same_page_def)
qed

lemma put_slot_same_table:
  assumes "pt_wf m pt" "v < 1024" "Q \<notin> set (pt_pages m pt)"
  shows "same_page m (put_slot m pt v e) Q"
  using assms L4_of_nonzero(3)[OF assms(1), of 0] L4_of_nonzero(3)[OF assms(1), of 1] by (intro put_slot_same_page) auto

lemma fork_turn_share:
  assumes sh: "sharable syms s (k_current s) c v pn" and ne: "k_current s \<noteq> c"
  defines "e \<equiv> slot_of s (k_current s) v"
  shows "fork_turn syms c v s (with_share c v pn e s)"
proof -
  let ?s = "with_share c v pn e s"
  note d = sharableD[OF sh]
  have wf: "pt_wf (k_mem s) (ptab s c)" using kinvD(5)[OF d(1,4)] by (simp add: kinv_table_def)
  have p: "e AND PTE_P \<noteq> 0" "e AND PTE_W = 0" using d(8,9) by (simp_all add: e_def user_slot_def)
  have sl: "slot_of ?s q = (if q = c then (slot_of s c)(v := e) else slot_of s q)" if "live s q" for q
    by (rule with_share_slot[OF d(1,4) that d(7)])
  have "free_pages ?s = free_pages s"
    using share_refcount(2)[OF sh] user_page_info(2)[OF d(1,3,8)] by (auto simp: free_pages_def with_share_simps)
  moreover have "keeps_pages s ?s"
    using share_refcount(2)[OF sh] by (auto simp: keeps_pages_def in_use_def with_share_simps)
  moreover have "e AND 3 \<noteq> 3" using p and_3_bits by blast
  moreover have "copied s ?s (k_current s) c v" using sl[OF d(4)] p by (simp add: copied_def e_def)
  ultimately show ?thesis
    unfolding fork_turn_def
    using share_kinv[OF sh] share_accounted[OF sh] sl put_slot_self(2)[OF wf d(7)] put_slot_same_table[OF wf d(7)] sl[OF d(4)]
    by (simp add: with_share_simps(1,3,4) e_def[symmetric])
qed

lemma copy_entry_flags:
  assumes "0 < pn" "pn < NPAGES"
  shows "PTE_ADDR (PAGEADDRESS pn + PTE_FLAGS e) = PAGEADDRESS pn" "PTE_FLAGS (PAGEADDRESS pn + PTE_FLAGS e) = PTE_FLAGS e"
    "(PAGEADDRESS pn + PTE_FLAGS e) AND PTE_P = e AND PTE_P"
  using PAGEADDRESS_usable(1)[OF assms] PTE_FLAGS_bound[of e] PTE_ADDR_plus PTE_FLAGS_plus and_1_plus[of "PAGEADDRESS pn" "PTE_FLAGS e"]
    PTE_FLAGS_flag[of 1 e] by simp_all

lemma fork_turn_copy:
  assumes inv: "kinv syms s" and acc: "accounted s" and l: "live s (k_current s)" "live s c" and ne: "k_current s \<noteq> c"
    and v: "256 \<le> v" "v < 768" and zero: "slot_of s c v = 0" and free: "free_pages s \<noteq> {}"
  defines "e \<equiv> slot_of s (k_current s) v"
  assumes p: "e AND PTE_P \<noteq> 0" "e AND PTE_W \<noteq> 0"
  shows "fork_turn syms c v s (with_copy c v e s)"
proof -
  define pn where "pn = Min (free_pages s)"
  have v': "v < 1024" using v by simp
  have us: "user_slot s (k_current s) v (PAGENUMBER (PTE_ADDR e))" unfolding e_def by (rule user_slot_self[OF v(1) v' p(1)[unfolded e_def]])
  note pf = Min_free_pages[OF free, folded pn_def]
  note u = PAGEADDRESS_usable[OF pf(2,3)] and cf = copy_framed[OF inv l(1) us free, folded e_def pn_def]
  let ?m = "memcpy (k_mem s) (PAGEADDRESS pn) (PTE_ADDR e) PAGESIZE"
  let ?s1 = "s\<lparr>k_mem := ?m\<rparr>" and ?e = "PAGEADDRESS pn + PTE_FLAGS e"
  let ?s = "with_page c v pn ?e ?s1"
  have s': "with_copy c v e s = ?s" by (simp add: with_copy_def pn_def Let_def)
  note inv1 = framed_kinv[OF inv cf(1)] and acc1 = framed_accounted[OF inv cf(1) acc]
  have live1: "live ?s1 q = live s q" for q by (rule framed_live[OF cf(1)])
  have l1: "live ?s1 c" using l(2) live1 by simp
  have pn1: "pn \<in> free_pages ?s1" using pf(1) by simp
  note fl = copy_entry_flags[OF pf(2,3), of e]
  have present: "?e AND PTE_P \<noteq> 0" using fl(3) p(1) by simp
  note views = framed_views[OF inv cf(1)]
  have zero1: "slot_of ?s1 c v AND PTE_P = 0" using views(2)[OF l(2)] zero by simp
  have kinv: "kinv syms ?s" by (rule kinv_with_page[OF inv1 l1 v(1) v' pn1 present fl(1)])
  have acc: "accounted ?s" by (rule accounted_with_page[OF inv1 acc1 l1 v pn1 present fl(1) zero1])
  have sl: "slot_of ?s q = (if q = c then (slot_of s c)(v := ?e) else slot_of s q)" if "live s q" for q
    using with_page_tables(3)[OF inv1 l1 v', where e = ?e and q = q] views(2)[OF that] that live1 by (auto simp: with_page_simps)
  have wf1: "pt_wf ?m (ptab s c)" using framed_wf[OF inv cf(1) l(2)] by simp
  have tabs1: "pt_pages ?m (ptab s c) = pt_pages (k_mem s) (ptab s c)" using views(3)[OF l(2)] by simp
  have tabs: "pt_pages (k_mem ?s) (ptab s c) = pt_pages (k_mem s) (ptab s c)"
    using put_slot_self(2)[OF wf1 v'] tabs1 by (simp add: with_page_simps)
  have mem: "same_page ?m (k_mem ?s) Q" if "Q \<notin> set (pt_pages (k_mem s) (ptab s c))" for Q
    using put_slot_same_table[OF wf1 v'] that tabs1 by (simp add: with_page_simps)
  have notab: "PAGEADDRESS pn \<notin> set (pt_pages (k_mem s) (ptab s c))"
    using free_page_not_table[OF inv pf(1)] l(2) by (auto simp: table_pages_def)
  have "k_mem ?s (PAGEADDRESS pn + a) = k_mem s (PTE_ADDR e + a)" if "a < 4096" for a
  proof -
    have "PTE_ADDR (PAGEADDRESS pn + a) = PAGEADDRESS pn" by (rule PTE_ADDR_plus[OF u(1) that])
    with mem[OF notab] have "k_mem ?s (PAGEADDRESS pn + a) = ?m (PAGEADDRESS pn + a)" by (simp add: same_page_def)
    then show ?thesis using \<open>PTE_ADDR (PAGEADDRESS pn + a) = PAGEADDRESS pn\<close> by (simp add: cf(2))
  qed
  then have "copied s ?s (k_current s) c v"
    using sl[OF l(2)] p fl pf(1) u(5) by (simp add: copied_def e_def[symmetric])
  moreover have "free_pages ?s = free_pages s - {pn}" using pf by (auto simp: free_pages_def with_page_simps fresh_page_def)
  moreover have "keeps_pages s ?s" using free_not_used(1)[OF pf(1)] by (auto simp: keeps_pages_def in_use_def with_page_simps fresh_page_def)
  moreover have "same_page (k_mem s) (k_mem ?s) Q" if q: "in_use s Q" "Q \<notin> set (pt_pages (k_mem s) (ptab s c))" for Q
  proof -
    have "Q \<noteq> PAGEADDRESS pn" using q(1) free_not_used(1)[OF pf(1)] u(5) by (auto simp: in_use_def)
    then have "same_page (k_mem s) ?m Q" by (simp add: cf(2) same_page_def)
    then show ?thesis using mem[OF q(2)] by (rule same_page_trans)
  qed
  moreover have "e AND 3 = 3" using p and_3_iff by blast
  moreover have "slot_of ?s c v = ?e" using sl[OF l(2)] by simp
  ultimately show ?thesis
    unfolding fork_turn_def s' using kinv acc sl tabs by (auto simp: with_page_simps(1,4) e_def[symmetric])
qed


section \<open>The copy loop\<close>

text \<open>
  The state \<open>t\<close> in which the loop has copied the pages below \<open>n\<close> of the parent \<open>p\<close>, seen from the state
  \<open>s\<close> before the loop.
\<close>

definition writable_slots :: "kernel_state \<Rightarrow> int \<Rightarrow> nat \<Rightarrow> nat set" where
  "writable_slots s p n = {v. 256 \<le> v \<and> v < n \<and> slot_of s p v AND 3 = 3}"

definition forked :: "link_symbols \<Rightarrow> int \<Rightarrow> nat \<Rightarrow> kernel_state \<Rightarrow> kernel_state \<Rightarrow> bool" where
  "forked syms c n s t \<longleftrightarrow>
     kinv syms t \<and> accounted t \<and> k_processes t = k_processes s \<and> k_current t = k_current s \<and>
     (\<forall>q. live s q \<longrightarrow> q \<noteq> c \<longrightarrow> slot_of t q = slot_of s q) \<and>
     (\<forall>w. w < 256 \<or> n \<le> w \<longrightarrow> slot_of t c w = slot_of s c w) \<and>
     pt_pages (k_mem t) (ptab s c) = pt_pages (k_mem s) (ptab s c) \<and>
     (\<forall>w. 256 \<le> w \<longrightarrow> w < n \<longrightarrow> copied s t (k_current s) c w) \<and>
     free_pages t \<subseteq> free_pages s \<and>
     card (free_pages s) \<le> card (free_pages t) + card (writable_slots s (k_current s) n) \<and>
     keeps_pages s t \<and>
     (\<forall>Q. in_use s Q \<longrightarrow> Q \<notin> set (pt_pages (k_mem s) (ptab s c)) \<longrightarrow> same_page (k_mem s) (k_mem t) Q)"

lemma forkedD:
  assumes "forked syms c n s t"
  shows "kinv syms t" "accounted t" "k_processes t = k_processes s" "k_current t = k_current s"
    "live s q \<Longrightarrow> q \<noteq> c \<Longrightarrow> slot_of t q = slot_of s q" "w < 256 \<or> n \<le> w \<Longrightarrow> slot_of t c w = slot_of s c w"
    "pt_pages (k_mem t) (ptab s c) = pt_pages (k_mem s) (ptab s c)"
    "256 \<le> w \<Longrightarrow> w < n \<Longrightarrow> copied s t (k_current s) c w" "free_pages t \<subseteq> free_pages s"
    "card (free_pages s) \<le> card (free_pages t) + card (writable_slots s (k_current s) n)"
    "keeps_pages s t"
    "in_use s Q \<Longrightarrow> Q \<notin> set (pt_pages (k_mem s) (ptab s c)) \<Longrightarrow> same_page (k_mem s) (k_mem t) Q"
    "live t q = live s q"
proof -
  show "live t q = live s q" using assms by (simp add: forked_def live_def)
qed (use assms in \<open>unfold forked_def, blast+\<close>)

lemma fork_turnD:
  assumes "fork_turn syms c v s s'"
  shows "kinv syms s'" "accounted s'" "k_processes s' = k_processes s" "k_current s' = k_current s"
    "live s q \<Longrightarrow> q \<noteq> c \<Longrightarrow> slot_of s' q = slot_of s q" "live s c \<Longrightarrow> w \<noteq> v \<Longrightarrow> slot_of s' c w = slot_of s c w"
    "pt_pages (k_mem s') (ptab s c) = pt_pages (k_mem s) (ptab s c)" "copied s s' (k_current s) c v"
    "\<exists>pn. free_pages s' = (if slot_of s (k_current s) v AND 3 = 3 then free_pages s - {pn} else free_pages s)"
    "keeps_pages s s'"
    "in_use s Q \<Longrightarrow> Q \<notin> set (pt_pages (k_mem s) (ptab s c)) \<Longrightarrow> same_page (k_mem s) (k_mem s') Q"
proof -
  have "\<forall>q. live s q \<longrightarrow> slot_of s' q = (if q = c then (slot_of s c)(v := slot_of s' c v) else slot_of s q)"
    using assms unfolding fork_turn_def by blast
  then have sl: "live s q \<Longrightarrow> slot_of s' q = (if q = c then (slot_of s c)(v := slot_of s' c v) else slot_of s q)" for q by blast
  show "live s q \<Longrightarrow> q \<noteq> c \<Longrightarrow> slot_of s' q = slot_of s q" using sl[of q] by presburger
  have "live s c \<Longrightarrow> slot_of s' c = (slot_of s c)(v := slot_of s' c v)" using sl[of c] by presburger
  then show "live s c \<Longrightarrow> w \<noteq> v \<Longrightarrow> slot_of s' c w = slot_of s c w" by (metis fun_upd_apply)
qed (use assms in \<open>unfold fork_turn_def, blast+\<close>)

lemma writable_slots_Suc:
  assumes "256 \<le> n"
  shows "card (writable_slots s p (Suc n)) = card (writable_slots s p n) + (if slot_of s p n AND 3 = 3 then 1 else 0)"
proof -
  have "writable_slots s p (Suc n) = (if slot_of s p n AND 3 = 3 then insert n (writable_slots s p n) else writable_slots s p n)"
    using assms by (auto simp: writable_slots_def less_Suc_eq)
  moreover have "finite (writable_slots s p n)" "n \<notin> writable_slots s p n" by (simp_all add: writable_slots_def)
  ultimately show ?thesis by simp
qed

lemma user_page_in_use:
  assumes "kinv syms s" "live s p" "user_slot s p v pn"
  shows "in_use s (PTE_ADDR (slot_of s p v))"
  using user_page_info(1,2)[OF assms] assms(3) PTE_ADDR_aligned by (simp add: in_use_def user_slot_def)

lemma same_page_at: "same_page m m' Q \<Longrightarrow> page_aligned Q \<Longrightarrow> a < 4096 \<Longrightarrow> m' (Q + a) = m (Q + a)"
  using PTE_ADDR_plus[of Q a] by (simp add: same_page_def)

lemma user_page_no_table:
  assumes "kinv syms s" "live s p" "user_slot s p v pn" "live s q"
  shows "PTE_ADDR (slot_of s p v) \<notin> set (pt_pages (k_mem s) (ptab s q))"
  using user_page_info(6)[OF assms] assms(3) by (auto simp: page_nums_def user_slot_def)

text \<open>A mapping of the child is a copied one.\<close>

lemma forked_child_slot:
  assumes f: "forked syms c n s t" and new: "\<And>v. 256 \<le> v \<Longrightarrow> slot_of s c v = 0" and us: "user_slot t c w pn"
  shows "256 \<le> w" "w < n" "copied s t (k_current s) c w" "slot_of s (k_current s) w AND PTE_P \<noteq> 0"
proof -
  show "256 \<le> w" using us by (simp add: user_slot_def)
  then show "w < n" using forkedD(6)[OF f, of w] new[of w] us by (cases "n \<le> w") (auto simp: user_slot_def)
  then show c: "copied s t (k_current s) c w" using forkedD(8)[OF f] \<open>256 \<le> w\<close> by blast
  show "slot_of s (k_current s) w AND PTE_P \<noteq> 0" using c us by (auto simp: copied_def Let_def user_slot_def split: if_splits)
qed

lemma forked_not_mapped:
  assumes inv: "kinv syms s" and l: "live s (k_current s)" and f: "forked syms c n s t" and new: "\<And>v. 256 \<le> v \<Longrightarrow> slot_of s c v = 0"
    and us: "user_slot s (k_current s) n pn"
  shows "\<not> user_slot t c w pn"
proof
  assume h: "user_slot t c w pn"
  note c = forked_child_slot[OF f new h]
  let ?e = "slot_of s (k_current s) w"
  show False
  proof (cases "?e AND PTE_W = 0")
    case True
    then have "user_slot s (k_current s) w pn" using c h by (simp add: copied_def Let_def user_slot_def)
    with us l kinvD(4)[OF inv] have "w = n" unfolding kinv_excl_def by blast
    with c(2) show False by simp
  next
    case False
    then have "pn \<in> free_pages s" using c h by (simp add: copied_def Let_def user_slot_def)
    then show False using free_not_used(1) user_page_info(2)[OF inv l us] by auto
  qed
qed


lemma copied_later:
  assumes inv: "kinv syms t" and l: "live t c" and tu: "fork_turn syms c n t t'" and w: "256 \<le> w" "w < 1024" "w \<noteq> n"
    and c: "copied s t p c w" and pt: "ptab t c = ptab s c"
  shows "copied s t' p c w"
proof -
  have sl: "slot_of t' c w = slot_of t c w" using fork_turnD(6)[OF tu l w(3)] .
  show ?thesis
  proof (cases "slot_of t c w AND PTE_P = 0")
    case True
    moreover have "PTE_FLAGS (slot_of t c w) AND PTE_P = slot_of t c w AND PTE_P" "PTE_FLAGS (slot_of s p w) AND PTE_P = slot_of s p w AND PTE_P"
      using PTE_FLAGS_flag[of 1] by simp_all
    ultimately show ?thesis using c by (auto simp: copied_def sl Let_def split: if_splits)
  next
    case False
    then have us: "user_slot t c w (PAGENUMBER (PTE_ADDR (slot_of t c w)))" using w(1,2) by (simp add: user_slot_def)
    have "same_page (k_mem t) (k_mem t') (PTE_ADDR (slot_of t c w))"
      by (rule fork_turnD(11)[OF tu user_page_in_use[OF inv l us] user_page_no_table[OF inv l us l]])
    from same_page_at[OF this PTE_ADDR_aligned] show ?thesis using c by (auto simp: copied_def sl Let_def)
  qed
qed

lemma copied_now:
  assumes inv: "kinv syms s" and l: "live s (k_current s)" "live s c" and f: "forked syms c n s t" and v: "256 \<le> n" "n < 1024"
    and ne: "k_current s \<noteq> c" and c: "copied t t' (k_current s) c n"
  shows "copied s t' (k_current s) c n"
proof -
  have sl: "slot_of t (k_current s) = slot_of s (k_current s)" by (rule forkedD(5)[OF f l(1) ne])
  show ?thesis
  proof (cases "slot_of s (k_current s) n AND PTE_P = 0")
    case True
    then show ?thesis using c by (simp add: copied_def sl)
  next
    case False
    then have us: "user_slot s (k_current s) n (PAGENUMBER (PTE_ADDR (slot_of s (k_current s) n)))" using v by (simp add: user_slot_def)
    have "same_page (k_mem s) (k_mem t) (PTE_ADDR (slot_of s (k_current s) n))"
      by (rule forkedD(12)[OF f user_page_in_use[OF inv l(1) us] user_page_no_table[OF inv l(1) us l(2)]])
    from same_page_at[OF this PTE_ADDR_aligned] show ?thesis
      using c forkedD(9)[OF f] by (auto simp: copied_def sl Let_def)
  qed
qed

lemma forked_Suc:
  assumes inv: "kinv syms s" and l: "live s (k_current s)" "live s c" and f: "forked syms c n s t" and v: "256 \<le> n" "n < 1024"
    and ne: "k_current s \<noteq> c" and tu: "fork_turn syms c n t t'"
  shows "forked syms c (Suc n) s t'"
proof -
  note a = forkedD[OF f] and b = fork_turnD[OF tu]
  have pr: "k_processes t' = k_processes s" "k_current t' = k_current s" using a(3,4) b(3,4) by simp_all
  have lt: "live t c" using a(13) l(2) by simp
  have sl: "slot_of t (k_current s) n = slot_of s (k_current s) n" using a(5)[OF l(1) ne] by simp
  have pt: "ptab t c = ptab s c" by (simp add: a(3))
  have "copied s t' (k_current s) c w" if w: "256 \<le> w" "w < Suc n" for w
  proof (cases "w = n")
    case True
    then show ?thesis using copied_now[OF inv l f v ne] b(8) a(4) by simp
  next
    case False
    then show ?thesis using copied_later[OF a(1) lt tu w(1) _ _ a(8)[OF w(1)] pt] w v by simp
  qed
  moreover obtain pn where fp: "free_pages t' = (if slot_of s (k_current s) n AND 3 = 3 then free_pages t - {pn} else free_pages t)"
    using b(9) unfolding a(4) sl by blast
  then have "free_pages t' \<subseteq> free_pages s" using a(9) by (auto split: if_splits)
  moreover have "card (free_pages t) \<le> card (free_pages t') + (if slot_of s (k_current s) n AND 3 = 3 then 1 else 0)"
    using fp free_pages_finite[of t] by (auto simp: card_Diff_singleton_if)
  then have "card (free_pages s) \<le> card (free_pages t') + card (writable_slots s (k_current s) (Suc n))"
    using a(10) writable_slots_Suc[OF v(1)] by (simp split: if_splits)
  moreover have "same_page (k_mem s) (k_mem t') Q" if "in_use s Q" "Q \<notin> set (pt_pages (k_mem s) (ptab s c))" for Q
    using a(12)[OF that] b(11)[OF keeps_pagesD(1)[OF a(11) that(1)]] that(2) a(7) pt by (simp add: same_page_trans)
  ultimately show ?thesis
    unfolding forked_def using b(1,2,5) keeps_pages_trans[OF a(11) b(10)] pr a(5,6,7,13) b(6)[OF lt] b(7) pt by (simp add: not_less_eq_eq) (metis Suc_leD Suc_n_not_le_n a(3) linorder_not_less pr(1) v(1))
qed

lemma forked_next:
  assumes inv: "kinv syms s" and l: "live s (k_current s)" "live s c" and f: "forked syms c n s t" and v: "256 \<le> n" "n < 768"
    and ne: "k_current s \<noteq> c" and new: "\<And>v. 256 \<le> v \<Longrightarrow> slot_of s c v = 0"
    and room: "card (writable_slots s (k_current s) 768) \<le> card (free_pages s)"
  shows "\<exists>t'. fork_page c (of_nat n * PAGESIZE) t = Inr t' \<and> forked syms c (Suc n) s t'"
proof -
  note a = forkedD[OF f]
  have lt: "live t (k_current t)" "live t c" "k_current t \<noteq> c" using a(4,13) l ne by simp_all
  have zero: "slot_of t c n = 0" using a(6)[of n] new[OF v(1)] by simp
  have sl: "slot_of t (k_current t) n = slot_of s (k_current s) n" using a(5)[OF l(1) ne] a(4) by simp
  define e where "e = slot_of t (k_current t) n"
  note step = fork_page_step[OF a(1) lt(1,2) v zero, folded e_def]
  have v': "n < 1024" using v by simp
  note next' = forked_Suc[OF inv l f v(1) v' ne]
  consider "e AND PTE_P = 0" | "e AND PTE_P \<noteq> 0" "e AND PTE_W = 0" | "e AND PTE_P \<noteq> 0" "e AND PTE_W \<noteq> 0" by blast
  then show ?thesis
  proof cases
    case 1
    show ?thesis
      unfolding step(1)[OF 1] using next'[OF fork_turn_absent[OF a(1,2) lt(1,2) zero 1[unfolded e_def]]] by blast
  next
    case 2
    define pn where "pn = PAGENUMBER (PTE_ADDR e)"
    have us: "user_slot t (k_current t) n pn" "user_slot s (k_current s) n pn"
      using 2(1) v v' sl by (simp_all add: user_slot_def pn_def e_def)
    have "sharable syms t (k_current t) c n pn"
      using a(1,2) lt v us 2(2) zero forked_not_mapped[OF inv l(1) f new us(2)] by (simp add: sharable_def e_def)
    from fork_turn_share[OF this lt(3), folded e_def] show ?thesis
      unfolding step(2)[OF 2] pn_def[symmetric] using next' by blast
  next
    case 3
    have "n \<in> writable_slots s (k_current s) 768" "n \<notin> writable_slots s (k_current s) n"
      using 3 v sl and_3_iff by (auto simp: writable_slots_def e_def)
    then have "writable_slots s (k_current s) n \<subset> writable_slots s (k_current s) 768" using v by (auto simp: writable_slots_def)
    from psubset_card_mono[OF _ this] have "card (writable_slots s (k_current s) n) < card (free_pages s)"
      using room by (simp add: writable_slots_def)
    then have free: "free_pages t \<noteq> {}" using a(10) by auto
    show ?thesis
      unfolding step(3)[OF 3 free] e_def
      using next'[OF fork_turn_copy[OF a(1,2) lt v zero free 3[unfolded e_def]]] by blast
  qed
qed

lemma forked_0:
  assumes "kinv syms s" "accounted s"
  shows "forked syms c 256 s s"
  using assms by (simp add: forked_def same_page_def keeps_pages_def)

lemma fork_loop_ok:
  assumes inv: "kinv syms s" and acc: "accounted s" and l: "live s (k_current s)" "live s c" and ne: "k_current s \<noteq> c"
    and new: "\<And>v. 256 \<le> v \<Longrightarrow> slot_of s c v = 0" and room: "card (writable_slots s (k_current s) 768) \<le> card (free_pages s)"
  shows "\<exists>t. foldR (fork_page c) (page_addrs PROC_START_ADDR MEMSIZE_VIRTUAL) s = Inr t \<and> forked syms c 768 s t"
proof -
  have "n \<le> 768 \<Longrightarrow> \<exists>t. foldR (fork_page c) (map (\<lambda>v. of_nat v * PAGESIZE) [256..<n]) s = Inr t \<and> forked syms c n s t" if "256 \<le> n" for n
    using that
  proof (induction n rule: nat_induct_at_least)
    case base
    then show ?case using forked_0[OF inv acc] by simp
  next
    case (Suc n)
    then obtain t where t: "foldR (fork_page c) (map (\<lambda>v. of_nat v * PAGESIZE) [256..<n]) s = Inr t" "forked syms c n s t" by auto
    have "n < 768" using Suc.prems by simp
    from forked_next[OF inv l t(2) Suc.hyps this ne new room] t(1) Suc.hyps show ?case by (auto simp: foldR_append)
  qed
  from this[of 768] show ?thesis unfolding page_addrs_user by (simp only: order_refl simp_thms numeral_le_iff semiring_norm)
qed


section \<open>The fork system call\<close>

lemma fork_search_found:
  assumes "p \<le> c" "c < p + int n" "p_state (k_processes s c) = P_FREE" "p + int n = NPROC"
    "\<And>q. p \<le> q \<Longrightarrow> q < c \<Longrightarrow> p_state (k_processes s q) \<noteq> P_FREE"
  shows "fork_search n p s = fork_into c s"
  using assms
proof (induction n arbitrary: p)
  case (Suc n)
  show ?case
  proof (cases "p = c")
    case False
    then have "p < c" using Suc.prems(1) by simp
    then have "p + 1 \<noteq> NPROC" using Suc.prems(2,4) by simp
    then show ?thesis using Suc.IH[of "p + 1"] Suc.prems \<open>p < c\<close> by simp
  qed (use Suc.prems in simp)
qed simp

lemma fork_search_none:
  assumes "0 < n" "p + int n = NPROC" "\<And>q. p \<le> q \<Longrightarrow> q < NPROC \<Longrightarrow> p_state (k_processes s q) \<noteq> P_FREE"
  shows "fork_search n p s = Inr (Break (upd_regs (k_current s) (\<lambda>g. g\<lparr>reg_rax := -1\<rparr>) s))"
  using assms
proof (induction n arbitrary: p)
  case (Suc n)
  show ?case
  proof (cases n)
    case 0
    then show ?thesis using Suc.prems by simp
  next
    case (Suc k)
    then have "p + 1 \<noteq> NPROC" using Suc.prems(2) by simp
    then show ?thesis using Suc.IH[of "p + 1"] Suc.prems Suc by simp
  qed
qed simp

text \<open>The slot that \<open>fork\<close> takes: the first free one.\<close>

definition first_free :: "kernel_state \<Rightarrow> int \<Rightarrow> bool" where
  "first_free s c \<longleftrightarrow> 1 \<le> c \<and> c < NPROC \<and> p_state (k_processes s c) = P_FREE \<and> list_all (\<lambda>q. p_state (k_processes s q) \<noteq> P_FREE) [1..c - 1]"

lemma handle_fork_found: "first_free s c \<Longrightarrow> handle_fork s = fork_into c s"
  unfolding handle_fork_def first_free_def by (rule fork_search_found) (auto simp: list_all_iff)

text \<open>What a process reads at a virtual address, with the permissions of the page; \<open>None\<close> where no page is mapped.\<close>

definition view_at :: "kernel_state \<Rightarrow> int \<Rightarrow> 64 word \<Rightarrow> (8 word \<times> int) option" where
  "view_at s p va =
     (let vam = virtual_memory_lookup (k_mem s) (ptab s p) va
      in if vam_pn vam < 0 then None else Some (k_mem s (vam_pa vam), vam_perm vam))"

lemma slot_number:
  assumes "kinv syms s" "live s p" "v < 1024" "slot_of s p v AND PTE_P \<noteq> 0"
  shows "0 \<le> PAGENUMBER (slot_of s p v)"
proof -
  have ph: "PTE_ADDR (slot_of s p v) < MEMSIZE_PHYSICAL" by (rule kinv_slot_phys[OF assms])
  then show ?thesis using PTE_ADDR_vam(1)[OF assms(4) ph, of 0] PAGENUMBER_phys(3)[OF ph] assms(4) by (simp add: vam_of_def page_aligned_nat)
qed

lemma view_at_slot:
  assumes "kinv syms s" "live s p" "256 \<le> vpn va" "vpn va < 1024"
  defines "e \<equiv> slot_of s p (vpn va)"
  shows "view_at s p va = (if e AND PTE_P = 0 then None else Some (k_mem s (PTE_ADDR e + PAGEOFFSET va), uint (PTE_FLAGS e)))"
proof -
  have l: "virtual_memory_lookup (k_mem s) (ptab s p) va = vam_of e va" unfolding e_def by (rule kinv_lookup[OF assms(1,2)])
  show ?thesis
  proof (cases "e AND PTE_P = 0")
    case True
    then show ?thesis by (simp add: view_at_def l vam_of_def)
  next
    case False
    then have "0 \<le> PAGENUMBER e" unfolding e_def by (rule slot_number[OF assms(1,2,4)])
    then show ?thesis using False by (simp add: view_at_def l vam_of_def Let_def)
  qed
qed

lemma PAGEOFFSET_less: "PAGEOFFSET va < 4096"
  by (simp add: word_less_nat_alt PAGEOFFSET_nat)

lemma PTE_FLAGS_present: "PTE_FLAGS e = PTE_FLAGS e' \<Longrightarrow> (e AND PTE_P = 0) = (e' AND PTE_P = 0)"
  using PTE_FLAGS_flag[of 1 e] PTE_FLAGS_flag[of 1 e'] by simp

lemma copied_view:
  assumes "kinv syms s" "live s p" "kinv syms t" "live t c" "256 \<le> vpn va" "vpn va < 768" "copied s t p c (vpn va)"
    and same: "slot_of s p (vpn va) AND PTE_P \<noteq> 0 \<Longrightarrow> same_page (k_mem s) (k_mem t) (PTE_ADDR (slot_of s p (vpn va)))"
  shows "view_at t c va = view_at s p va"
proof -
  have v: "vpn va < 1024" using assms(6) by simp
  let ?e = "slot_of s p (vpn va)" and ?e' = "slot_of t c (vpn va)"
  note vw = view_at_slot[OF assms(1,2,5) v] view_at_slot[OF assms(3,4,5) v]
  consider "?e AND PTE_P = 0" | "?e AND PTE_P \<noteq> 0" "?e AND PTE_W = 0" | "?e AND PTE_P \<noteq> 0" "?e AND PTE_W \<noteq> 0" by blast
  then show ?thesis
  proof cases
    case 1
    then show ?thesis using assms(7) unfolding vw by (simp add: copied_def)
  next
    case 2
    from same_page_at[OF same[OF 2(1)] PTE_ADDR_aligned PAGEOFFSET_less]
    show ?thesis using assms(7) 2 unfolding vw by (simp add: copied_def)
  next
    case 3
    then have c: "PTE_FLAGS ?e' = PTE_FLAGS ?e" "\<forall>a < 4096. k_mem t (PTE_ADDR ?e' + a) = k_mem s (PTE_ADDR ?e + a)"
      using assms(7) by (simp_all add: copied_def Let_def)
    show ?thesis
      unfolding vw using 3 c PTE_FLAGS_present[OF c(1)] PAGEOFFSET_less[of va] by simp
  qed
qed

lemma same_view:
  assumes "kinv syms s" "live s p" "kinv syms t" "live t p" "256 \<le> vpn va" "vpn va < 1024" "slot_of t p = slot_of s p"
    and same: "slot_of s p (vpn va) AND PTE_P \<noteq> 0 \<Longrightarrow> same_page (k_mem s) (k_mem t) (PTE_ADDR (slot_of s p (vpn va)))"
  shows "view_at t p va = view_at s p va"
  unfolding view_at_slot[OF assms(1,2,5,6)] view_at_slot[OF assms(3,4,5,6)] assms(7)
  using same_page_at[OF same PTE_ADDR_aligned PAGEOFFSET_less] by simp


lemma joined_keeps: "joined syms c s s' \<Longrightarrow> keeps_pages s s'"
  using joined_info(1)[of syms c s s'] by (simp add: keeps_pages_def in_use_def)

lemma joined_in_use:
  assumes "joined syms c s s'" "in_use s Q"
  shows "in_use s' Q" "Q \<notin> set (pt_pages (k_mem s') (ptab s' c))" "same_page (k_mem s) (k_mem s') Q"
proof -
  note i = joined_info[OF assms(1), of "PAGENUMBER Q"]
  show "in_use s' Q" using i(1) assms(2) by (simp add: in_use_def)
  show "Q \<notin> set (pt_pages (k_mem s') (ptab s' c))" using i(2) assms(2) by (auto simp: in_use_def page_nums_def)
  then show "same_page (k_mem s) (k_mem s') Q" using assms(1) by (simp add: joined_def)
qed

definition forked_descriptors :: "kernel_state \<Rightarrow> int \<Rightarrow> kernel_state \<Rightarrow> bool" where
  "forked_descriptors s c t \<longleftrightarrow>
     k_current t = k_current s \<and>
     k_processes t = (k_processes s)
       (c := (k_processes s c)\<lparr>p_pid := c, p_state := P_RUNNABLE, p_pagetable := ptab t c,
               p_registers := (p_registers (cur s))\<lparr>reg_rax := 0\<rparr>\<rparr>,
        k_current s := (cur s)\<lparr>p_registers := (p_registers (cur s))\<lparr>reg_rax := word_of_int c\<rparr>\<rparr>)"

lemma fork_into_ok:
  assumes h: "healthy syms s" and run: "running s" and c: "1 \<le> c" "c < NPROC" "p_state (k_processes s c) = P_FREE"
    and room: "5 + card (writable_slots s (k_current s) 768) \<le> card (free_pages s)"
  shows "\<exists>t. fork_into c s = Inr (Break t) \<and> healthy syms t \<and> forked_descriptors s c t \<and> keeps_pages s t \<and>
    (\<forall>q. live s q \<longrightarrow> slot_of t q = slot_of s q) \<and> (\<forall>v. 256 \<le> v \<longrightarrow> v < 768 \<longrightarrow> copied s t (k_current s) c v) \<and>
    (\<forall>va. 256 \<le> vpn va \<longrightarrow> vpn va < 768 \<longrightarrow> view_at t c va = view_at s (k_current s) va) \<and>
    (\<forall>q va. live s q \<longrightarrow> 256 \<le> vpn va \<longrightarrow> vpn va < 1024 \<longrightarrow> view_at t q va = view_at s q va)"
proof -
  let ?p = "k_current s" and ?f = "\<lambda>p. p\<lparr>p_pid := c, p_state := P_RUNNABLE\<rparr>"
  have inv: "kinv syms s" and acc: "accounted s" using h by (simp_all add: healthy_def)
  note l = running_live[OF run]
  have nl: "\<not> live s c" using c(3) by (simp add: live_def)
  have pc: "?p \<noteq> c" using l nl by blast
  obtain L s1 where d: "duplicate_pagetable (ptab s ?p) c (upd_proc c ?f s) = Inr (L, s1)" "L \<noteq> 0"
    "s1 = (upd_proc c ?f s)\<lparr>k_mem := k_mem s1, k_pageinfo := k_pageinfo s1\<rparr>"
    "free_pages s1 = free_pages s - page_nums (k_mem s1) L" "card (page_nums (k_mem s1) L) = 5"
    "\<And>s'. k_mem s' = k_mem s1 \<Longrightarrow> k_pageinfo s' = k_pageinfo s1 \<Longrightarrow> (\<forall>p. p \<noteq> c \<longrightarrow> k_processes s' p = k_processes s p) \<Longrightarrow>
       p_pid (k_processes s' c) = c \<Longrightarrow> p_state (k_processes s' c) \<noteq> P_FREE \<Longrightarrow> ptab s' c = L \<Longrightarrow> joined syms c s s'"
    using duplicate_joined[OF inv c(1,2) nl process_source[OF inv l], of ?f] room by (metis add_leD1)
  define s2 where "s2 = upd_proc c (\<lambda>p. p\<lparr>p_pagetable := L\<rparr>) s1"
  have pr1: "k_processes s1 = (k_processes s)(c := ?f (k_processes s c))" "k_current s1 = ?p" by (subst d(3), simp)+
  have pr2: "k_processes s2 = (k_processes s)(c := (k_processes s c)\<lparr>p_pid := c, p_state := P_RUNNABLE, p_pagetable := L\<rparr>)"
    "k_current s2 = ?p" "free_pages s2 = free_pages s1" by (simp_all add: s2_def pr1 free_pages_def)
  have j: "joined syms c s s2" by (rule d(6)) (simp_all add: s2_def pr1)
  have inv2: "kinv syms s2" and acc2: "accounted s2" using joined_kinv[OF inv j] joined_accounted[OF inv j acc] by auto
  have l2: "live s2 (k_current s2)" "live s2 c" "k_current s2 \<noteq> c" using joined_live[OF j] l pc pr2(2) by simp_all
  have "writable_slots s2 (k_current s2) 768 = writable_slots s ?p 768"
    using joined_views(2)[OF inv j l] by (simp add: writable_slots_def pr2(2))
  moreover have "card (free_pages s2) = card (free_pages s) - 5"
    using d(4,5) j unfolding pr2(3) joined_def by (simp add: card_Diff_subset s2_def pr1 page_nums_def)
  ultimately have room2: "card (writable_slots s2 (k_current s2) 768) \<le> card (free_pages s2)" using room by simp
  have new: "256 \<le> v \<Longrightarrow> slot_of s2 c v = 0" for v using j by (simp add: joined_def)
  obtain t3 where t3: "foldR (fork_page c) (page_addrs PROC_START_ADDR MEMSIZE_VIRTUAL) s2 = Inr t3" "forked syms c 768 s2 t3"
    using fork_loop_ok[OF inv2 acc2 l2 new room2] by blast
  note f = forkedD[OF t3(2)]
  define t where "t = upd_regs ?p (\<lambda>g. g\<lparr>reg_rax := word_of_int c\<rparr>) (upd_regs c (\<lambda>_. (p_registers (cur t3))\<lparr>reg_rax := 0\<rparr>) t3)"
  have "fork_into c s = Inr (Break t)"
    unfolding fork_into_def d(1) using d(2) t3(1) by (simp add: Let_def s2_def[symmetric] t_def)
  moreover have fr: "framed syms t3 t"
    unfolding t_def by (rule framed_trans[OF f(1) framed_upd(5) framed_upd(5)])
  then have ht: "healthy syms t" using f(1,2) by (intro framed_healthy[OF _ fr]) (simp add: healthy_def)
  moreover have "forked_descriptors s c t"
    using pc by (simp add: forked_descriptors_def t_def f(3,4) pr2 upd_regs_def fun_eq_iff)
  moreover have same: "same_page (k_mem s) (k_mem t) Q" if "in_use s Q" for Q
    using joined_in_use[OF j that] f(12)[of Q] same_page_trans by (auto simp: t_def)
  have user: "same_page (k_mem s) (k_mem t) (PTE_ADDR (slot_of s q v))"
    if "live s q" "256 \<le> v" "v < 1024" "slot_of s q v AND PTE_P \<noteq> 0" for q v
    using same[OF user_page_in_use[OF inv that(1) user_slot_self[OF that(2-4)]]] .
  have kt: "kinv syms t" using ht by (simp add: healthy_def)
  have lt: "live t q \<longleftrightarrow> live s q \<or> q = c" for q using framed_live[OF fr] f(13) joined_live[OF j] by simp
  have sl: "slot_of t q = slot_of t3 q" "slot_of t3 q = slot_of s2 q \<Longrightarrow> slot_of t q = slot_of s q" if "live s q" for q
    using that joined_views(2)[OF inv j that] by (simp_all add: t_def)
  have "q \<noteq> c" if "live s q" for q using that nl by blast
  then have slq: "slot_of t q = slot_of s q" if "live s q" for q
    using sl(2)[OF that] f(5)[of q] joined_live[OF j] that by simp
  have cp: "copied s t ?p c v" if v: "256 \<le> v" "v < 768" for v
  proof -
    have "slot_of t c = slot_of t3 c" by (simp add: t_def)
    moreover have "copied s2 t3 ?p c v" using f(8)[OF v] pr2(2) by simp
    moreover have "k_mem s2 (PTE_ADDR (slot_of s ?p v) + a) = k_mem s (PTE_ADDR (slot_of s ?p v) + a)"
      if "slot_of s ?p v AND PTE_P \<noteq> 0" "a < 4096" for a
    proof -
      have "same_page (k_mem s) (k_mem s2) (PTE_ADDR (slot_of s ?p v))"
        using joined_in_use(3)[OF j] user_page_in_use[OF inv l user_slot_self] v that(1) by simp
      from same_page_at[OF this PTE_ADDR_aligned that(2)] show ?thesis .
    qed
    moreover have "free_pages s2 \<subseteq> free_pages s" using d(4) pr2(3) by auto
    ultimately show ?thesis
      using joined_views(2)[OF inv j l] by (auto simp: copied_def Let_def t_def split: if_splits)
  qed
  have "keeps_pages s t" using keeps_pages_trans[OF joined_keeps[OF j] f(11)] by (simp add: t_def keeps_pages_def in_use_def)
  moreover have "view_at t c va = view_at s ?p va" if va: "256 \<le> vpn va" "vpn va < 768" for va
    by (rule copied_view[OF inv l kt _ va cp[OF va]]) (use lt user[OF l] va in auto)
  moreover have "view_at t q va = view_at s q va" if "live s q" "256 \<le> vpn va" "vpn va < 1024" for q va
    by (rule same_view[OF inv that(1) kt _ that(2,3) slq[OF that(1)]]) (use lt that user in auto)
  ultimately show ?thesis using slq cp by blast
qed


lemma forked_descriptorsD:
  assumes "forked_descriptors s c t"
  shows "k_current t = k_current s" "c \<noteq> k_current s \<Longrightarrow> p_state (k_processes t q) = (if q = c then P_RUNNABLE else p_state (k_processes s q))"
proof -
  show "k_current t = k_current s" using assms by (simp add: forked_descriptors_def)
  have "k_processes t q = ((k_processes s)
       (c := (k_processes s c)\<lparr>p_pid := c, p_state := P_RUNNABLE, p_pagetable := ptab t c,
               p_registers := (p_registers (cur s))\<lparr>reg_rax := 0\<rparr>\<rparr>,
        k_current s := (cur s)\<lparr>p_registers := (p_registers (cur s))\<lparr>reg_rax := word_of_int c\<rparr>\<rparr>)) q"
    using assms unfolding forked_descriptors_def by metis
  then show "c \<noteq> k_current s \<Longrightarrow> p_state (k_processes t q) = (if q = c then P_RUNNABLE else p_state (k_processes s q))" by simp
qed

end
