(* ===== verification/Kernel_Examples.thy ===== *)
theory Kernel_Examples
  imports Kernel_Fork
begin

text \<open>
  Concrete states on which the properties of the kernel are exercised: the kernel after start-up,
  one process, the process with a page, and two processes that share a page after a fork.
\<close>

unbundle bit_operations_syntax

section \<open>One process\<close>

definition example_boot :: kernel_state where
  "example_boot = (case boot_kernel example_syms example_state of Inr s \<Rightarrow> s | Inl _ \<Rightarrow> example_state)"

lemma example_boot_facts:
  "boot_kernel example_syms example_state = Inr example_boot" "healthy example_syms example_boot" "\<not> live example_boot pid"
  "0 \<le> pid \<Longrightarrow> pid < NPROC \<Longrightarrow> k_processes example_boot pid = free_process pid" "251 \<le> card (free_pages example_boot) - 5"
  "{0x100..<NPAGES} \<subseteq> free_pages example_boot"
proof -
  obtain s where s: "boot_kernel example_syms example_state = Inr s" "healthy example_syms s" "\<And>pid. \<not> live s pid"
    "\<And>pid. 0 \<le> pid \<Longrightarrow> pid < NPROC \<Longrightarrow> k_processes s pid = free_process pid" "{0x100..<NPAGES} \<subseteq> free_pages s"
    using boot_kernel_lemma[OF example_syms_ok, of example_state] by metis
  then have e: "example_boot = s" by (simp add: example_boot_def)
  show "boot_kernel example_syms example_state = Inr example_boot" "healthy example_syms example_boot" "\<not> live example_boot pid"
    "0 \<le> pid \<Longrightarrow> pid < NPROC \<Longrightarrow> k_processes example_boot pid = free_process pid" unfolding e by (fact s)+
  show "{0x100..<NPAGES} \<subseteq> free_pages example_boot" unfolding e by (fact s(5))
  show "251 \<le> card (free_pages example_boot) - 5"
    using card_mono[OF free_pages_finite s(5)] by (simp add: e)
qed

text \<open>A runnable process in a free slot, with a page table that has the kernel's part only.\<close>

definition new_process :: "int \<Rightarrow> kernel_state \<Rightarrow> kernel_state" where
  "new_process pid s =
     (case duplicate_pagetable (sym_kernel_pagetables example_syms) pid (upd_proc pid (\<lambda>p. p\<lparr>p_state := P_RUNNABLE\<rparr>) s) of
        Inr (pt, s') \<Rightarrow> upd_proc pid (\<lambda>p. p\<lparr>p_pagetable := pt\<rparr>) s'
      | Inl _ \<Rightarrow> s)"

lemma new_process_facts:
  assumes "healthy example_syms s" "1 \<le> pid" "pid < NPROC" "k_processes s pid = free_process pid" "5 \<le> card (free_pages s)"
  shows "healthy example_syms (new_process pid s)" "live (new_process pid s) q \<longleftrightarrow> live s q \<or> q = pid"
    "k_current (new_process pid s) = k_current s" "256 \<le> v \<Longrightarrow> slot_of (new_process pid s) pid v = 0"
    "q \<noteq> pid \<Longrightarrow> k_processes (new_process pid s) q = k_processes s q" "p_state (k_processes (new_process pid s) pid) = P_RUNNABLE"
    "p_registers (k_processes (new_process pid s) pid) = zero_registers" "joined example_syms pid s (new_process pid s)"
    "\<exists>N. free_pages (new_process pid s) = free_pages s - N \<and> finite N \<and> card N = 5"
proof -
  let ?f = "\<lambda>p :: proc. p\<lparr>p_state := P_RUNNABLE\<rparr>"
  have inv: "kinv example_syms s" and acc: "accounted s" using assms(1) by (simp_all add: healthy_def)
  have nl: "\<not> live s pid" by (simp add: live_def assms(4) free_process_def)
  obtain L s1 where d: "duplicate_pagetable (sym_kernel_pagetables example_syms) pid (upd_proc pid ?f s) = Inr (L, s1)" "L \<noteq> 0"
    "s1 = (upd_proc pid ?f s)\<lparr>k_mem := k_mem s1, k_pageinfo := k_pageinfo s1\<rparr>"
    "free_pages s1 = free_pages s - page_nums (k_mem s1) L" "card (page_nums (k_mem s1) L) = 5"
    "\<And>s'. k_mem s' = k_mem s1 \<Longrightarrow> k_pageinfo s' = k_pageinfo s1 \<Longrightarrow> (\<forall>p. p \<noteq> pid \<longrightarrow> k_processes s' p = k_processes s p) \<Longrightarrow>
       p_pid (k_processes s' pid) = pid \<Longrightarrow> p_state (k_processes s' pid) \<noteq> P_FREE \<Longrightarrow> ptab s' pid = L \<Longrightarrow> joined example_syms pid s s'"
    using duplicate_joined[OF inv assms(2,3) nl kernel_source[OF inv] assms(5), of ?f] by metis
  have e: "new_process pid s = upd_proc pid (\<lambda>p. p\<lparr>p_pagetable := L\<rparr>) s1" unfolding new_process_def d(1) by simp
  have p: "k_processes s1 = (k_processes s)(pid := ?f (free_process pid))" by (subst d(3)) (simp add: assms(4))
  show j: "joined example_syms pid s (new_process pid s)" by (rule d(6)) (simp_all add: e p free_process_def)
  show "healthy example_syms (new_process pid s)" using joined_kinv[OF inv j] joined_accounted[OF inv j acc] by (simp add: healthy_def)
  show "live (new_process pid s) q \<longleftrightarrow> live s q \<or> q = pid" using joined_live[OF j] by blast
  have "k_current s1 = k_current s" by (subst d(3)) simp
  then show "k_current (new_process pid s) = k_current s" by (simp add: e)
  show "256 \<le> v \<Longrightarrow> slot_of (new_process pid s) pid v = 0" using j unfolding joined_def by blast
  show "q \<noteq> pid \<Longrightarrow> k_processes (new_process pid s) q = k_processes s q" "p_state (k_processes (new_process pid s) pid) = P_RUNNABLE"
    "p_registers (k_processes (new_process pid s) pid) = zero_registers"
    by (simp_all add: e p free_process_def)
  have "free_pages (new_process pid s) = free_pages s1" by (simp add: e free_pages_def)
  then show "\<exists>N. free_pages (new_process pid s) = free_pages s - N \<and> finite N \<and> card N = 5"
    using d(4,5) by (intro exI[of _ "page_nums (k_mem s1) L"]) (auto simp: page_nums_def)
qed

text \<open>Process 1, runnable, with a page table of its own and no pages.\<close>

definition example_one :: kernel_state where
  "example_one = (new_process 1 example_boot)\<lparr>k_current := 1\<rparr>"

lemma example_one_facts:
  "healthy example_syms example_one" "running example_one" "live example_one pid \<longleftrightarrow> pid = 1" "k_current example_one = 1"
  "256 \<le> v \<Longrightarrow> slot_of example_one 1 v = 0" "251 \<le> card (free_pages example_one)"
  "2 \<le> pid \<Longrightarrow> pid < NPROC \<Longrightarrow> k_processes example_one pid = free_process pid"
  "p_registers (k_processes example_one 1) = zero_registers"
  "\<exists>N. free_pages example_one = free_pages example_boot - N \<and> finite N \<and> card N = 5"
proof -
  have "5 \<le> card (free_pages example_boot)" using example_boot_facts(5) by simp
  note n = new_process_facts[of example_boot 1, OF example_boot_facts(2) _ _ example_boot_facts(4) this, simplified]
  have fp: "free_pages example_one = free_pages (new_process 1 example_boot)" by (simp add: free_pages_def example_one_def)
  show "healthy example_syms example_one" unfolding example_one_def by (rule framed_healthy[OF n(1)]) (simp add: framed_def)
  show "running example_one" "k_current example_one = 1" using n(6) by (simp_all add: running_def example_one_def)
  have "live example_one pid \<longleftrightarrow> live (new_process 1 example_boot) pid" by (simp add: example_one_def live_def)
  then show "live example_one pid \<longleftrightarrow> pid = 1" using n(2)[of pid] example_boot_facts(3) by simp
  show "256 \<le> v \<Longrightarrow> slot_of example_one 1 v = 0" "p_registers (k_processes example_one 1) = zero_registers"
    using n(4,7) by (simp_all add: example_one_def)
  show f: "\<exists>N. free_pages example_one = free_pages example_boot - N \<and> finite N \<and> card N = 5" unfolding fp by (rule n(9))
  then obtain N where N: "free_pages example_one = free_pages example_boot - N" "finite N" "card N = 5" by blast
  then show "251 \<le> card (free_pages example_one)" using example_boot_facts(5) diff_card_le_card_Diff[of N "free_pages example_boot"] by simp
  show "2 \<le> pid \<Longrightarrow> pid < NPROC \<Longrightarrow> k_processes example_one pid = free_process pid"
    using n(5)[of pid] example_boot_facts(4)[of pid] by (simp add: example_one_def)
qed

text \<open>Process 1 with one page at \<open>PROC_START_ADDR\<close>, writable or read-only.\<close>

definition example_page :: int where
  "example_page = Min (free_pages example_one)"

definition example_entry :: "bool \<Rightarrow> 64 word" where
  "example_entry w = PAGEADDRESS example_page + (if w then 7 else 5)"

definition example_user :: "bool \<Rightarrow> kernel_state" where
  "example_user w = with_page 1 256 example_page (example_entry w) example_one"

lemma example_page_free: "example_page \<in> free_pages example_one"
  using example_one_facts(6) unfolding example_page_def by (intro Min_free_pages(1)) auto

lemma example_entry_facts:
  "example_entry w AND PTE_P \<noteq> 0" "PTE_ADDR (example_entry w) = PAGEADDRESS example_page" "example_entry w AND PTE_W = 0 \<longleftrightarrow> \<not> w"
  "PAGENUMBER (PTE_ADDR (example_entry w)) = example_page"
proof -
  note r = free_not_used(2,3)[OF example_page_free]
  note u = PAGEADDRESS_usable[OF r]
  have f: "PAGEADDRESS example_page + f = PAGEADDRESS example_page + PTE_FLAGS f" if "f \<in> {5, 7}" for f
    using that by (auto simp: PTE_FLAGS_def)
  have w: "example_entry w = PAGEADDRESS example_page + PTE_FLAGS (if w then 7 else 5)"
    unfolding example_entry_def by (rule f) simp
  note fl = copy_entry_flags[OF r, of "if w then 7 else 5", folded w]
  show "example_entry w AND PTE_P \<noteq> 0" using fl(3) by simp
  show a: "PTE_ADDR (example_entry w) = PAGEADDRESS example_page" by (fact fl(1))
  show "PAGENUMBER (PTE_ADDR (example_entry w)) = example_page" unfolding a by (fact u(5))
  have "example_entry w AND PTE_W = PTE_FLAGS (example_entry w) AND PTE_W" using PTE_FLAGS_flag[of 2] by simp
  then show "example_entry w AND PTE_W = 0 \<longleftrightarrow> \<not> w" unfolding fl(2) by (simp add: PTE_FLAGS_def)
qed

lemma example_user_facts:
  "healthy example_syms (example_user w)" "running (example_user w)" "live (example_user w) pid \<longleftrightarrow> pid = 1"
  "k_current (example_user w) = 1" "slot_of (example_user w) 1 = (slot_of example_one 1)(256 := example_entry w)"
  "250 \<le> card (free_pages (example_user w))" "k_processes (example_user w) = k_processes example_one"
  "k_pageinfo (example_user w) example_page = fresh_page 1" "user_slot (example_user w) 1 v pn \<longleftrightarrow> v = 256 \<and> pn = example_page"
proof -
  note o = example_one_facts
  have inv: "kinv example_syms example_one" and acc: "accounted example_one" using o(1) by (simp_all add: healthy_def)
  have l: "live example_one 1" using o(3) by simp
  have z: "slot_of example_one 1 256 AND PTE_P = 0" using o(5)[of 256] by simp
  have n: "(256::nat) \<le> 256" "(256::nat) < 1024" "(256::nat) < 768" by simp_all
  note e = example_entry_facts(1,2)[of w]
  show "healthy example_syms (example_user w)"
    using kinv_with_page[OF inv l n(1,2) example_page_free e] accounted_with_page[OF inv acc l n(1,3) example_page_free e z]
    by (simp add: healthy_def example_user_def)
  show "k_processes (example_user w) = k_processes example_one" "k_current (example_user w) = 1"
    "k_pageinfo (example_user w) example_page = fresh_page 1"
    using o(4) by (simp_all add: example_user_def with_page_simps)
  then show "running (example_user w)" "live (example_user w) pid \<longleftrightarrow> pid = 1" using o(2,3,4) by (simp_all add: running_def live_def)
  show "slot_of (example_user w) 1 = (slot_of example_one 1)(256 := example_entry w)"
    using with_page_tables(3)[OF inv l n(2) l, where e = "example_entry w"] by (auto simp: example_user_def with_page_simps fun_eq_iff)
  have "free_pages (example_user w) = free_pages example_one - {example_page}"
    using free_not_used[OF example_page_free] by (auto simp: free_pages_def example_user_def with_page_simps fresh_page_def)
  then show "250 \<le> card (free_pages (example_user w))" using o(6) example_page_free by simp
  have "\<not> user_slot example_one 1 v pn" using o(5)[of v] by (auto simp: user_slot_def)
  then show "user_slot (example_user w) 1 v pn \<longleftrightarrow> v = 256 \<and> pn = example_page"
    using user_slot_with_page_iff[OF inv l l n(1,2) example_page_free e z] by (simp add: example_user_def)
qed

lemma example_user_writable: "writable_slots (example_user w) 1 768 \<subseteq> {256}"
  using example_one_facts(5) by (auto simp: writable_slots_def example_user_facts(5))

lemma example_user_fork:
  "first_free (example_user w) 2"
  "5 + card (writable_slots (example_user w) (k_current (example_user w)) 768) \<le> card (free_pages (example_user w))"
proof -
  have "p_state (k_processes example_one 1) = P_RUNNABLE" using example_one_facts(2,4) by (simp add: running_def)
  moreover have "[1..2 - 1] = [1 :: int]" by (simp add: upto.simps)
  ultimately show "first_free (example_user w) 2"
    using example_one_facts(7)[of 2] by (simp add: first_free_def example_user_facts(7) free_process_def)
  have "card (writable_slots (example_user w) 1 768) \<le> 1"
    using card_mono[OF _ example_user_writable[of w]] by simp
  then show "5 + card (writable_slots (example_user w) (k_current (example_user w)) 768) \<le> card (free_pages (example_user w))"
    using example_user_facts(6)[of w] unfolding example_user_facts(4) by linarith
qed

section \<open>Two processes after a fork\<close>

definition example_forked :: "bool \<Rightarrow> kernel_state" where
  "example_forked w = (case handle_fork (example_user w) of Inr (Break s) \<Rightarrow> s | _ \<Rightarrow> example_boot)"

lemma example_forked_facts:
  "healthy example_syms (example_forked w)" "running (example_forked w)" "k_current (example_forked w) = 1" "live (example_forked w) 2"
  "slot_of (example_forked w) 1 256 = example_entry w" "copied (example_user w) (example_forked w) 1 2 256"
  "keeps_pages (example_user w) (example_forked w)" "p_state (k_processes (example_forked w) 2) = P_RUNNABLE"
proof -
  note u = example_user_facts[of w] and f = example_user_fork[of w]
  have r: "(1 :: int) \<le> 2" "(2 :: int) < NPROC" "p_state (k_processes (example_user w) 2) = P_FREE"
    using f(1) by (simp_all add: first_free_def)
  obtain t where t: "fork_into 2 (example_user w) = Inr (Break t)" "healthy example_syms t" "forked_descriptors (example_user w) 2 t"
    "keeps_pages (example_user w) t" "\<forall>q. live (example_user w) q \<longrightarrow> slot_of t q = slot_of (example_user w) q"
    "\<forall>v. 256 \<le> v \<longrightarrow> v < 768 \<longrightarrow> copied (example_user w) t 1 2 v"
    using fork_into_ok[OF u(1,2) r f(2)] unfolding u(4) by blast
  have e: "example_forked w = t" using t(1) handle_fork_found[OF f(1)] by (simp add: example_forked_def)
  note d = forked_descriptorsD[OF t(3), unfolded u(4)]
  have run: "p_state (k_processes (example_user w) 1) = P_RUNNABLE" using u(2,4) by (simp add: running_def)
  show "healthy example_syms (example_forked w)" "keeps_pages (example_user w) (example_forked w)" unfolding e by (fact t(2,4))+
  show "k_current (example_forked w) = 1" "running (example_forked w)" "live (example_forked w) 2"
    "p_state (k_processes (example_forked w) 2) = P_RUNNABLE"
    using run unfolding e running_def live_def by (simp_all add: d)
  show "slot_of (example_forked w) 1 256 = example_entry w" "copied (example_user w) (example_forked w) 1 2 256"
    unfolding e using t(5,6) u(3) by (simp_all add: u(5))
qed

text \<open>Both processes map the same page, read-only, which belongs to process 1.\<close>

abbreviation example_shared :: kernel_state where
  "example_shared \<equiv> example_forked False"

lemma example_shared_facts:
  "user_slot example_shared 1 256 example_page" "user_slot example_shared 2 256 example_page"
  "sint (pi_owner (k_pageinfo example_shared example_page)) = 1"
proof -
  note u = example_user_facts[of False] and f = example_forked_facts[of False]
  show us: "user_slot example_shared 1 256 example_page" unfolding user_slot_def f(5) using example_entry_facts by simp
  have "slot_of example_shared 2 256 = example_entry False" using f(6) example_entry_facts(1,3)[of False] by (simp add: copied_def u(5))
  then show "user_slot example_shared 2 256 example_page" unfolding user_slot_def using example_entry_facts by simp
  have l: "live (example_user False) 1" using u(3) by simp
  have kv: "kinv example_syms (example_user False)" using u(1) by (simp add: healthy_def)
  have "user_slot (example_user False) 1 256 example_page" using u(9) by simp
  from user_page_in_use[OF kv l this] have "in_use (example_user False) (PTE_ADDR (example_entry False))" by (simp add: u(5))
  from keeps_pagesD(2)[OF f(7) this] show "sint (pi_owner (k_pageinfo example_shared example_page)) = 1"
    unfolding example_entry_facts(4) u(8) using sint_fresh[of 1] by simp
qed

section \<open>Two processes without pages\<close>

definition example_pair :: kernel_state where
  "example_pair = new_process 2 example_one"

lemma example_pair_facts:
  "healthy example_syms example_pair" "running example_pair" "k_current example_pair = 1" "live example_pair pid \<longleftrightarrow> pid = 1 \<or> pid = 2"
  "p_state (k_processes example_pair 2) = P_RUNNABLE" "256 \<le> v \<Longrightarrow> live example_pair pid \<Longrightarrow> slot_of example_pair pid v = 0" "unshared example_pair pid"
  "\<exists>N. free_pages example_pair = free_pages example_boot - N \<and> finite N \<and> card N \<le> 10"
proof -
  note o = example_one_facts
  have c: "5 \<le> card (free_pages example_one)" using o(6) by simp
  note n = new_process_facts[of example_one 2, OF o(1) _ _ o(7) c, simplified, folded example_pair_def]
  show "healthy example_syms example_pair" "k_current example_pair = 1" "p_state (k_processes example_pair 2) = P_RUNNABLE"
    using n(1,3,6) o(4) by simp_all
  show "running example_pair" using o(2,4) n(3) n(5)[of 1] by (simp add: running_def)
  show l: "live example_pair pid \<longleftrightarrow> pid = 1 \<or> pid = 2" for pid using n(2) o(3) by simp
  show z: "slot_of example_pair pid v = 0" if "256 \<le> v" "live example_pair pid" for v pid
  proof (cases "pid = 2")
    case False
    then have "pid = 1" using that(2) l by simp
    moreover have "kinv example_syms example_one" "live example_one 1" using o(1,3) by (simp_all add: healthy_def)
    ultimately show ?thesis using joined_views[OF _ n(8)] o(5)[OF that(1)] by simp
  qed (use n(4) that in simp)
  show "unshared example_pair pid" using z by (auto simp: unshared_def sharers_def user_slot_def)
  obtain N where N: "free_pages example_one = free_pages example_boot - N" "finite N" "card N = 5" using o(9) by blast
  obtain M where M: "free_pages example_pair = free_pages example_one - M" "finite M" "card M = 5" using n(9) by blast
  have "card (N \<union> M) \<le> 10" using card_Un_le[of N M] N(3) M(3) by simp
  then show "\<exists>N. free_pages example_pair = free_pages example_boot - N \<and> finite N \<and> card N \<le> 10"
    using N(1,2) M(1,2) by (intro exI[of _ "N \<union> M"]) auto
qed

lemma adjacent_pages:
  fixes N :: "int set"
  assumes "finite N" "card N \<le> 10"
  shows "\<exists>pn. 0x100 \<le> pn \<and> pn + 1 < NPAGES \<and> pn \<notin> N \<and> pn + 1 \<notin> N"
proof -
  have "card ((\<lambda>x. x div 2) ` N) \<le> 10" using card_image_le[OF assms(1)] assms(2) by (metis le_trans)
  moreover have "card {128..<256 :: int} = 128" by simp
  ultimately have "\<not> {128..<256 :: int} \<subseteq> (\<lambda>x. x div 2) ` N" using card_mono[OF finite_imageI[OF assms(1)]] by fastforce
  then obtain k :: int where "k \<in> {128..<256}" and k: "k \<notin> (\<lambda>x. x div 2) ` N" by blast
  then have r: "128 \<le> k" "k < 256" by simp_all
  have "2 * k \<notin> N" "2 * k + 1 \<notin> N" using k by (force simp: image_iff)+
  then show ?thesis using r by (intro exI[of _ "2 * k"]) simp
qed

section \<open>A full memory\<close>

definition example_full :: kernel_state where
  "example_full = example_one\<lparr>k_pageinfo :=
     (\<lambda>pn. if pn \<in> free_pages example_one \<and> pn \<noteq> example_page then fresh_page 1 else k_pageinfo example_one pn)\<rparr>"

lemma example_full_facts:
  "kinv example_syms example_full" "running example_full" "first_free example_full 2" "free_pages example_full = {example_page}"
  "k_current example_full = 1"
proof -
  note o = example_one_facts
  have f: "sint (pi_owner (fresh_page 1)) = 1" using sint_fresh[of 1] by simp
  show "kinv example_syms example_full"
  proof (rule kinv_frame_info)
    show "kinv example_syms example_one" using o(1) by (simp add: healthy_def)
  qed (use o(3) f in \<open>auto simp: example_full_def free_pages_def split: if_splits\<close>)
  show "running example_full" "k_current example_full = 1" using o(2,4) by (simp_all add: running_def example_full_def)
  show "first_free example_full 2" using example_user_fork(1)[of True] by (simp add: first_free_def example_user_facts(7) example_full_def)
  show "free_pages example_full = {example_page}"
    using example_page_free by (auto simp: free_pages_def example_full_def fresh_page_def)
qed

end
