(* ===== verification/Kernel_Calls.thy ===== *)
theory Kernel_Calls
  imports Kernel_Examples
begin

text \<open>
  What the system calls that manage memory do to the whole system: \<open>fork\<close>, \<open>exit\<close> and \<open>page_alloc\<close>, on
  every path, including those on which the kernel loses track of a page.
\<close>

unbundle bit_operations_syntax

section \<open>Fork\<close>

lemma vpn_user:
  assumes "PROC_START_ADDR \<le> va"
  shows "va < MEMSIZE_VIRTUAL \<Longrightarrow> 256 \<le> vpn va \<and> vpn va < 768" "unat va < 0x400000 \<Longrightarrow> 256 \<le> vpn va \<and> vpn va < 1024"
  using assms by (auto simp: vpn_low word_le_nat_alt word_less_nat_alt less_eq_div_iff_mult_less_eq div_less_iff_less_mult)

text \<open>C9: fork with a free process slot and enough free pages (five, and one for every page that the
  parent can write). The first free slot becomes a runnable process that has the parent's registers, but
  returns 0; the parent gets the child's number and no other descriptor changes. The child reads at every address
  of the user area what its parent reads, with the same permissions; what the parent and every other
  process read is unchanged; and the invariant and the accounting hold again.\<close>

theorem fork_copies:
  assumes "healthy syms s" "running s" "first_free s c"
    and "5 + card (writable_slots s (k_current s) 768) \<le> card (free_pages s)"
  shows "\<exists>t. handle_fork s = Inr (Break t) \<and> healthy syms t \<and> forked_descriptors s c t \<and>
    (\<forall>va. PROC_START_ADDR \<le> va \<longrightarrow> va < MEMSIZE_VIRTUAL \<longrightarrow> view_at t c va = view_at s (k_current s) va) \<and>
    (\<forall>q va. live s q \<longrightarrow> PROC_START_ADDR \<le> va \<longrightarrow> unat va < 0x400000 \<longrightarrow> view_at t q va = view_at s q va)"
proof -
  have c: "1 \<le> c" "c < NPROC" "p_state (k_processes s c) = P_FREE" using assms(3) by (simp_all add: first_free_def)
  show ?thesis
    unfolding handle_fork_found[OF assms(3)] using fork_into_ok[OF assms(1,2) c assms(4)] vpn_user by metis
qed

theorem fork_copies_witness:
  "\<exists>t. handle_fork (example_user True) = Inr (Break t) \<and> healthy example_syms t \<and>
     view_at t 2 0x100123 = view_at (example_user True) 1 0x100123 \<and> view_at t 1 0x100123 = view_at (example_user True) 1 0x100123"
  using fork_copies[OF example_user_facts(1,2) example_user_fork[of True]] example_user_facts(3,4)[of True] by auto

text \<open>Fork with all process slots taken returns -1 to the process and changes nothing else.\<close>

theorem fork_no_slot:
  assumes "list_all (\<lambda>q. p_state (k_processes s q) \<noteq> P_FREE) [1..NPROC - 1]"
  shows "handle_fork s = Inr (Break (upd_regs (k_current s) (\<lambda>g. g\<lparr>reg_rax := -1\<rparr>) s))"
  unfolding handle_fork_def using assms by (intro fork_search_none) (auto simp: list_all_iff)

theorem fork_no_slot_witness:
  "handle_fork (example_one\<lparr>k_processes := \<lambda>q. k_processes example_one 1\<rparr>) =
     Inr (Break (upd_regs 1 (\<lambda>g. g\<lparr>reg_rax := -1\<rparr>) (example_one\<lparr>k_processes := \<lambda>q. k_processes example_one 1\<rparr>)))"
  using fork_no_slot[of "example_one\<lparr>k_processes := \<lambda>q. k_processes example_one 1\<rparr>"] example_one_facts(2,4)
  by (simp add: list_all_iff running_def)

section \<open>Pages whose owner is gone\<close>

text \<open>
  A page in use that belongs to a free slot is found by the next \<open>check_virtual_memory\<close>, which stops
  the kernel.
\<close>

lemma allR_assert_fails:
  "x \<in> set xs \<Longrightarrow> \<not> b x \<Longrightarrow> allR (\<lambda>x. assertR file line (b x)) xs = Inl (Assert_fail file line)"
  by (induction xs) (auto simp: assertR_def)

lemma orphan_found:
  assumes "syms_ok syms" "kinv_tables syms s" "0 \<le> pn" "pn < NPAGES"
    and "sint (pi_refcount (k_pageinfo s pn)) > 0" "sint (pi_owner (k_pageinfo s pn)) = c" "0 \<le> c" "p_state (k_processes s c) = P_FREE"
  shows "check_virtual_memory syms s = Inl (Assert_fail ''kernel.c'' 608)"
  unfolding check_virtual_memory_tables[OF assms(1,2)]
  by (rule allR_assert_fails[of pn]) (use assms(3-8) in \<open>auto simp: owner_ok_def\<close>)

lemma tables_frame:
  assumes inv: "kinv syms s" and pr: "k_processes s' = k_processes s"
    and info: "\<And>pn. pi_refcount (k_pageinfo s pn) \<noteq> 0 \<Longrightarrow> k_pageinfo s' pn = k_pageinfo s pn"
    and mem: "\<And>P. P \<in> table_pages syms s \<Longrightarrow> same_page (k_mem s) (k_mem s') P"
  shows "kinv_tables syms s'"
proof -
  let ?kp = "sym_kernel_pagetables syms"
  note k = kinvD(2)[OF inv, unfolded kinv_kernel_def Let_def]
  have kwf: "pt_wf (k_mem s) ?kp" using k by blast
  have "\<forall>P \<in> set (pt_pages (k_mem s) ?kp). same_page (k_mem s) (k_mem s') P" using mem k by (auto simp: table_pages_def)
  note ke = same_tables[OF kwf this]
  have lv: "live s' p = live s p" for p by (simp add: live_def pr)
  have "kinv_kernel syms s'" using k info unfolding kinv_kernel_def Let_def low_identity_def kernel_only_def by (simp add: ke)
  moreover have "kinv_table s' p" if l: "live s p" for p
  proof -
    have wf: "pt_wf (k_mem s) (ptab s p)" using kinvD(5)[OF inv l] by (simp add: kinv_table_def)
    have "\<forall>P \<in> set (pt_pages (k_mem s) (ptab s p)). same_page (k_mem s) (k_mem s') P" using mem l by (auto simp: table_pages_def)
    note te = same_tables[OF wf this]
    show ?thesis
      using kinvD(5)[OF inv l] info used_page_nums[OF inv l] te unfolding kinv_table_def low_identity_def kernel_only_def pr by auto
  qed
  ultimately show ?thesis using kinvD(1)[OF inv] by (simp add: kinv_tables_def kinv_procs_def lv pr)
qed

text \<open>C27: fork when fewer than five pages are free. The page table cannot be made, and the handler ends with
  \<open>return\<close> where every other end of \<open>exception\<close> resumes a process: control falls through to assembly code
  that expects a register pointer. By then the pages that were free are taken for the process that
  was not created and physical page 0 has been cleared; if any page was free, the next check of
  virtual memory stops the kernel.\<close>

theorem fork_no_pages:
  assumes "syms_ok syms" "kinv syms s" "live s (k_current s)" "first_free s c" "card (free_pages s) < 5"
  shows "\<exists>t. handle_fork s = Inr (Done (Returned t)) \<and> free_pages t = {} \<and> zero_page (k_mem t) 0 \<and>
    p_state (k_processes t c) = P_FREE \<and> reg_rax (p_registers (cur t)) = -1 \<and>
    (free_pages s \<noteq> {} \<longrightarrow> check_virtual_memory syms t = Inl (Assert_fail ''kernel.c'' 608))"
proof -
  have c: "1 \<le> c" "c < NPROC" "p_state (k_processes s c) = P_FREE" "c \<noteq> k_current s"
    using assms(3,4) by (auto simp: first_free_def live_def)
  let ?s = "upd_proc c (\<lambda>p. p\<lparr>p_pid := c, p_state := P_RUNNABLE\<rparr>) s"
  have fp: "free_pages ?s = free_pages s" by (simp add: free_pages_def)
  obtain s1 where s1: "duplicate_pagetable (ptab s (k_current s)) c ?s = Inr (0, s1)" "free_pages s1 = {}" "zero_page (k_mem s1) 0"
    "k_processes s1 = k_processes ?s" "k_current s1 = k_current s"
    "k_pageinfo s1 = (\<lambda>q. if q \<in> free_pages s then fresh_page c else k_pageinfo s q)"
    "\<And>P. P \<noteq> 0 \<Longrightarrow> PAGENUMBER P \<notin> free_pages s \<Longrightarrow> same_page (k_mem s) (k_mem s1) P"
    using duplicate_exhausted_lemma[of ?s "ptab s (k_current s)" c, unfolded fp upd_proc_simps(1,2,4), OF assms(5)] by blast
  define t where "t = upd_regs (k_current s) (\<lambda>g. g\<lparr>reg_rax := -1\<rparr>)
    (upd_proc c (\<lambda>p. p\<lparr>p_state := P_FREE\<rparr>) (upd_proc c (\<lambda>p. p\<lparr>p_pagetable := 0\<rparr>) s1))"
  have r: "handle_fork s = Inr (Done (Returned t))"
    unfolding handle_fork_found[OF assms(4)] fork_into_def using s1(1) by (simp add: Let_def t_def)
  have "check_virtual_memory syms t = Inl (Assert_fail ''kernel.c'' 608)" if "free_pages s \<noteq> {}"
  proof -
    from that obtain pn where pn: "pn \<in> free_pages s" by blast
    have i: "k_pageinfo t pn = fresh_page c" using pn by (simp add: t_def s1(6))
    have "kinv_tables syms (s1\<lparr>k_processes := k_processes s\<rparr>)"
    proof (rule tables_frame[OF assms(2)])
      show "k_pageinfo (s1\<lparr>k_processes := k_processes s\<rparr>) x = k_pageinfo s x" if "pi_refcount (k_pageinfo s x) \<noteq> 0" for x
        using that by (auto simp: s1(6) free_pages_def)
      show "same_page (k_mem s) (k_mem (s1\<lparr>k_processes := k_processes s\<rparr>)) P" if "P \<in> table_pages syms s" for P
        using s1(7)[OF table_pages_info(2)[OF assms(2) that]] table_pages_info(4)[OF assms(2) that] by (simp add: free_pages_def)
    qed simp
    then have "kinv_tables syms t"
      using c unfolding kinv_tables_def kinv_procs_def kinv_kernel_def kinv_table_def Let_def live_def
      by (auto simp: t_def s1(4,5))
    moreover have "0 \<le> pn" "pn < NPAGES" using free_not_used(2,3)[OF pn] by simp_all
    ultimately show ?thesis
      using orphan_found[OF assms(1), of t pn c] i sint_fresh[of c] c by (simp add: t_def fresh_page_def)
  qed
  then show ?thesis using r s1 c by (auto simp: t_def upd_regs_def free_pages_def)
qed

theorem fork_no_pages_witness:
  "\<exists>t. handle_fork example_full = Inr (Done (Returned t)) \<and> free_pages t = {} \<and> zero_page (k_mem t) 0 \<and>
    p_state (k_processes t 2) = P_FREE \<and> reg_rax (p_registers (cur t)) = -1 \<and>
    check_virtual_memory example_syms t = Inl (Assert_fail ''kernel.c'' 608)"
  using fork_no_pages[OF example_syms_ok example_full_facts(1) running_live[OF example_full_facts(2)] example_full_facts(3)]
  by (simp add: example_full_facts(4))

section \<open>Exit\<close>

text \<open>The pages that belong to a process.\<close>

definition owned_pages :: "kernel_state \<Rightarrow> int \<Rightarrow> int set" where
  "owned_pages s p = {pn. 1 \<le> pn \<and> pn < NPAGES \<and> pi_refcount (k_pageinfo s pn) \<noteq> 0 \<and> sint (pi_owner (k_pageinfo s pn)) = p}"

lemma exit_frees_owned:
  assumes inv: "kinv syms s" and acc: "accounted s" and l: "live s p" and r: "1 \<le> pn" "pn < NPAGES"
    and h: "pi_refcount (exit_info s p 768 pn) = 0" "pi_refcount (k_pageinfo s pn) \<noteq> 0"
  shows "sint (pi_owner (k_pageinfo s pn)) = p"
proof -
  have own: "sint (pi_owner (fresh_page p)) = p" using sint_fresh kinv_live_range[OF l] by simp
  consider "pn \<in> page_nums (k_mem s) (ptab s p)" | v where "user_slot s p v pn" "slot_of s p v AND PTE_W \<noteq> 0"
    | v where "user_slot s p v pn" "pi_refcount (k_pageinfo s pn) = 1"
    using h by (auto simp: exit_info_def maps_below_def split: if_splits)
  then show ?thesis
  proof cases
    case 1
    then show ?thesis using kinvD(5)[OF inv l] own by (simp add: kinv_table_def)
  next
    case 2
    then show ?thesis using user_page_info(5)[OF inv l 2(1)] own by simp
  next
    case 3
    let ?o = "sint (pi_owner (k_pageinfo s pn))"
    have "card (sharers s pn) = 1" using accountedD(2)[OF acc l 3(1)] 3(2) by simp
    moreover have "p \<in> sharers s pn" using l 3(1) by (auto simp: sharers_def)
    ultimately have sh: "sharers s pn = {p}" by (metis card_1_singletonE singletonD)
    have "1 \<le> ?o" by (rule user_page_info(3)[OF inv l 3(1)])
    moreover have "?o \<in> {-2, -1} \<or> live s ?o" using kinvD(3)[OF inv] h(2) r by (simp add: kinv_info_def)
    ultimately have lo: "live s ?o" by auto
    have "pn \<notin> page_nums (k_mem s) (ptab s ?o)" by (rule user_page_info(6)[OF inv l 3(1) lo])
    then have "?o \<in> sharers s pn" using accountedD(3)[OF acc _ r(2) h(2) refl user_page_info(3)[OF inv l 3(1)]] r(1) lo by (auto simp: sharers_def)
    then show ?thesis using sh by simp
  qed
qed

text \<open>C13: exit of a process none of whose own pages is mapped by another process. Its slot becomes
  free, exactly the pages it owned become free (its page table, its private pages, and its read-only pages),
  memory and the other descriptors are untouched, and the invariant and the accounting hold for the
  processes that remain, so that their checks will pass.\<close>

theorem exit_releases:
  assumes "healthy syms s" "running s" "unshared s (k_current s)"
  shows "healthy syms (handle_exit s) \<and> free_pages (handle_exit s) = free_pages s \<union> owned_pages s (k_current s) \<and>
    k_mem (handle_exit s) = k_mem s \<and> k_processes (handle_exit s) = (k_processes s)(k_current s := (cur s)\<lparr>p_state := P_FREE\<rparr>)"
proof -
  have inv: "kinv syms s" and acc: "accounted s" using assms(1) by (simp_all add: healthy_def)
  note l = running_live[OF assms(2)]
  have "healthy syms (leaving s 768)"
    using leaving_kinv[OF inv acc assms(2,3)] leaving_accounted[OF inv acc assms(2,3)] by (simp add: healthy_def)
  moreover have "pi_refcount (exit_info s (k_current s) 768 pn) = 0 \<longleftrightarrow>
      pi_refcount (k_pageinfo s pn) = 0 \<or> sint (pi_owner (k_pageinfo s pn)) = k_current s" if "1 \<le> pn" "pn < NPAGES" for pn
    using exit_frees_owned[OF inv acc l that] exit_owned[OF inv acc l assms(3), of pn] exit_info_refcount(1)[OF inv l, of 768 pn] that
    by force
  then have "free_pages (leaving s 768) = free_pages s \<union> owned_pages s (k_current s)"
    by (auto simp: free_pages_def owned_pages_def leaving_simps)
  ultimately show ?thesis
    unfolding handle_exit_eq[OF inv assms(2)] by (simp add: leaving_def)
qed

lemma example_user_unshared: "unshared (example_user w) 1"
  using example_user_facts(3)[of w] by (auto simp: unshared_def sharers_def)

theorem exit_releases_witness:
  "healthy example_syms (handle_exit (example_user True)) \<and>
   free_pages (handle_exit (example_user True)) = free_pages (example_user True) \<union> owned_pages (example_user True) 1 \<and>
   example_page \<in> owned_pages (example_user True) 1"
proof -
  have "example_page \<in> owned_pages (example_user True) 1"
    using example_user_facts(8)[of True] free_not_used(2,3)[OF example_page_free] sint_fresh[of 1] by (simp add: owned_pages_def fresh_page_def)
  then show ?thesis
    using exit_releases[OF example_user_facts(1,2)[of True]] example_user_unshared[of True] example_user_facts(4)[of True] by simp
qed

lemma sint8_pos:
  fixes x :: "8 word"
  assumes "1 \<le> unat x" "unat x < 128"
  shows "0 < sint x"
proof -
  have "1 \<le> uint x" "uint x < 128" using assms unfolding uint_nat by linarith+
  then show ?thesis by (simp add: sint_uint signed_take_bit_int_eq_self)
qed

text \<open>C28: exit of a process that owns a page another process still maps (as after a fork of a process
  with a read-only page). The page keeps its owner, whose slot is now free: the
  check at the next exception fails the assertion in line 608 and the kernel stops.\<close>

theorem exit_orphans:
  assumes "syms_ok syms" "healthy syms s" "running s"
    and "live s q" "q \<noteq> k_current s" "user_slot s q v pn" "sint (pi_owner (k_pageinfo s pn)) = k_current s"
  shows "check_virtual_memory syms (handle_exit s) = Inl (Assert_fail ''kernel.c'' 608)"
proof -
  have inv: "kinv syms s" and acc: "accounted s" using assms(2) by (simp_all add: healthy_def)
  note l = running_live[OF assms(3)]
  note e = exit_info_shared[OF inv acc assms(4) l assms(5,6)] and c = shared_count[OF inv acc assms(4,6)]
  have "card (sharers s pn) \<le> 15" by (rule sharers_card)
  then have "1 \<le> unat (pi_refcount (exit_info s (k_current s) 768 pn)) \<and> unat (pi_refcount (exit_info s (k_current s) 768 pn)) < 128"
    unfolding e using c(1,2) c(3)[OF _ assms(5)[symmetric]] unat_minus_1[OF c(1)] by auto
  then have pos: "sint (pi_refcount (exit_info s (k_current s) 768 pn)) > 0"
    by (intro sint8_pos) simp_all
  have "pi_refcount (exit_info s (k_current s) 768 pn) \<noteq> 0" using pos by auto
  from exit_info_refcount(2)[OF inv l this] assms(7)
  have own: "sint (pi_owner (exit_info s (k_current s) 768 pn)) = k_current s" by simp
  have r: "0 \<le> pn" "pn < NPAGES" using user_page_info(8,9)[OF inv assms(4,6)] by simp_all
  show ?thesis
    unfolding handle_exit_eq[OF inv assms(3)]
    by (rule orphan_found[OF assms(1) leaving_tables[OF inv assms(3)] r, where c = "k_current s"])
       (use pos own assms(3) in \<open>simp_all add: leaving_simps running_def\<close>)
qed

theorem exit_orphans_witness:
  "check_virtual_memory example_syms (handle_exit example_shared) = Inl (Assert_fail ''kernel.c'' 608)"
  using exit_orphans[OF example_syms_ok example_forked_facts(1,2,4) _ example_shared_facts(2)] example_forked_facts(3)[of False] example_shared_facts(3) by simp


section \<open>page\_alloc\<close>

text \<open>C29: page\_alloc below \<open>PROC_START_ADDR\<close> fails, but the page it has taken stays with the process,
  mapped nowhere. Exit does not find it, and the check at the next exception fails the assertion in
  line 608: any process can stop the kernel by these two calls.\<close>

theorem page_alloc_leak_stops_kernel:
  assumes "syms_ok syms" "kinv syms s" "running s" "addr < PROC_START_ADDR" "free_pages s \<noteq> {}"
  shows "\<exists>s'. sys_page_alloc_find_free (ptab s (k_current s)) (k_current s) addr s = Inr (-1, s') \<and>
    check_virtual_memory syms s' = Inr () \<and> check_virtual_memory syms (handle_exit s') = Inl (Assert_fail ''kernel.c'' 608)"
proof -
  let ?p = "k_current s" and ?pn = "Min (free_pages s)"
  let ?s = "set_pageinfo ?pn (fresh_page ?p) s"
  note l = running_live[OF assms(3)] and pn = Min_free_pages[OF assms(5)]
  have inv: "kinv syms ?s" by (rule kinv_take_page[OF assms(2) l pn(1)])
  have run: "running ?s" using assms(3) by (simp add: running_def)
  have "?pn \<notin> page_nums (k_mem s) (ptab s ?p)"
    using process_source(4)[OF assms(2) l] pn(1) by blast
  moreover have "\<not> user_slot s ?p v ?pn" for v using user_page_info(2)[OF assms(2) l] free_not_used(1)[OF pn(1)] by blast
  moreover have us: "user_slot ?s ?p = user_slot s ?p" by (simp add: user_slot_def fun_eq_iff)
  ultimately have i: "exit_info ?s ?p 768 ?pn = fresh_page ?p" by (simp add: exit_info_def maps_below_def)
  have own: "sint (pi_owner (fresh_page ?p)) = ?p" using sint_fresh kinv_live_range[OF l] by simp
  have k: "k_current ?s = ?p" "pi_refcount (fresh_page ?p) = 1" by (simp_all add: fresh_page_def)
  have "check_virtual_memory syms (handle_exit ?s) = Inl (Assert_fail ''kernel.c'' 608)"
    unfolding handle_exit_eq[OF inv run]
    by (rule orphan_found[OF assms(1) leaving_tables[OF inv run], where pn = ?pn and c = ?p])
       (use pn own l in \<open>simp_all add: leaving_simps i k live_def\<close>)
  then show ?thesis
    using assms(4,5) kinv_check_virtual_memory[OF assms(1) inv] by (simp add: sys_page_alloc_eq Let_def)
qed

theorem page_alloc_leak_stops_kernel_witness:
  "\<exists>s'. sys_page_alloc_find_free (ptab example_one 1) 1 0 example_one = Inr (-1, s') \<and>
    check_virtual_memory example_syms (handle_exit s') = Inl (Assert_fail ''kernel.c'' 608)"
proof -
  have "kinv example_syms example_one" using example_one_facts(1) by (simp add: healthy_def)
  then show ?thesis
    using page_alloc_leak_stops_kernel[OF example_syms_ok _ example_one_facts(2), of 0] example_one_facts(4) example_page_free by auto
qed

text \<open>C30: page\_alloc looks at the bits 12 to 47 of its argument only, but compares the whole argument with
  \<open>PROC_START_ADDR\<close>. An aligned argument whose upper 16 bits are not zero passes that comparison and replaces the
  mapping of the page that the lower bits name, also one of the kernel's pages in the process's page table:
  the process can then read and write at that address, in a page of its own.\<close>

theorem page_alloc_alias:
  assumes "kinv syms s" "live s pid" "page_aligned addr" "2 ^ 48 \<le> unat addr" "free_pages s \<noteq> {}"
    and "unat va < 0x400000" "vpn addr = vpn va"
  shows "\<exists>s'. sys_page_alloc_find_free (ptab s pid) pid addr s = Inr (0, s') \<and>
    virtual_memory_lookup (k_mem s') (ptab s' pid) va =
      \<lparr>vam_pn = Min (free_pages s), vam_pa = PAGEADDRESS (Min (free_pages s)) + PAGEOFFSET va, vam_perm = 7\<rparr>"
proof -
  let ?pn = "Min (free_pages s)"
  have a: "PROC_START_ADDR \<le> addr" using assms(4) by (simp add: word_le_nat_alt)
  have v: "vpn addr < 1024" using assms(6,7) by (simp add: vpn_low div_less_iff_less_mult)
  have wf: "pt_wf (k_mem s) (ptab s pid)" using kinvD(5)[OF assms(1,2)] by (simp add: kinv_table_def)
  note pn = Min_free_pages[OF assms(5)]
  note e = page_alloc_entry[OF pn(1)] and u = PAGEADDRESS_usable[OF pn(2,3)]
  have fl: "PTE_FLAGS (PAGEADDRESS ?pn + 7) = 7" using PTE_FLAGS_plus[OF u(1), of 7] by simp
  have "PTE_ADDR (PAGEADDRESS ?pn + 7) < MEMSIZE_PHYSICAL" using e(2) u(2) by simp
  from PTE_ADDR_vam(1)[OF e(1) this, of 0] have n: "PAGENUMBER (PAGEADDRESS ?pn + 7) = ?pn"
    using e u(5) by (simp add: vam_of_def page_aligned_nat)
  show ?thesis
    unfolding page_alloc_state[OF assms(1,2) a assms(3,5)]
    using v lookup_put_slot[OF wf v, of "PAGEADDRESS ?pn + 7" va] e(1) assms(7) by (simp add: vam_of_def n e(2) fl)
qed

theorem page_alloc_alias_witness:
  "\<exists>s'. sys_page_alloc_find_free (ptab example_one 1) 1 0x1000000040000 example_one = Inr (0, s') \<and>
    vam_perm (virtual_memory_lookup (k_mem s') (ptab s' 1) 0x40000) = 7"
proof -
  have "kinv example_syms example_one" "live example_one 1" using example_one_facts(1,3) by (simp_all add: healthy_def)
  then show ?thesis
    using page_alloc_alias[of example_syms example_one 1 "0x1000000040000" "0x40000"] example_page_free
    by (fastforce simp: page_aligned_nat vpn_def)
qed

section \<open>mapping\<close>

lemma crossing_pages:
  assumes "page_aligned P" "page_aligned (P + PAGESIZE)" "unat (x - (P + 4088)) < 24"
  shows "PTE_ADDR x = P \<or> PTE_ADDR x = P + PAGESIZE"
proof (cases "unat (x - (P + 4088)) < 8")
  case True
  have "PAGEOFFSET (P + 4088) = 4088" "PTE_ADDR (P + 4088) = P" using PAGEOFFSET_plus[OF assms(1)] PTE_ADDR_plus[OF assms(1)] by simp_all
  then show ?thesis using PTE_ADDR_near[of "P + 4088" 8 x] True by simp
next
  case False
  note al = assms(2)
  define k where "k = x - (P + 4088)"
  have k: "8 \<le> k" "unat k < 24" using False assms(3) by (simp_all add: k_def word_le_nat_alt)
  have "x - (P + 4096) = k - 8" by (simp add: k_def)
  then have "unat (x - (P + 4096)) = unat k - 8" using unat_sub[OF k(1)] by (simp only:) simp
  then have "unat (x - (P + 4096)) < 16" using k(2) by linarith
  moreover have "PAGEOFFSET (P + 4096) = 0" "PTE_ADDR (P + 4096) = P + 4096" using PAGEOFFSET_plus[OF al, of 0] PTE_ADDR_self[OF al] by simp_all
  ultimately show ?thesis using PTE_ADDR_near[of "P + 4096" 16 x] by simp
qed

lemma store_vamapping_pa:
  assumes "i < 8"
  shows "store_vamapping m a pad1 pad2 vam (a + 8 + of_nat i) = ucast (drop_bit (8 * i) (vam_pa vam))"
proof -
  have 1: "a + 8 + of_nat i - (a + 20) = of_nat i - 12" "a + 8 + of_nat i - (a + 16) = of_nat i - 8" "a + 8 + of_nat i - (a + 8) = (of_nat i :: 64 word)" by simp_all
  have u: "unat (of_nat i :: 64 word) = i" using assms by (intro unat_of_nat64) simp
  moreover have "\<not> unat (of_nat i - 12 :: 64 word) < 4" "\<not> unat (of_nat i - 8 :: 64 word) < 4"
    using assms u by (simp_all add: unat_sub_if_size word_size)
  ultimately show ?thesis using assms unfolding store_vamapping_def Let_def store_le_def 1 by simp
qed

text \<open>C25: \<open>sys_mapping\<close> can write into the memory of another process. \<open>syscall_mapping\<close> looks up the address of the buffer, and copies the 24 bytes of the answer to consecutive physical
  addresses. With a buffer 8 bytes before the end of a page, the fields \<open>pa\<close> and \<open>perm\<close> go to the physically next page. If that one
  belongs to another process, the first 8 bytes of the page of that process become the physical address
  of the mapping that was asked for. The test of the end of the buffer does not prevent it: it looks up a physical address as if it were a virtual
  one of the caller, and only demands that the caller may write there or the kernel.\<close>

theorem mapping_crosses_page:
  assumes "kinv syms s" "live s p" "live s q"
    and "PAGEOFFSET (reg_rdi (p_registers (k_processes s p))) = 4088"
    and "user_slot s p (vpn (reg_rdi (p_registers (k_processes s p)))) x"
    and "slot_of s p (vpn (reg_rdi (p_registers (k_processes s p)))) AND (PTE_W OR PTE_U) = (PTE_W OR PTE_U)"
    and "user_slot s q w y" "PTE_ADDR (slot_of s q w) = PTE_ADDR (slot_of s p (vpn (reg_rdi (p_registers (k_processes s p))))) + PAGESIZE"
    and "slot_of s p (vpn (PTE_ADDR (slot_of s q w))) AND (PTE_W OR PTE_P) = (PTE_W OR PTE_P)"
  shows "\<exists>t. syscall_mapping pad1 pad2 p s = Inr t \<and>
    (\<forall>i < 8. view_at t q (of_nat w * PAGESIZE + of_nat i) =
       Some (ucast (drop_bit (8 * i) (vam_pa (virtual_memory_lookup (k_mem s) (ptab s p) (reg_rsi (p_registers (k_processes s p)))))),
             uint (PTE_FLAGS (slot_of s q w))))"
proof -
  define ptr where "ptr = reg_rdi (p_registers (k_processes s p))"
  define e where "e = slot_of s p (vpn ptr)"
  define P where "P = PTE_ADDR e"
  define f where "f = slot_of s q w"
  define V where "V = virtual_memory_lookup (k_mem s) (ptab s p) (reg_rsi (p_registers (k_processes s p)))"
  define m where "m = store_vamapping (k_mem s) (P + 4088) pad1 pad2 V"
  note h = assms(4-9)[folded ptr_def, folded e_def f_def, folded P_def]
  have N: "PTE_ADDR f = P + 4096" "page_aligned (P + 4096)" using h(5) PTE_ADDR_aligned[of f] by simp_all
  have al: "page_aligned P" by (simp add: P_def)
  have e: "e AND 1 \<noteq> 0" "f AND 1 \<noteq> 0" "256 \<le> w" "w < 1024" using h(2,4) by (simp_all add: user_slot_def e_def f_def)
  have lt: "unat (P + 4096) + 4096 \<le> 0x200000"
    using phys_page_end[OF N(2)] user_page_info(1)[OF assms(1,3,7), folded f_def] N(1) by simp
  have ul: "unat (P + 4096 + 15) = unat (P + 4096) + 15" using lt unat_range[of "P + 4096" 4096 15] by simp
  have v: "vpn (P + 4096 + 15) = vpn (P + 4096)"
  proof -
    define k where "k = unat (P + 4096) div 4096"
    have "unat (P + 4096) = 4096 * k" using N(2) by (auto simp: page_aligned_nat k_def)
    then show ?thesis using lt ul by (simp add: vpn_low)
  qed
  have wf: "pt_wf (k_mem s) (ptab s q)" using kinvD(5)[OF assms(1,3)] by (simp add: kinv_table_def)
  have "\<forall>T \<in> set (pt_pages (k_mem s) (ptab s q)). same_page (k_mem s) m T"
  proof
    fix T assume T: "T \<in> set (pt_pages (k_mem s) (ptab s q))"
    have "T \<noteq> P" using user_page_no_table[OF assms(1,2,5,3)] T by (auto simp: P_def e_def ptr_def)
    moreover have "T \<noteq> P + 4096" using user_page_no_table[OF assms(1,3,7,3)] T N(1) by (auto simp: f_def)
    ultimately show "same_page (k_mem s) m T"
      unfolding same_page_def m_def using crossing_pages[OF al N(2)] store_vamapping_outside by metis
  qed
  note t = same_tables[OF wf this]
  have call: "syscall_mapping pad1 pad2 p s = Inr (s\<lparr>k_mem := m\<rparr>)"
  proof -
    have l1: "virtual_memory_lookup (k_mem s) (ptab s p) ptr = vam_of e ptr" unfolding e_def by (rule kinv_lookup[OF assms(1,2)])
    have l2: "virtual_memory_lookup (k_mem s) (ptab s p) (P + 4096 + 15) = vam_of (slot_of s p (vpn (P + 4096))) (P + 4096 + 15)"
      using kinv_lookup[OF assms(1,2), of "P + 4096 + 15"] by (simp only: v)
    have pa: "vam_pa (vam_of e ptr) = P + 4088" using e(1) h(1) by (simp add: vam_of_def P_def)
    have g: "word_of_int (vam_perm (vam_of e ptr)) AND 6 = (6 :: 64 word)" using vam_of_flag[OF e(1), of 6 ptr] h(3) by simp
    have g2: "word_of_int (vam_perm (vam_of (slot_of s p (vpn (P + 4096))) (P + 4096 + 15))) AND 3 = (3 :: 64 word)"
    proof -
      have s3: "slot_of s p (vpn (P + 4096)) AND 3 = 3" using h(6) N(1) by simp
      then show ?thesis using vam_of_flag[of "slot_of s p (vpn (P + 4096))" 3] and_3_bits[OF s3] by simp
    qed
    have lt2: "P + 4096 + 15 < MEMSIZE_PHYSICAL" using ul lt by (simp add: word_less_nat_alt)
    have ea: "P + 4088 + 24 - 1 = P + 4096 + 15" by simp
    show ?thesis
      unfolding syscall_mapping_def Let_def ptr_def[symmetric] l1 pa ea l2 V_def[symmetric] m_def
      using g g2 lt2 by simp
  qed
  show ?thesis
  proof (intro exI conjI allI impI, rule call)
    fix i :: nat assume i: "i < 8"
    show "view_at (s\<lparr>k_mem := m\<rparr>) q (of_nat w * PAGESIZE + of_nat i) = Some (ucast (drop_bit (8 * i) (vam_pa (virtual_memory_lookup (k_mem s) (ptab s p) (reg_rsi (p_registers (k_processes s p)))))),
        uint (PTE_FLAGS (slot_of s q w)))"
    proof -
      let ?va = "of_nat w * PAGESIZE + of_nat i :: 64 word"
      note u = user_page_addr[OF e(4)]
      have o: "of_nat i < (4096 :: 64 word)" using i by (simp add: word_less_nat_alt unat_of_nat64)
      have po: "PAGEOFFSET ?va = of_nat i" by (rule PAGEOFFSET_plus[OF u(2) o])
      have "unat ?va = 4096 * w + i" using u(3) i e(4) unat_range[of "of_nat w * PAGESIZE" 8 i] by simp
      then have vp: "vpn ?va = w" using i e(4) by (simp add: vpn_low)
      have "virtual_memory_lookup m (ptab s q) ?va = vam_of f ?va" using lookup_slots[OF t(1), of ?va] by (simp add: t(3) vp f_def)
      moreover have "vam_of f ?va = \<lparr>vam_pn = PAGENUMBER f, vam_pa = P + 4096 + of_nat i, vam_perm = uint (PTE_FLAGS f)\<rparr>"
        using e(2) po N(1) by (simp add: vam_of_def)
      moreover have "0 \<le> PAGENUMBER f" unfolding f_def by (rule slot_number[OF assms(1,3) e(4) e(2)[unfolded f_def]])
      moreover have "m (P + 4096 + of_nat i) = ucast (drop_bit (8 * i) (vam_pa V))"
        using store_vamapping_pa[OF i, of "k_mem s" "P + 4088" pad1 pad2 V] by (simp add: m_def add.assoc)
      ultimately show ?thesis by (simp add: view_at_def V_def f_def)
    qed
  qed
qed

lemma page_entry_facts:
  assumes "pn \<in> free_pages s"
  shows "PTE_ADDR (PAGEADDRESS pn + 7) = PAGEADDRESS pn" "PTE_FLAGS (PAGEADDRESS pn + 7) = 7" "(PAGEADDRESS pn + 7) AND PTE_P \<noteq> 0"
    "(PAGEADDRESS pn + 7) AND 6 = 6" "(PAGEADDRESS pn + 7) AND 3 = 3" "PAGENUMBER (PAGEADDRESS pn) = pn"
proof -
  note u = PAGEADDRESS_usable[OF free_not_used(2,3)[OF assms]]
  show "PTE_ADDR (PAGEADDRESS pn + 7) = PAGEADDRESS pn" by (rule PTE_ADDR_plus[OF u(1)]) simp
  show f: "PTE_FLAGS (PAGEADDRESS pn + 7) = 7" by (rule PTE_FLAGS_plus[OF u(1)]) simp
  have "PTE_FLAGS e AND k = e AND k" if "k \<in> {1, 3, 6}" for e k :: "64 word" using that by (auto simp: PTE_FLAGS_def and.assoc)
  from this[of 1 "PAGEADDRESS pn + 7"] this[of 3 "PAGEADDRESS pn + 7"] this[of 6 "PAGEADDRESS pn + 7"]
  show "(PAGEADDRESS pn + 7) AND PTE_P \<noteq> 0" "(PAGEADDRESS pn + 7) AND 6 = 6" "(PAGEADDRESS pn + 7) AND 3 = 3" unfolding f by simp_all
  show "PAGENUMBER (PAGEADDRESS pn) = pn" by (fact u(5))
qed

theorem mapping_crosses_page_witness:
  "\<exists>s t. healthy example_syms s \<and> live s 2 \<and> syscall_mapping 0 0 1 s = Inr t \<and> view_at t 2 0x100001 = Some (0x80, 7)"
proof -
  note p = example_pair_facts
  obtain N where N: "free_pages example_pair = free_pages example_boot - N" "finite N" "card N \<le> 10" using p(8) by blast
  obtain pn where pn: "0x100 \<le> pn" "pn + 1 < NPAGES" "pn \<notin> N" "pn + 1 \<notin> N" using adjacent_pages[OF N(2,3)] by blast
  then have f: "pn \<in> free_pages example_pair" "pn + 1 \<in> free_pages example_pair" using N(1) example_boot_facts(6) by auto
  define v where "v = nat (pn + 1)"
  have v: "256 \<le> v" "v < 768" "v < 1024" using pn by (simp_all add: v_def)
  note e1 = page_entry_facts[OF f(1)]
  define s1 where "s1 = with_page 1 v pn (PAGEADDRESS pn + 7) example_pair"
  have inv0: "kinv example_syms example_pair" "accounted example_pair" and l0: "live example_pair 1" "live example_pair 2" using p(1,4) by (simp_all add: healthy_def)
  have z: "slot_of example_pair 1 v AND PTE_P = 0" using p(6)[OF v(1) l0(1)] by simp
  have h1: "kinv example_syms s1" "accounted s1"
    unfolding s1_def using kinv_with_page[OF inv0(1) l0(1) v(1,3) f(1) e1(3,1)] accounted_with_page[OF inv0 l0(1) v(1,2) f(1) e1(3,1) z] by simp_all
  have l1: "live s1 1" "live s1 2" using l0 by (simp_all add: s1_def with_page_simps live_def)
  have sl1: "slot_of s1 1 v = PAGEADDRESS pn + 7" "slot_of s1 2 = slot_of example_pair 2"
    using with_page_tables(3)[OF inv0(1) l0(1) v(3) l0(1), where e = "PAGEADDRESS pn + 7"] with_page_tables(3)[OF inv0(1) l0(1) v(3) l0(2), where e = "PAGEADDRESS pn + 7"]
    by (simp_all add: s1_def with_page_simps)
  have f1: "pn + 1 \<in> free_pages s1" using f(2) by (auto simp: free_pages_def s1_def with_page_simps)
  note e2 = page_entry_facts[OF f1]
  define s2 where "s2 = with_page 2 256 (pn + 1) (PAGEADDRESS (pn + 1) + 7) s1"
  have n: "(256 :: nat) \<le> 256" "(256 :: nat) < 768" "(256 :: nat) < 1024" by simp_all
  have z1: "slot_of s1 2 256 AND PTE_P = 0" using p(6)[OF n(1) l0(2)] by (simp add: sl1)
  have h2: "healthy example_syms s2"
    unfolding s2_def healthy_def using kinv_with_page[OF h1(1) l1(2) n(1,3) f1 e2(3,1)] accounted_with_page[OF h1 l1(2) n(1,2) f1 e2(3,1) z1] by simp
  have sl2: "slot_of s2 1 v = PAGEADDRESS pn + 7" "slot_of s2 2 256 = PAGEADDRESS (pn + 1) + 7"
    using with_page_tables(3)[OF h1(1) l1(2) n(3) l1(1), where e = "PAGEADDRESS (pn + 1) + 7"] with_page_tables(3)[OF h1(1) l1(2) n(3) l1(2), where e = "PAGEADDRESS (pn + 1) + 7"]
    by (simp_all add: s2_def with_page_simps sl1)
  define ptr :: "64 word" where "ptr = of_nat v * PAGESIZE + 4088"
  define s where "s = upd_regs 1 (\<lambda>g. g\<lparr>reg_rdi := ptr, reg_rsi := 0xB8000\<rparr>) s2"
  have hs: "healthy example_syms s" unfolding s_def by (rule framed_healthy[OF h2 framed_upd(5)])
  have ls: "live s 1" "live s 2" using l1 by (simp_all add: s_def s2_def with_page_simps live_def)
  note ua = user_page_addr[OF v(3)]
  have po: "PAGEOFFSET ptr = 4088" unfolding ptr_def by (rule PAGEOFFSET_plus[OF ua(2)]) simp
  have "unat ptr = 4096 * v + 4088" using ua(3) v unat_range[of "of_nat v * PAGESIZE" 4096 4088] by (simp add: ptr_def)
  then have vp: "vpn ptr = v" using v by (simp add: vpn_low)
  have us: "user_slot s 1 (vpn ptr) pn" "user_slot s 2 256 (pn + 1)" and sp: "slot_of s 1 v = PAGEADDRESS pn + 7" "slot_of s 2 256 = PAGEADDRESS (pn + 1) + 7"
    using v sl2 e1 e2 by (simp_all add: user_slot_def s_def vp)
  have adj: "PAGEADDRESS (pn + 1) = PAGEADDRESS pn + PAGESIZE" by (simp add: PAGEADDRESS_def push_bit_eq_mult algebra_simps)
  have nv: "vpn (PAGEADDRESS (pn + 1)) = v"
    using PAGEADDRESS_usable(4)[OF free_not_used(2,3)[OF f1]] pn by (simp add: vpn_low v_def)
  have rd: "reg_rdi (p_registers (k_processes s 1)) = ptr" "reg_rsi (p_registers (k_processes s 1)) = 0xB8000" by (simp_all add: s_def upd_regs_def upd_proc_def)
  have inv: "kinv example_syms s" using hs by (simp add: healthy_def)
  obtain t where t: "syscall_mapping 0 0 1 s = Inr t"
    "\<forall>i < 8. view_at t 2 (of_nat 256 * PAGESIZE + of_nat i) =
       Some (ucast (drop_bit (8 * i) (vam_pa (virtual_memory_lookup (k_mem s) (ptab s 1) 0xB8000))), uint (PTE_FLAGS (slot_of s 2 256)))"
    using mapping_crosses_page[OF inv ls, of pn 256 "pn + 1" 0 0] us e1 e2 po adj nv sp vp rd by auto
  have "vam_pa (virtual_memory_lookup (k_mem s) (ptab s 1) 0xB8000) = 0xB8000"
  proof -
    have "low_identity (k_mem s) (ptab s 1) 256" using kinvD(5)[OF inv ls(1)] by (simp add: kinv_table_def)
    then have i: "slot_of s 1 0xB8 AND 3 = 3" "PTE_ADDR (slot_of s 1 0xB8) = 0xB8000" by (simp_all add: low_identity_def)
    have "vpn 0xB8000 = 0xB8" by (simp add: vpn_def)
    then show ?thesis using kinv_lookup[OF inv ls(1), of "0xB8000"] and_3_bits[OF i(1)] i(2) by (simp add: vam_of_def PAGEOFFSET_def)
  qed
  then have "view_at t 2 0x100001 = Some (0x80, 7)" using t(2)[rule_format, of 1] e2(2) by (simp add: sp)
  then show ?thesis using hs ls(2) t(1) by blast
qed

end
