(* ===== verification/Kernel_Abstract.thy ===== *)
theory Kernel_Abstract
  imports Kernel_Calls
begin

text \<open>
  The abstract specification that the kernel implements: a system of processes with separate address
  spaces. \<open>abs_state\<close> reads the address spaces off a kernel state, and the lemmas relate changes of the
  kernel state to steps of the abstract system.
\<close>

unbundle bit_operations_syntax

section \<open>The abstract system\<close>

text \<open>
  What the kernel promises its processes: each live process has an address space of its own, a partial map from
  addresses of the user area to a byte and the permissions of its page. One step is taken by one process.
\<close>

type_synonym aspace = "64 word \<Rightarrow> (8 word \<times> int) option"
type_synonym asystem = "int \<Rightarrow> aspace option"

definition own_write :: "aspace \<Rightarrow> aspace \<Rightarrow> bool" where
  "own_write as as' \<longleftrightarrow>
     (\<forall>va. as' va = as va \<or>
        (\<exists>b b' f. as va = Some (b, f) \<and> as' va = Some (b', f) \<and> word_of_int f AND PTE_W \<noteq> (0 :: 64 word)))"

definition own_page :: "64 word \<Rightarrow> aspace \<Rightarrow> aspace \<Rightarrow> bool" where
  "own_page page as as' \<longleftrightarrow>
     (\<forall>va. if PTE_ADDR va = page then as va = None \<and> (\<exists>b. as' va = Some (b, 7)) else as' va = as va)"

inductive astep :: "int \<Rightarrow> asystem \<Rightarrow> asystem \<Rightarrow> bool" where
  a_idle: "astep p A A"
| a_write: "A p = Some as \<Longrightarrow> own_write as as' \<Longrightarrow> astep p A (A(p \<mapsto> as'))"
| a_alloc: "A p = Some as \<Longrightarrow> own_page page as as' \<Longrightarrow> astep p A (A(p \<mapsto> as'))"
| a_fork: "A p = Some as \<Longrightarrow> A c = None \<Longrightarrow> astep p A (A(c \<mapsto> as))"
| a_exit: "astep p A (A(p := None))"

lemma astep_other:
  assumes "astep p A A'" "q \<noteq> p" "A q = Some as"
  shows "A' q = Some as"
  using assms by cases auto

section \<open>The abstraction\<close>

definition address_space :: "kernel_state \<Rightarrow> int \<Rightarrow> aspace" where
  "address_space s p va = (if PROC_START_ADDR \<le> va \<and> va < 0x400000 then view_at s p va else None)"

definition abs_state :: "kernel_state \<Rightarrow> asystem" where
  "abs_state s p = (if live s p then Some (address_space s p) else None)"

lemma address_space_vpn:
  "(PROC_START_ADDR \<le> va \<and> va < 0x400000) \<longleftrightarrow> 256 \<le> vpn va \<and> vpn va < 1024 \<and> unat va < 2 ^ 48"
  by (cases "unat va < 2 ^ 48")
     (auto simp: vpn_low word_le_nat_alt word_less_nat_alt less_eq_div_iff_mult_less_eq div_less_iff_less_mult)

lemma address_space_eqI:
  assumes "\<And>va. 256 \<le> vpn va \<Longrightarrow> vpn va < 1024 \<Longrightarrow> view_at s' p' va = view_at s p va"
  shows "address_space s' p' = address_space s p"
  unfolding address_space_def fun_eq_iff address_space_vpn using assms by simp

text \<open>An address space is unchanged when its slots and the contents of its pages are.\<close>

lemma address_space_same:
  assumes "kinv syms s" "live s p" "kinv syms s'" "live s' p" "slot_of s' p = slot_of s p"
    and "\<And>v pn. user_slot s p v pn \<Longrightarrow> same_page (k_mem s) (k_mem s') (PTE_ADDR (slot_of s p v))"
  shows "address_space s' p = address_space s p"
  by (rule address_space_eqI, rule same_view[OF assms(1-4) _ _ assms(5)]) (use assms(6) user_slot_self in blast)+

lemma abs_state_same:
  assumes "kinv syms s" "framed syms s s'"
    and "\<And>p v pn. live s p \<Longrightarrow> user_slot s p v pn \<Longrightarrow> same_page (k_mem s) (k_mem s') (PTE_ADDR (slot_of s p v))"
  shows "abs_state s' = abs_state s"
proof
  fix p
  show "abs_state s' p = abs_state s p"
    using address_space_same[OF assms(1) _ framed_kinv[OF assms(1,2)], of p] framed_live[OF assms(2), of p]
      framed_views(2)[OF assms(1,2), of p] assms(3)[of p] by (simp add: abs_state_def)
qed

lemma abs_state_framed: "kinv syms s \<Longrightarrow> framed syms s s' \<Longrightarrow> k_mem s' = k_mem s \<Longrightarrow> abs_state s' = abs_state s"
  by (rule abs_state_same) (simp_all add: same_page_def)

lemma abs_state_drawn:
  assumes "kinv syms s" "framed syms s s'" "drawn (k_mem s) (k_mem s')"
  shows "abs_state s' = abs_state s"
  using assms user_page_not_console[OF assms(1)] by (intro abs_state_same) (auto simp: drawn_def)

lemma abs_state_entered:
  assumes "kinv syms s" "framed syms s s'" "viewed (entered syms reg s) s'"
  shows "abs_state s' = abs_state s"
  using viewed_simps(7)[OF assms(3)] by (intro abs_state_drawn[OF assms(1,2)]) simp

section \<open>What the steps do to address spaces\<close>

lemma user_slot_page:
  assumes "kinv syms s" "live s p" "live s q" "user_slot s p v x" "user_slot s q w y"
    "PTE_ADDR (slot_of s p v) = PTE_ADDR (slot_of s q w)" "p = q \<or> slot_of s p v AND PTE_W \<noteq> 0"
  shows "p = q \<and> v = w"
proof -
  have "x = y" using assms(4-6) by (simp add: user_slot_def)
  then show ?thesis using kinvD(4)[OF assms(1)] assms(2-5,7) unfolding kinv_excl_def by blast
qed

lemma write_astep:
  assumes inv: "kinv syms s" and l: "live s p" and w: "user_write s p m"
  shows "astep p (abs_state s) (abs_state (s\<lparr>k_mem := m\<rparr>))"
proof -
  let ?s = "s\<lparr>k_mem := m\<rparr>"
  note fr = user_write_framed[OF inv l w]
  note inv' = framed_kinv[OF inv fr]
  have l': "live ?s q = live s q" for q by (simp add: live_def)
  obtain v where v: "slot_of s p v AND PTE_P \<noteq> 0" "slot_of s p v AND PTE_W \<noteq> 0" "slot_of s p v AND PTE_U \<noteq> 0"
    "\<And>Q. Q \<noteq> PTE_ADDR (slot_of s p v) \<Longrightarrow> same_page (k_mem s) m Q"
    using w by (auto simp: user_write_def)
  show ?thesis
  proof (cases "PTE_ADDR (slot_of s p v) = CONSOLE_ADDR")
    case True
    then have "abs_state ?s = abs_state s" using v(4) by (intro abs_state_drawn[OF inv fr]) (simp add: drawn_def)
    then show ?thesis by (simp add: a_idle)
  next
    case False
    then have us: "user_slot s p v (PAGENUMBER (PTE_ADDR (slot_of s p v)))"
      using user_access[OF inv l slot_bound[OF v(1)] v(1,3)] by blast
    have same: "same_page (k_mem s) (k_mem ?s) (PTE_ADDR (slot_of s q x))" if "live s q" "user_slot s q x y" "\<not> (q = p \<and> x = v)" for q x y
      using user_slot_page[OF inv l that(1) us that(2)] v(2) v(4)[of "PTE_ADDR (slot_of s q x)"] that(3) by fastforce
    have "address_space ?s q = address_space s q" if "live s q" "q \<noteq> p" for q
      using address_space_same[OF inv that(1) inv' _ framed_views(2)[OF inv fr that(1)]] same[OF that(1)] that l' by simp
    then have eq: "abs_state ?s = (abs_state s)(p \<mapsto> address_space ?s p)"
      using l l' by (auto simp: abs_state_def)
    have "own_write (address_space s p) (address_space ?s p)"
      unfolding own_write_def
    proof
      fix va
      let ?e = "slot_of s p (vpn va)"
      show "address_space ?s p va = address_space s p va \<or> (\<exists>b b' f. address_space s p va = Some (b, f) \<and>
          address_space ?s p va = Some (b', f) \<and> word_of_int f AND PTE_W \<noteq> (0 :: 64 word))"
      proof (cases "PROC_START_ADDR \<le> va \<and> va < 0x400000")
        case True
        then have r: "256 \<le> vpn va" "vpn va < 1024" using address_space_vpn by blast+
        note vs = view_at_slot[OF inv l r] view_at_slot[OF inv' _ r, of p, unfolded l', OF l, unfolded framed_views(2)[OF inv fr l]]
        show ?thesis
        proof (cases "vpn va = v")
          case True
          have "(?e AND 0xFFF) AND 2 = ?e AND 2" by (simp add: and.assoc)
          then show ?thesis
            using \<open>PROC_START_ADDR \<le> va \<and> va < 0x400000\<close> v(1,2) True by (simp add: address_space_def vs PTE_FLAGS_def)
        next
          case False
          have "view_at ?s p va = view_at s p va"
            by (rule same_view[OF inv l inv' _ r framed_views(2)[OF inv fr l]])
               (use l l' same[OF l user_slot_self[OF r]] False in auto)
          then show ?thesis by (simp add: address_space_def)
        qed
      qed (auto simp: address_space_def)
    qed
    then show ?thesis unfolding eq using l by (intro a_write) (simp_all add: abs_state_def)
  qed
qed

lemma same_page_vpn:
  assumes "page_aligned va" "va < 0x400000"
  shows "PTE_ADDR x = va \<longleftrightarrow> vpn x = vpn va \<and> unat x < 2 ^ 48"
proof -
  have u: "unat va < 2 ^ 48" "4096 dvd unat va" using assms by (auto simp: word_less_nat_alt page_aligned_nat)
  have "PTE_ADDR x = va \<longleftrightarrow> unat x div 4096 = unat va div 4096"
    unfolding word_unat_eq_iff PTE_ADDR_nat using u(2) by (auto elim!: dvdE simp: minus_mod_eq_mult_div[symmetric])
  moreover have "unat x < 2 ^ 48 \<longleftrightarrow> unat x div 4096 < 2 ^ 36" by (simp add: div_less_iff_less_mult)
  moreover have "unat va div 4096 < 2 ^ 36" using u(1) by (simp add: div_less_iff_less_mult)
  ultimately show ?thesis by (auto simp: vpn_def)
qed

lemma alloc_effect:
  assumes inv: "kinv syms s" and l: "live s p" and pn: "pn \<in> free_pages s" and a: "page_aligned va" "PROC_START_ADDR \<le> va" "va < 0x400000"
    and absent: "slot_of s p (vpn va) AND PTE_P = 0"
  defines "s' \<equiv> with_page p (vpn va) pn (PAGEADDRESS pn + 7) s"
  shows "abs_state s' = (abs_state s)(p \<mapsto> address_space s' p)" "own_page va (address_space s p) (address_space s' p)"
proof -
  let ?e = "PAGEADDRESS pn + 7 :: 64 word"
  let ?s = "with_page p (vpn va) pn ?e s"
  have r: "256 \<le> vpn va" "vpn va < 1024" using a(2,3) address_space_vpn by blast+
  note e = page_alloc_entry[OF pn]
  note inv' = kinv_with_page[OF inv l r pn e]
  have l': "live ?s q = live s q" for q by (simp add: with_page_simps)
  have sl: "slot_of ?s q = (if q = p then (slot_of s p)(vpn va := ?e) else slot_of s q)" if "live s q" for q
    using with_page_tables(3)[OF inv l r(2) that, where e = ?e] by (auto simp: with_page_simps)
  have wf: "pt_wf (k_mem s) (ptab s p)" using kinvD(5)[OF inv l] by (simp add: kinv_table_def)
  have same: "same_page (k_mem s) (k_mem ?s) (PTE_ADDR (slot_of s q x))" if "live s q" "user_slot s q x y" for q x y
    using put_slot_same_table[OF wf r(2) user_page_no_table[OF inv that l]] by (simp add: with_page_simps)
  have "address_space ?s q = address_space s q" if "live s q" "q \<noteq> p" for q
    using address_space_same[OF inv that(1) inv'] same[OF that(1)] sl[OF that(1)] that l' by simp
  then show "abs_state s' = (abs_state s)(p \<mapsto> address_space s' p)" unfolding s'_def using l l' by (auto simp: abs_state_def)
  show "own_page va (address_space s p) (address_space s' p)"
    unfolding own_page_def s'_def
  proof
    fix x
    note px = same_page_vpn[OF a(1,3), of x]
    show "if PTE_ADDR x = va then address_space s p x = None \<and> (\<exists>b. address_space ?s p x = Some (b, 7))
      else address_space ?s p x = address_space s p x"
    proof (cases "PROC_START_ADDR \<le> x \<and> x < 0x400000")
      case True
      then have rx: "256 \<le> vpn x" "vpn x < 1024" "unat x < 2 ^ 48" using address_space_vpn by blast+
      note vs = view_at_slot[OF inv l rx(1,2)] view_at_slot[OF inv' _ rx(1,2), of p, unfolded l', OF l, unfolded sl[OF l]]
      have fl: "PTE_FLAGS ?e = 7" using PTE_FLAGS_plus[OF PAGEADDRESS_usable(1)[OF free_not_used(2,3)[OF pn]], of 7] by simp
      show ?thesis
      proof (cases "vpn x = vpn va")
        case True
        then show ?thesis
          using \<open>PROC_START_ADDR \<le> x \<and> x < 0x400000\<close> rx(3) absent e(1) by (simp add: address_space_def px vs fl)
      next
        case False
        have "slot_of s p (vpn x) AND PTE_P \<noteq> 0 \<Longrightarrow>
            k_mem ?s (PTE_ADDR (slot_of s p (vpn x)) + PAGEOFFSET x) = k_mem s (PTE_ADDR (slot_of s p (vpn x)) + PAGEOFFSET x)"
          using same_page_at[OF same[OF l user_slot_self[OF rx(1,2)]] PTE_ADDR_aligned PAGEOFFSET_less] by blast
        with False show ?thesis by (simp add: address_space_def px vs)
      qed
    next
      case False
      then have "PTE_ADDR x \<noteq> va" using address_space_vpn[of x] px r by auto
      with False show ?thesis by (auto simp: address_space_def)
    qed
  qed
qed

lemma alloc_astep:
  assumes "kinv syms s" "live s p" "pn \<in> free_pages s" "page_aligned va" "PROC_START_ADDR \<le> va" "va < 0x400000"
    and "slot_of s p (vpn va) AND PTE_P = 0"
  shows "astep p (abs_state s) (abs_state (with_page p (vpn va) pn (PAGEADDRESS pn + 7) s))"
  unfolding alloc_effect(1)[OF assms] using assms(2) alloc_effect(2)[OF assms] by (intro a_alloc) (simp_all add: abs_state_def)

lemma exit_astep:
  assumes "kinv syms s" "running s"
  shows "abs_state (handle_exit s) = (abs_state s)(k_current s := None)"
proof -
  have "address_space (leaving s 768) q = address_space s q" for q
    by (rule address_space_eqI) (simp add: view_at_def leaving_simps Let_def)
  then show ?thesis unfolding handle_exit_eq[OF assms] by (auto simp: abs_state_def leaving_simps(7))
qed

end
