(* ===== verification/Kernel_Machine.thy ===== *)
theory Kernel_Machine
  imports Kernel_Abstract
begin

text \<open>
  The whole system as a state machine: user code runs, stores to memory and enters the kernel; the
  kernel handles the exception and resumes a process. Its executions keep the kernel's invariant,
  never stop the kernel, refine the abstract system, and isolate the processes.
\<close>

unbundle bit_operations_syntax

section \<open>Requests that the kernel serves safely\<close>

text \<open>
  The exceptions after which everything the kernel relies on holds again. Timer interrupts and the calls getpid,
  yield and mem\_tog always qualify, and so do page faults in user mode; the others have conditions. A process is free to make requests that are not permitted, and
  the kernel does not defend itself against them: \<open>Kernel_Calls\<close> shows that a buffer of \<open>sys_mapping\<close> that crosses the end of a page is written into the memory of another process,
  that \<open>page_alloc\<close> of an address below \<open>PROC_START_ADDR\<close>, or of one that differs from it in the bits that the walk ignores, leaks a page or opens a page of the kernel to the process, and that exit with shared pages and
  fork without enough memory end in a failed check. \<open>page_alloc\<close> of a page that is mapped already replaces that page, a misaligned address fails an assertion, and panic and brk stop the kernel by design.
  The theorems on executions below are about user stores and permitted exceptions only.
\<close>

definition permitted :: "kernel_state \<Rightarrow> x86_64_registers \<Rightarrow> bool" where
  "permitted s reg \<longleftrightarrow>
     reg_intno reg \<in> {49, 50, 32, 56} \<or>
     reg_intno reg = 14 \<and> reg_err reg AND 4 \<noteq> 0 \<or>
     reg_intno reg = 54 \<and> unat (PAGEOFFSET (reg_rdi reg)) + 24 \<le> 4096 \<or>
     reg_intno reg = 51 \<and> PROC_START_ADDR \<le> reg_rdi reg \<and> reg_rdi reg < MEMSIZE_VIRTUAL \<and> page_aligned (reg_rdi reg) \<and>
       slot_of s (k_current s) (vpn (reg_rdi reg)) AND PTE_P = 0 \<or>
     reg_intno reg = 52 \<and> (list_all (\<lambda>q. p_state (k_processes s q) \<noteq> P_FREE) [1..NPROC - 1] \<or>
       5 + card (writable_slots s (k_current s) 768) \<le> card (free_pages s)) \<or>
     reg_intno reg = 53 \<and> unshared s (k_current s)"

lemma permitted_entered:
  assumes inv: "kinv syms s" and fr: "framed syms s s'" and v: "viewed (entered syms reg s) s'" and run: "running s" and p: "permitted s reg"
  shows "permitted s' reg"
proof -
  note e = entered_view[OF v] and l = running_live[OF run]
  have sl: "slot_of s' (k_current s') = slot_of s (k_current s)" using framed_views(2)[OF inv fr l] e(1) by simp
  moreover have "free_pages s' = free_pages s" by (simp add: free_pages_def e(3))
  moreover have "writable_slots s' (k_current s') n = writable_slots s (k_current s) n" for n by (simp add: writable_slots_def sl)
  moreover have "unshared s' (k_current s') = unshared s (k_current s)" unfolding unshared_def e(1,3) framed_sharers[OF inv fr] ..
  ultimately show ?thesis using p unfolding permitted_def by (simp only: e(4))
qed

fun result_state :: "handled \<Rightarrow> kernel_state option" where
  "result_state (Break s) = Some s"
| "result_state (Done (Resumed s)) = Some s"
| "result_state (Done _) = None"

text \<open>A case of \<open>exception\<close> that keeps the kernel healthy and takes an abstract step of the process.\<close>

definition served :: "link_symbols \<Rightarrow> kernel_state \<Rightarrow> handled \<Rightarrow> bool" where
  "served syms s h \<longleftrightarrow>
     handled_sat (healthy syms) h \<and> (\<forall>t. result_state h = Some t \<longrightarrow> astep (k_current s) (abs_state s) (abs_state t))"

lemma served_Break:
  "served syms s (Break t) \<longleftrightarrow>
     healthy syms t \<and> 0 \<le> k_current t \<and> k_current t < NPROC \<and> astep (k_current s) (abs_state s) (abs_state t)"
  by (auto simp: served_def)

lemma served_framed:
  assumes "healthy syms s" "running s" "framed syms s t" "k_current t = k_current s" "astep (k_current s) (abs_state s) (abs_state t)"
  shows "served syms s (Break t)"
  using assms framed_healthy[OF assms(1,3)] by (simp add: served_Break running_def)

lemma run_state: "run syms pid s = Inr (Resumed t) \<Longrightarrow> \<exists>q c. t = s\<lparr>k_current := q, k_cr3 := c\<rparr>"
  by (auto simp: run_def bindR_eq_Inr)

lemma run_not_other: "run syms pid s = Inr out \<Longrightarrow> \<exists>t. out = Resumed t"
  by (auto simp: run_def bindR_eq_Inr)

lemma schedule_loop_state: "schedule_loop keys syms pid s = Inr (Resumed t) \<Longrightarrow> \<exists>q c. t = s\<lparr>k_current := q, k_cr3 := c\<rparr>"
proof (induction keys arbitrary: pid)
  case Nil
  then show ?case using run_state by (auto simp: Let_def split: if_splits)
next
  case (Cons k keys)
  have "check_keyboard k s = (No_action, s) \<or> fst (check_keyboard k s) \<noteq> No_action"
    by (simp add: check_keyboard_def Let_def)
  then show ?case using Cons run_state by (auto simp: Let_def split: if_splits prod.splits keyboard_action.splits)
qed

lemma schedule_state: "schedule syms keys s = Inr (Resumed t) \<Longrightarrow> \<exists>q c. t = s\<lparr>k_current := q, k_cr3 := c\<rparr>"
  unfolding schedule_def by (rule schedule_loop_state)

lemma served_schedule:
  assumes "syms_ok syms" "healthy syms s" "framed syms s s1" "k_mem s1 = k_mem s"
  shows "\<exists>h. bindR (schedule syms keys s1) (\<lambda>out. Inr (Done out)) = Inr h \<and> served syms s h"
proof -
  have inv: "kinv syms s" using assms(2) by (simp add: healthy_def)
  note h1 = framed_healthy[OF assms(2,3)]
  then have inv1: "kinv syms s1" by (simp add: healthy_def)
  obtain out where out: "schedule syms keys s1 = Inr out" "outcome_sat (healthy syms) out"
    using strict.schedule_keeps[OF assms(1) h1] by blast
  have "abs_state t = abs_state s" if "out = Resumed t" for t
  proof -
    obtain q c where t: "t = s1\<lparr>k_current := q, k_cr3 := c\<rparr>" using schedule_state out(1) \<open>out = Resumed t\<close> by blast
    have "abs_state t = abs_state s1" unfolding t by (rule abs_state_framed[OF inv1 framed_upd(1)]) simp
    then show ?thesis using abs_state_framed[OF inv assms(3,4)] by simp
  qed
  then have "served syms s (Done out)" using out(2) by (cases out) (auto simp: served_def a_idle)
  with out(1) show ?thesis by simp
qed

lemma fork_effect:
  assumes h: "healthy syms s" and run: "running s" and c: "first_free s c"
    and room: "5 + card (writable_slots s (k_current s) 768) \<le> card (free_pages s)"
  shows "\<exists>t. handle_fork s = Inr (Break t) \<and> healthy syms t \<and> forked_descriptors s c t \<and>
    abs_state t = (abs_state s)(c \<mapsto> address_space s (k_current s))"
proof -
  let ?p = "k_current s"
  have inv: "kinv syms s" and acc: "accounted s" using h by (simp_all add: healthy_def)
  note l = running_live[OF run]
  have r: "1 \<le> c" "c < NPROC" "p_state (k_processes s c) = P_FREE" using c by (simp_all add: first_free_def)
  have nl: "\<not> live s c" using r(3) by (simp add: live_def)
  have pc: "c \<noteq> ?p" using l nl by blast
  obtain t where t: "fork_into c s = Inr (Break t)" "healthy syms t" "forked_descriptors s c t"
    "\<forall>va. 256 \<le> vpn va \<longrightarrow> vpn va < 768 \<longrightarrow> view_at t c va = view_at s ?p va"
    "\<forall>q va. live s q \<longrightarrow> 256 \<le> vpn va \<longrightarrow> vpn va < 1024 \<longrightarrow> view_at t q va = view_at s q va"
    using fork_into_ok[OF h run r room] by blast
  note d = forked_descriptorsD[OF t(3)]
  have inv': "kinv syms t" and acc': "accounted t" using t(2) by (simp_all add: healthy_def)
  have lt: "live t q \<longleftrightarrow> live s q \<or> q = c" for q unfolding live_def d(2)[OF pc] using r by auto
  have top: "view_at u q va = None" if "kinv syms u" "accounted u" "live u q" "768 \<le> vpn va" "vpn va < 1024" for u q va
  proof -
    have g: "256 \<le> vpn va" using that(4) by simp
    have "slot_of u q (vpn va) AND PTE_P = 0"
      using accountedD(1)[OF that(2,3) user_slot_self[OF g that(5)]] that(4) by fastforce
    then show ?thesis by (simp add: view_at_slot[OF that(1,3) g that(5)])
  qed
  have "address_space t c = address_space s ?p"
  proof (rule address_space_eqI)
    fix va assume va: "256 \<le> vpn va" "vpn va < 1024"
    have lc: "live t c" using lt by simp
    show "view_at t c va = view_at s ?p va"
    proof (cases "vpn va < 768")
      case True
      then show ?thesis using t(4) va by simp
    next
      case False
      then show ?thesis using top[OF inv' acc' lc _ va(2)] top[OF inv acc l _ va(2)] by simp
    qed
  qed
  moreover have "address_space t q = address_space s q" if "live s q" for q
    by (rule address_space_eqI) (use t(5) that in blast)
  ultimately have "abs_state t = (abs_state s)(c \<mapsto> address_space s ?p)"
    by (simp add: fun_eq_iff abs_state_def lt)
  then show ?thesis unfolding handle_fork_found[OF c] using t(1-3) by blast
qed

lemma fork_astep:
  assumes "healthy syms s" "running s" "first_free s c"
    and "5 + card (writable_slots s (k_current s) 768) \<le> card (free_pages s)"
  shows "\<exists>t. handle_fork s = Inr (Break t) \<and> served syms s (Break t)"
proof -
  obtain t where t: "handle_fork s = Inr (Break t)" "healthy syms t" "forked_descriptors s c t"
    "abs_state t = (abs_state s)(c \<mapsto> address_space s (k_current s))"
    using fork_effect[OF assms] by blast
  have "astep (k_current s) (abs_state s) (abs_state t)"
    unfolding t(4) by (rule a_fork) (use running_live[OF assms(2)] assms(3) in \<open>simp_all add: abs_state_def first_free_def live_def\<close>)
  with t(1,2) forked_descriptorsD(1)[OF t(3)] assms(2) show ?thesis by (simp add: served_Break running_def)
qed

lemma first_free_exists:
  assumes "\<not> list_all (\<lambda>q. p_state (k_processes s q) \<noteq> P_FREE) [1..NPROC - 1]"
  shows "\<exists>c. first_free s c"
proof -
  define F where "F = {q. 1 \<le> q \<and> q < NPROC \<and> p_state (k_processes s q) = P_FREE}"
  obtain q where "p_state (k_processes s q) = P_FREE" "1 \<le> q" "q \<le> 15" using assms by (auto simp: list_all_iff)
  then have "q \<in> F" by (simp add: F_def)
  then have F: "F \<noteq> {}" by blast
  have fin: "finite F" by (rule finite_subset[of _ "{1..<NPROC}"]) (auto simp: F_def)
  define c where "c = Min F"
  have c: "1 \<le> c" "c < NPROC" "p_state (k_processes s c) = P_FREE" using Min_in[OF fin F] by (simp_all add: F_def c_def)
  have "q \<notin> F" if "q < c" for q using that Min_le[OF fin, of q] by (auto simp: c_def)
  then have "p_state (k_processes s q) \<noteq> P_FREE" if "1 \<le> q" "q < c" for q using that c(2) by (auto simp: F_def)
  with c show ?thesis unfolding first_free_def list_all_iff by auto
qed

lemma upd_regs_astep: "healthy syms s \<Longrightarrow> astep p (abs_state s) (abs_state (upd_regs q f s))"
  using abs_state_framed[OF _ framed_upd(5), of syms s q f] by (simp add: healthy_def a_idle)

lemma alloc_served:
  assumes h: "healthy syms s" and run: "running s" and reg: "p_registers (cur s) = reg"
    and p: "PROC_START_ADDR \<le> reg_rdi reg" "reg_rdi reg < MEMSIZE_VIRTUAL" "page_aligned (reg_rdi reg)"
      "slot_of s (k_current s) (vpn (reg_rdi reg)) AND PTE_P = 0"
  shows "\<exists>t. handle_page_alloc s = Inr (Break t) \<and> served syms s (Break t)"
proof -
  let ?p = "k_current s" and ?a = "reg_rdi reg"
  have inv: "kinv syms s" and acc: "accounted s" using h by (simp_all add: healthy_def)
  note l = running_live[OF run]
  have pid: "p_pid (cur s) = ?p" using kinvD(1)[OF inv] run by (simp add: kinv_procs_def running_def)
  have v: "256 \<le> vpn ?a" "vpn ?a < 768" "vpn ?a < 1024" and lt: "?a < 0x400000"
    using vpn_user(1)[OF p(1,2)] p(2) by (auto simp: word_less_nat_alt)
  have k: "0 \<le> ?p" "?p < NPROC" using run by (simp_all add: running_def)
  show ?thesis
  proof (cases "free_pages s = {}")
    case True
    then have "handle_page_alloc s = Inr (Break (upd_regs ?p (\<lambda>g. g\<lparr>reg_rax := -1\<rparr>) s))"
      by (simp add: handle_page_alloc_def sys_page_alloc_eq)
    then show ?thesis using served_framed[OF h run framed_upd(5) _ upd_regs_astep[OF h]] by simp
  next
    case False
    define pn where "pn = Min (free_pages s)"
    note pf = Min_free_pages(1)[OF False, folded pn_def]
    let ?w = "with_page ?p (vpn ?a) pn (PAGEADDRESS pn + 7) s"
    have r: "handle_page_alloc s = Inr (Break (upd_regs ?p (\<lambda>g. g\<lparr>reg_rax := 0\<rparr>) ?w))"
      unfolding handle_page_alloc_def reg pid page_alloc_state[OF inv l p(1,3) False] using v(3) by (simp add: with_page_def pn_def)
    have hw: "healthy syms ?w"
      using kinv_with_page[OF inv l v(1,3) pf page_alloc_entry[OF pf]] accounted_with_page[OF inv acc l v(1,2) pf page_alloc_entry[OF pf] p(4)]
      by (simp add: healthy_def)
    then have iw: "kinv syms ?w" by (simp add: healthy_def)
    have "abs_state (upd_regs ?p (\<lambda>g. g\<lparr>reg_rax := 0\<rparr>) ?w) = abs_state ?w"
      by (rule abs_state_framed[OF iw framed_upd(5)]) simp
    then show ?thesis
      unfolding r using framed_healthy[OF hw framed_upd(5)] alloc_astep[OF inv l pf p(3,1) lt p(4)] k
      by (simp add: served_Break with_page_simps)
  qed
qed

lemma handle_served:
  assumes ok: "syms_ok syms" and h: "healthy syms s" and run: "running s" and reg: "p_registers (cur s) = reg" and p: "permitted s reg"
  shows "\<exists>h. handle syms keys cr2 pad1 pad2 reg s = Inr h \<and> served syms s h"
proof -
  let ?p = "k_current s"
  have inv: "kinv syms s" using h by (simp add: healthy_def)
  note l = running_live[OF run]
  from p consider "reg_intno reg = 49" | "reg_intno reg = 50" | "reg_intno reg = 32" | "reg_intno reg = 56"
    | "reg_intno reg = 14" "reg_err reg AND 4 \<noteq> 0"
    | "reg_intno reg = 54" "unat (PAGEOFFSET (reg_rdi reg)) + 24 \<le> 4096"
    | "reg_intno reg = 51" "PROC_START_ADDR \<le> reg_rdi reg" "reg_rdi reg < MEMSIZE_VIRTUAL" "page_aligned (reg_rdi reg)"
      "slot_of s (k_current s) (vpn (reg_rdi reg)) AND PTE_P = 0"
    | "reg_intno reg = 52" "list_all (\<lambda>q. p_state (k_processes s q) \<noteq> P_FREE) [1..NPROC - 1] \<or>
        5 + card (writable_slots s (k_current s) 768) \<le> card (free_pages s)"
    | "reg_intno reg = 53" "unshared s (k_current s)"
    unfolding permitted_def by blast
  then show ?thesis
  proof cases
    case 1
    then show ?thesis using served_framed[OF h run framed_upd(5) _ upd_regs_astep[OF h]] by (simp add: handle_def)
  next
    case 2
    then show ?thesis using served_schedule[OF ok h framed_refl refl, of keys] by (simp add: handle_def)
  next
    case 3
    then show ?thesis using served_schedule[OF ok h framed_upd(3)[where t = "k_ticks s + 1"], of keys] by (simp add: handle_def)
  next
    case 4
    have "k_mem (syscall_mem_tog ?p s) = k_mem s" by (simp add: syscall_mem_tog_def Let_def)
    from abs_state_framed[OF inv syscall_mem_tog_framed(1) this] have "astep ?p (abs_state s) (abs_state (syscall_mem_tog ?p s))"
      by (simp add: a_idle)
    with 4 show ?thesis using served_framed[OF h run syscall_mem_tog_framed(1,2)] by (simp add: handle_def)
  next
    case 5
    obtain t where t: "handle_pagefault cr2 reg s = Inr (Break t)" "framed syms s t" "k_current t = ?p" "drawn (k_mem s) (k_mem t)"
      using handle_pagefault_framed[OF inv l 5(2)] by blast
    from abs_state_drawn[OF inv t(2,4)] have "astep ?p (abs_state s) (abs_state t)" by (simp add: a_idle)
    with 5 t served_framed[OF h run t(2,3)] show ?thesis by (simp add: handle_def)
  next
    case 6
    have off: "unat (PAGEOFFSET (reg_rdi (p_registers (cur s)))) + 24 \<le> 4096" using 6(2) reg by simp
    from syscall_mapping_effect[OF inv l off, of pad1 pad2]
    obtain t where t: "syscall_mapping pad1 pad2 ?p s = Inr t" "framed syms s t" "k_current t = ?p" "astep ?p (abs_state s) (abs_state t)"
      using framed_refl a_idle user_write_framed[OF inv l] write_astep[OF inv l] by fastforce
    with 6 served_framed[OF h run t(2,3)] show ?thesis by (simp add: handle_def)
  next
    case 7
    then show ?thesis using alloc_served[OF h run reg 7(2-5)] by (auto simp: handle_def)
  next
    case 8
    show ?thesis
    proof (cases "list_all (\<lambda>q. p_state (k_processes s q) \<noteq> P_FREE) [1..NPROC - 1]")
      case True
      have "handle_fork s = Inr (Break (upd_regs ?p (\<lambda>g. g\<lparr>reg_rax := -1\<rparr>) s))"
        unfolding handle_fork_def using True by (intro fork_search_none) (auto simp: list_all_iff)
      then show ?thesis using served_framed[OF h run framed_upd(5) _ upd_regs_astep[OF h]] 8(1) by (simp add: handle_def)
    next
      case False
      then obtain c where "first_free s c" using first_free_exists by blast
      with fork_astep[OF h run] 8 False show ?thesis by (auto simp: handle_def)
    qed
  next
    case 9
    have acc: "accounted s" using h by (simp add: healthy_def)
    have "healthy syms (handle_exit s)" "k_current (handle_exit s) = ?p"
      unfolding handle_exit_eq[OF inv run]
      using leaving_kinv[OF inv acc run 9(2)] leaving_accounted[OF inv acc run 9(2)] by (simp_all add: healthy_def leaving_simps)
    then show ?thesis
      using 9(1) exit_astep[OF inv run] run a_exit by (simp add: handle_def served_Break running_def)
  qed
qed

section \<open>The machine\<close>

text \<open>
  Between exceptions the process \<open>current\<close> runs in user mode on its own page table. It can store to the addresses that
  the processor lets user code write; its registers are what it hands over at the next exception.
\<close>

definition ready :: "link_symbols \<Rightarrow> kernel_state \<Rightarrow> bool" where
  "ready syms s \<longleftrightarrow> healthy syms s \<and> running s \<and> k_cr3 s = ptab s (k_current s)"

inductive kstep :: "link_symbols \<Rightarrow> kernel_state \<Rightarrow> kernel_state \<Rightarrow> bool" for syms where
  user_store: "hw_translate (k_mem s) (k_cr3 s) va = Some (pa, PTE_W OR PTE_U) \<Longrightarrow> kstep syms s (s\<lparr>k_mem := (k_mem s)(pa := b)\<rparr>)"
| trap: "permitted s reg \<Longrightarrow> quiet key \<Longrightarrow> exception syms key keys cr2 pad1 pad2 reg s = Inr (Resumed s') \<Longrightarrow> kstep syms s s'"

lemma conclude_result:
  assumes "conclude syms keys h = Inr (Resumed t)"
  shows "\<exists>u q c. result_state h = Some u \<and> t = u\<lparr>k_current := q, k_cr3 := c\<rparr>"
proof (cases h)
  case (Break u)
  then show ?thesis using assms run_state schedule_state by (fastforce simp: conclude_def split: if_splits)
next
  case (Done out)
  then have "t = t\<lparr>k_current := k_current t, k_cr3 := k_cr3 t\<rparr> \<and> result_state h = Some t" using assms by (simp add: conclude_def)
  then show ?thesis by metis
qed

lemma exception_served:
  assumes ok: "syms_ok syms" and h: "healthy syms s" and run: "running s" and p: "permitted s reg" and q: "quiet key"
  shows "\<exists>out. exception syms key keys cr2 pad1 pad2 reg s = Inr out \<and> outcome_sat (healthy syms) out \<and>
    (\<forall>t. out = Resumed t \<longrightarrow> astep (k_current s) (abs_state s) (abs_state t))"
proof -
  have inv: "kinv syms s" using h by (simp add: healthy_def)
  obtain s' where s': "viewed (entered syms reg s) s'" "framed syms s s'"
    "exception syms key keys cr2 pad1 pad2 reg s = bindR (handle syms keys cr2 pad1 pad2 reg s') (conclude syms keys)"
    using exception_enters[OF ok inv q] by blast
  note h' = framed_healthy[OF h s'(2)] and run' = entered_running[OF s'(1) run] and e = entered_view[OF s'(1)]
  obtain hd where hd: "handle syms keys cr2 pad1 pad2 reg s' = Inr hd" "served syms s' hd"
    using handle_served[OF ok h' run' e(2) permitted_entered[OF inv s'(2,1) run p]] by blast
  obtain out where out: "conclude syms keys hd = Inr out" "outcome_sat (healthy syms) out"
    using strict.conclude_keeps[OF ok, of hd keys] hd(2) by (auto simp: served_def)
  have "astep (k_current s) (abs_state s) (abs_state t)" if t: "out = Resumed t" for t
  proof -
    obtain u a c where u: "result_state hd = Some u" "t = u\<lparr>k_current := a, k_cr3 := c\<rparr>"
      using conclude_result out(1) t by blast
    have "healthy syms u"
      using hd(2) u(1) by (cases hd rule: result_state.cases) (auto simp: served_def)
    then have "abs_state t = abs_state u" unfolding u(2) by (intro abs_state_framed[OF _ framed_upd(1), of syms]) (simp_all add: healthy_def)
    moreover have "astep (k_current s') (abs_state s') (abs_state u)" using hd(2) u(1) by (simp add: served_def)
    ultimately show ?thesis using abs_state_entered[OF inv s'(2,1)] e(1) by simp
  qed
  with out show ?thesis unfolding s'(3) hd(1) by simp
qed

lemma user_store_write:
  assumes "ready syms s" "hw_translate (k_mem s) (k_cr3 s) va = Some (pa, PTE_W OR PTE_U)"
  shows "user_write s (k_current s) ((k_mem s)(pa := b))"
proof -
  let ?e = "slot_of s (k_current s) (vpn va)"
  have inv: "kinv syms s" and l: "live s (k_current s)" using assms(1) running_live by (auto simp: ready_def healthy_def)
  have wf: "pt_wf (k_mem s) (ptab s (k_current s))" using kinvD(5)[OF inv l] by (simp add: kinv_table_def)
  have t: "?e AND 1 \<noteq> 0" "6 AND ?e = 6" "pa = PTE_ADDR ?e + PAGEOFFSET va"
    using assms hw_slots[OF wf, of va] by (auto simp: ready_def Let_def split: if_splits)
  have "PTE_ADDR pa = PTE_ADDR ?e" unfolding t(3) by (rule PTE_ADDR_plus[OF PTE_ADDR_aligned PAGEOFFSET_less])
  then show ?thesis
    unfolding user_write_def using t and_6_bits[of ?e]
    by (intro exI[of _ "vpn va"]) (auto simp: same_page_def and.commute)
qed

lemma kstep_lemma:
  assumes ok: "syms_ok syms" and r: "ready syms s" and st: "kstep syms s s'"
  shows "ready syms s' \<and> astep (k_current s) (abs_state s) (abs_state s')"
  using st
proof cases
  case (user_store va pa b)
  have inv: "kinv syms s" and l: "live s (k_current s)" using r running_live by (auto simp: ready_def healthy_def)
  note w = user_store_write[OF r user_store(2), of b]
  show ?thesis
    using user_store(1) r framed_healthy[OF _ user_write_framed[OF inv l w]] write_astep[OF inv l w] by (simp add: ready_def running_def)
next
  case (trap reg key keys cr2 pad1 pad2)
  then show ?thesis
    using exception_served[OF ok _ _ trap(1,2), of keys cr2 pad1 pad2] r by (auto simp: ready_def)
qed

lemma ksteps_ready: "(kstep syms)\<^sup>*\<^sup>* s s' \<Longrightarrow> syms_ok syms \<Longrightarrow> ready syms s \<Longrightarrow> ready syms s'"
  by (induction rule: rtranclp_induct) (auto dest: kstep_lemma)

section \<open>Properties of the machine\<close>

text \<open>C3: the invariant of the running system. Along every execution (user stores and permitted exceptions, in
  any order and by any processes) the kernel's data structures stay consistent: the state satisfies \<open>kinv\<close> and
  \<open>accounted\<close>, the current process is runnable, and the processor uses its page table.\<close>

theorem execution_invariant:
  assumes "syms_ok syms" "ready syms s" "(kstep syms)\<^sup>*\<^sup>* s s'"
  shows "healthy syms s' \<and> running s' \<and> k_cr3 s' = ptab s' (k_current s')"
  using ksteps_ready[OF assms(3,1,2)] by (simp add: ready_def)

text \<open>C4: no permitted exception stops the kernel, in any state that an execution reaches: no assertion fails, there is no panic
  and no fault in the kernel, and \<open>exception\<close> does not return; it resumes a runnable process on
  its own page table, or waits for one, with the invariant intact.\<close>

theorem execution_no_panic:
  assumes "syms_ok syms" "ready syms s" "(kstep syms)\<^sup>*\<^sup>* s s'" "permitted s' reg" "quiet key"
  shows "\<exists>out. exception syms key keys cr2 pad1 pad2 reg s' = Inr out \<and> outcome_sat (healthy syms) out"
  using exception_served[OF assms(1) _ _ assms(4,5), of keys cr2 pad1 pad2] ksteps_ready[OF assms(3,1,2)]
  by (auto simp: ready_def)

text \<open>C2: every step of the machine refines a step of the abstract system of separate address spaces, taken by the
  process that was running: it does nothing, writes its own bytes, gets a page, forks a copy of its
  address space, or leaves.\<close>

theorem kstep_refines:
  assumes "syms_ok syms" "ready syms s" "kstep syms s s'"
  shows "astep (k_current s) (abs_state s) (abs_state s')"
  using kstep_lemma[OF assms] by blast

text \<open>C1: isolation under permitted requests. While the other processes store to the memory that the processor lets them write and make permitted exceptions,
  in any order and in executions of any length, the address space of a process that does not run does not change: the same addresses are mapped, with the same
  permissions and the same contents. The restriction is needed: a request that is not permitted can write into another process.\<close>

theorem execution_isolation:
  assumes "syms_ok syms" "ready syms s" "live s q"
    and "(\<lambda>u u'. kstep syms u u' \<and> k_current u \<noteq> q)\<^sup>*\<^sup>* s s'"
  shows "live s' q \<and> address_space s' q = address_space s q"
proof -
  have "ready syms s' \<and> abs_state s' q = Some (address_space s q)" using assms(4)
  proof (induction rule: rtranclp_induct)
    case base
    then show ?case using assms(2,3) by (simp add: abs_state_def)
  next
    case (step u u')
    then show ?case using kstep_lemma[OF assms(1), of u u'] astep_other[of "k_current u" "abs_state u" "abs_state u'" q] by simp
  qed
  then show ?thesis by (auto simp: abs_state_def split: if_splits)
qed


section \<open>An execution\<close>

text \<open>Two processes after a fork; process 1 stores a byte into its page.\<close>

definition example_ready :: kernel_state where
  "example_ready = (example_forked True)\<lparr>k_cr3 := ptab (example_forked True) 1\<rparr>"

definition example_stored :: kernel_state where
  "example_stored = example_ready\<lparr>k_mem := (k_mem example_ready)(PAGEADDRESS example_page := 42)\<rparr>"

lemma example_ready_facts: "ready example_syms example_ready" "k_current example_ready = 1" "live example_ready 2"
proof -
  note f = example_forked_facts[of True]
  show "ready example_syms example_ready"
    unfolding ready_def example_ready_def using framed_healthy[OF f(1) framed_upd(2)] f(2,3) by (simp add: running_def)
  show "k_current example_ready = 1" "live example_ready 2" using f(3,4) by (simp_all add: example_ready_def live_def)
qed

lemma example_step: "kstep example_syms example_ready example_stored"
proof -
  note f = example_forked_facts[of True] and e = example_entry_facts[of True]
  have inv: "kinv example_syms (example_forked True)" using f(1) by (simp add: healthy_def)
  have "live (example_forked True) 1" using running_live[OF f(2)] f(3) by simp
  then have wf: "pt_wf (k_mem (example_forked True)) (ptab (example_forked True) 1)" using kinvD(5)[OF inv] by (simp add: kinv_table_def)
  have v: "vpn 0x100000 = 256" "PAGEOFFSET 0x100000 = 0" by (simp_all add: vpn_def PAGEOFFSET_def)
  have fl: "PTE_FLAGS (example_entry True) = 7"
    using PTE_FLAGS_plus[OF PAGEADDRESS_usable(1)[OF free_not_used(2,3)[OF example_page_free]], of 7] by (simp add: example_entry_def)
  have "6 AND example_entry True = 6 AND PTE_FLAGS (example_entry True)" unfolding PTE_FLAGS_def by (simp add: and.assoc and.left_commute and.commute)
  then have "6 AND example_entry True = 6" by (simp add: fl)
  then have "hw_translate (k_mem example_ready) (k_cr3 example_ready) 0x100000 = Some (PAGEADDRESS example_page, PTE_W OR PTE_U)"
    using hw_slots[OF wf, of "0x100000"] canonical_low[of "0x100000"] e(1,2) by (simp add: example_ready_def v f(5))
  then show ?thesis unfolding example_stored_def by (rule user_store)
qed

theorem execution_invariant_witness:
  "(kstep example_syms)\<^sup>*\<^sup>* example_ready example_stored \<and> healthy example_syms example_stored \<and> running example_stored"
  using execution_invariant[OF example_syms_ok example_ready_facts(1) r_into_rtranclp[of "kstep example_syms", OF example_step]]
    r_into_rtranclp[of "kstep example_syms", OF example_step] by blast

theorem execution_no_panic_witness:
  "\<exists>out. exception example_syms (-1) [] 0 0 0 (zero_registers\<lparr>reg_intno := 49\<rparr>) example_stored = Inr out \<and>
     outcome_sat (healthy example_syms) out"
  using execution_no_panic[OF example_syms_ok example_ready_facts(1) r_into_rtranclp[of "kstep example_syms", OF example_step],
      where reg = "zero_registers\<lparr>reg_intno := 49\<rparr>" and key = "-1"]
  by (simp add: permitted_def quiet_def of_char_def)

theorem kstep_refines_witness:
  "astep 1 (abs_state example_ready) (abs_state example_stored)"
  using kstep_refines[OF example_syms_ok example_ready_facts(1) example_step] example_ready_facts(2) by simp

theorem execution_isolation_witness:
  "live example_stored 2 \<and> address_space example_stored 2 = address_space example_ready 2 \<and> k_mem example_stored (PAGEADDRESS example_page) = 42"
proof -
  have "(\<lambda>u u'. kstep example_syms u u' \<and> k_current u \<noteq> 2)\<^sup>*\<^sup>* example_ready example_stored"
    using example_step example_ready_facts(2) by (intro r_into_rtranclp) simp
  from execution_isolation[OF example_syms_ok example_ready_facts(1,3) this] show ?thesis
    by (simp add: example_stored_def)
qed

section \<open>Scheduling\<close>

text \<open>Successive calls of \<open>schedule\<close>; \<open>None\<close> when one of them does not resume a process.\<close>

primrec turns :: "nat \<Rightarrow> link_symbols \<Rightarrow> int list \<Rightarrow> kernel_state \<Rightarrow> kernel_state option" where
  "turns 0 syms keys s = Some s"
| "turns (Suc n) syms keys s = (case schedule syms keys s of Inr (Resumed t) \<Rightarrow> turns n syms keys t | _ \<Rightarrow> None)"

lemma schedule_first:
  assumes ok: "syms_ok syms" and inv: "kinv syms s" and cur: "0 \<le> k_current s" "k_current s < NPROC"
    and q: "p_state (k_processes s ((k_current s + 1 + int d) mod NPROC)) = P_RUNNABLE" and keys: "list_all quiet keys" "d \<le> length keys"
  shows "\<exists>k \<le> d. schedule syms keys s = Inr (Resumed (s\<lparr>k_current := (k_current s + 1 + int k) mod NPROC,
    k_cr3 := ptab s ((k_current s + 1 + int k) mod NPROC)\<rparr>))"
proof -
  let ?P = "\<lambda>k. p_state (k_processes s ((k_current s + 1 + int k) mod NPROC)) = P_RUNNABLE"
  define k where "k = (LEAST k. ?P k)"
  have k: "?P k" "k \<le> d" "\<forall>j < k. \<not> ?P j" unfolding k_def using LeastI[of ?P d] Least_le[of ?P d] not_less_Least[of _ ?P] q by blast+
  let ?r = "(k_current s + 1 + int k) mod NPROC"
  have r: "0 \<le> ?r" "?r < NPROC" by simp_all
  have "1 \<le> ?r" by (rule runnable_range[OF inv r k(1)])
  then have "run syms ?r s = Inr (Resumed (s\<lparr>k_current := ?r, k_cr3 := ptab s ?r\<rparr>))"
    using run_ok[OF ok inv _ r(2) k(1)] by blast
  moreover have "p_pid (k_processes s (k_current s)) = k_current s" using kinvD(1)[OF inv] cur by (simp add: kinv_procs_def)
  moreover have "\<forall>c \<in> set keys. quiet c" using keys(1) by (simp add: list_all_iff)
  from schedule_loop_runs[OF ok inv this cur(1) _ k(1,3)] have "schedule_loop keys syms (k_current s) s = run syms ?r s"
    using k(2) keys(2) by simp
  ultimately show ?thesis unfolding schedule_def using k(2) by auto
qed

lemma turns_reach:
  assumes "syms_ok syms" "kinv syms s" "0 \<le> k_current s" "k_current s < NPROC"
    and "p_state (k_processes s ((k_current s + 1 + int d) mod NPROC)) = P_RUNNABLE" "list_all quiet keys" "d \<le> length keys"
  shows "\<exists>n t. n \<le> d \<and> turns (Suc n) syms keys s = Some t \<and> k_current t = (k_current s + 1 + int d) mod NPROC"
  using assms
proof (induction d arbitrary: s rule: less_induct)
  case (less d)
  obtain k where k: "k \<le> d" "schedule syms keys s = Inr (Resumed (s\<lparr>k_current := (k_current s + 1 + int k) mod NPROC,
      k_cr3 := ptab s ((k_current s + 1 + int k) mod NPROC)\<rparr>))"
    using schedule_first[OF less.prems] by blast
  let ?t = "s\<lparr>k_current := (k_current s + 1 + int k) mod NPROC, k_cr3 := ptab s ((k_current s + 1 + int k) mod NPROC)\<rparr>"
  show ?case
  proof (cases "k = d")
    case True
    then show ?thesis using k(2) by (intro exI[of _ 0] exI[of _ ?t]) simp
  next
    case False
    define j where "j = d - Suc k"
    have j: "d = Suc (k + j)" "j < d" using k(1) False by (simp_all add: j_def)
    have eq: "(k_current ?t + 1 + int j) mod NPROC = (k_current s + 1 + int d) mod NPROC"
    proof -
      have "(a mod NPROC + b) mod NPROC = (a + b) mod NPROC" for a b :: int by (rule mod_add_left_eq)
      from this[of "k_current s + 1 + int k" "1 + int j"] show ?thesis unfolding j(1) by (simp add: algebra_simps)
    qed
    have ij: "j \<le> length keys" using less.prems(7) j(2) by simp
    have pj: "p_state (k_processes ?t ((k_current ?t + 1 + int j) mod NPROC)) = P_RUNNABLE" unfolding eq using less.prems(5) by simp
    obtain n t where "n \<le> j" "turns (Suc n) syms keys ?t = Some t" "k_current t = (k_current s + 1 + int d) mod NPROC"
      using less.IH[OF j(2) less.prems(1) framed_kinv[OF less.prems(2) framed_upd(1)] _ _ pj less.prems(6) ij] unfolding eq by auto
    then show ?thesis using k(2) j(1) by (intro exI[of _ "Suc n"] exI[of _ t]) simp
  qed
qed

text \<open>C14: the scheduler is fair. From any state that satisfies the invariant, every runnable process is
  resumed after at most 16 calls of \<open>schedule\<close>, whichever the other runnable processes are.\<close>

theorem round_robin:
  assumes "syms_ok syms" "kinv syms s" "running s" "1 \<le> q" "q < NPROC" "p_state (k_processes s q) = P_RUNNABLE"
    and "list_all quiet keys" "15 \<le> length keys"
  shows "\<exists>n t. 1 \<le> n \<and> n \<le> 16 \<and> turns n syms keys s = Some t \<and> k_current t = q"
proof -
  have c: "0 \<le> k_current s" "k_current s < NPROC" using assms(3) by (simp_all add: running_def)
  define d where "d = nat ((q - k_current s - 1) mod NPROC)"
  have d: "d \<le> 15" "int d = (q - k_current s - 1) mod NPROC" by (simp_all add: d_def nat_le_iff)
  have q: "(k_current s + 1 + int d) mod NPROC = q" unfolding d(2) using assms(4,5) by (simp add: mod_simps)
  obtain n t where "n \<le> d" "turns (Suc n) syms keys s = Some t" "k_current t = q"
    using turns_reach[OF assms(1,2) c, of d keys] assms(6-8) d(1) unfolding q by auto
  then show ?thesis using d(1) by (intro exI[of _ "Suc n"] exI[of _ t]) simp
qed

theorem round_robin_witness:
  "\<exists>n t. 1 \<le> n \<and> n \<le> 16 \<and> turns n example_syms (replicate 15 (-1)) (example_forked True) = Some t \<and> k_current t = 2"
proof -
  note f = example_forked_facts[of True]
  have "p_state (k_processes (example_forked True) 2) = P_RUNNABLE" by (fact f(8))
  then show ?thesis
    using round_robin[OF example_syms_ok _ f(2), of 2 "replicate 15 (-1)"] f(1) by (simp add: healthy_def list_all_iff quiet_def of_char_def)
qed

end
