(* ===== verification/Kernel_Load.thy ===== *)
theory Kernel_Load
  imports Kernel_Machine
begin

text \<open>
  Loading programs. The allocation, copy and protection loops of \<open>program_load_segment\<close> on a process
  under the kernel's invariant; a loaded program is in memory byte for byte, and \<open>process_setup\<close> and
  \<open>kernel\<close> end in a state from which the machine runs.
\<close>

unbundle bit_operations_syntax

section \<open>A process that is not runnable yet\<close>

text \<open>
  \<open>process_setup\<close> marks the process runnable at its end only. None of the routines it calls looks at \<open>p_state\<close>,
  so what they do can be read off a state in which the process is live already.
\<close>

definition revive :: "int \<Rightarrow> kernel_state \<Rightarrow> kernel_state" where
  "revive pid = upd_proc pid (\<lambda>p. p\<lparr>p_state := P_RUNNABLE\<rparr>)"

definition map_state :: "(kernel_state \<Rightarrow> kernel_state) \<Rightarrow> kfault + ('a \<times> kernel_state) \<Rightarrow> kfault + ('a \<times> kernel_state)" where
  "map_state g r = bindR r (\<lambda>(a, s). Inr (a, g s))"

lemma map_state_simps [simp]: "map_state g (Inr (a, s)) = Inr (a, g s)" "map_state g (Inl e) = Inl e"
  by (simp_all add: map_state_def)

lemma revive_simps [simp]:
  "k_mem (revive pid s) = k_mem s" "k_pageinfo (revive pid s) = k_pageinfo s" "ptab (revive pid s) q = ptab s q"
  "p_pid (k_processes (revive pid s) q) = p_pid (k_processes s q)" "k_current (revive pid s) = k_current s"
  "p_registers (k_processes (revive pid s) q) = p_registers (k_processes s q)" "free_pages (revive pid s) = free_pages s"
  by (simp_all add: revive_def free_pages_def)

lemma revive_upd:
  "set_pageinfo pn i (revive pid s) = revive pid (set_pageinfo pn i s)"
  "(revive pid s)\<lparr>k_mem := m\<rparr> = revive pid (s\<lparr>k_mem := m\<rparr>)"
  "(revive pid s)\<lparr>k_cr3 := c\<rparr> = revive pid (s\<lparr>k_cr3 := c\<rparr>)"
  "upd_regs pid f (revive pid s) = revive pid (upd_regs pid f s)"
proof -
  have "k_processes (upd_regs pid f (revive pid s)) = k_processes (revive pid (upd_regs pid f s))"
    by (auto simp: fun_eq_iff revive_def upd_regs_def intro: proc.equality)
  then show "upd_regs pid f (revive pid s) = revive pid (upd_regs pid f s)"
    by (intro kernel_state.equality) (simp_all add: revive_def upd_proc_def upd_regs_def)
qed (simp_all add: revive_def upd_proc_def set_pageinfo_def)

lemma alloc_revive: "alloc_page_process own (revive pid s) = map_prod id (revive pid) (alloc_page_process own s)"
  by (simp add: alloc_page_process_eq Let_def revive_upd)

lemma load_alloc_revive: "load_alloc pid end_mem addr (revive pid s) = map_state (revive pid) (load_alloc pid end_mem addr s)"
proof (induction pid end_mem addr s rule: load_alloc.induct)
  case (1 pid end_mem addr s)
  obtain a s1 where a: "alloc_page_process (p_pid (k_processes s pid)) s = (a, s1)" by fastforce
  show ?case
    unfolding load_alloc.simps[of pid end_mem addr "revive pid s"] load_alloc.simps[of pid end_mem addr s]
    using 1[OF _ refl a[symmetric] refl]
    by (auto simp: a alloc_revive revive_upd Let_def bindR_def split: sum.splits prod.splits)
qed

lemma program_load_segment_revive:
  "program_load_segment syms pid ph src (revive pid s) = map_state (revive pid) (program_load_segment syms pid ph src s)"
  unfolding program_load_segment_def Let_def load_alloc_revive
  by (cases "load_alloc pid (p_va ph + p_memsz ph) (p_va ph AND NOT (PAGESIZE - 1)) s")
     (auto simp: bindR_def revive_upd split: sum.splits prod.splits)

lemma load_segments_revive:
  "load_segments n syms pid eh ph (revive pid s) = map_state (revive pid) (load_segments n syms pid eh ph s)"
proof (induction n arbitrary: ph s)
  case (Suc n)
  show ?case
    by (cases "program_load_segment syms pid (read_elf_program (k_mem s) ph) (eh + p_offset (read_elf_program (k_mem s) ph)) s")
       (auto simp: Let_def program_load_segment_revive Suc.IH)
qed simp

lemma program_load_revive:
  "program_load syms images pid prog (revive pid s) = map_state (revive pid) (program_load syms images pid prog s)"
  unfolding program_load_def Let_def load_segments_revive
  by (cases "load_segments (unat (e_phnum (read_elf_header (k_mem s) (images prog)))) syms pid (images prog)
        (images prog + e_phoff (read_elf_header (k_mem s) (images prog))) s")
     (auto simp: assertR_def revive_upd)

lemma page_alloc_revive:
  "sys_page_alloc_find_free pt own addr (revive pid s) = map_state (revive pid) (sys_page_alloc_find_free pt own addr s)"
  by (auto simp: sys_page_alloc_eq Let_def map_state_def revive_upd bindR_def split: sum.splits prod.splits)

section \<open>Allocating the pages of a segment\<close>

text \<open>
  \<open>extends syms pid A s s'\<close>: in \<open>s'\<close> the page table of the process may differ at the page numbers in \<open>A\<close> only, at
  most one page for each was taken, and every page that was in use, but for the page tables of the
  process, holds what it held. \<open>grown\<close>: moreover there are writable pages at \<open>A\<close>.
\<close>

definition extends :: "link_symbols \<Rightarrow> int \<Rightarrow> nat set \<Rightarrow> kernel_state \<Rightarrow> kernel_state \<Rightarrow> bool" where
  "extends syms pid A s s' \<longleftrightarrow>
     healthy syms s' \<and> k_processes s' = k_processes s \<and> k_current s' = k_current s \<and>
     (\<forall>v. v \<notin> A \<longrightarrow> slot_of s' pid v = slot_of s pid v) \<and>
     (\<forall>q. live s q \<longrightarrow> q \<noteq> pid \<longrightarrow> slot_of s' q = slot_of s q) \<and>
     pt_pages (k_mem s') (ptab s pid) = pt_pages (k_mem s) (ptab s pid) \<and>
     card (free_pages s) \<le> card (free_pages s') + card A \<and> keeps_pages s s' \<and>
     (\<forall>Q. in_use s Q \<longrightarrow> Q \<notin> set (pt_pages (k_mem s) (ptab s pid)) \<longrightarrow> same_page (k_mem s) (k_mem s') Q)"

definition grown :: "link_symbols \<Rightarrow> int \<Rightarrow> nat set \<Rightarrow> kernel_state \<Rightarrow> kernel_state \<Rightarrow> bool" where
  "grown syms pid A s s' \<longleftrightarrow> extends syms pid A s s' \<and> (\<forall>v \<in> A. PTE_FLAGS (slot_of s' pid v) = 7)"

lemma extendsD:
  assumes "extends syms pid A s s'"
  shows "healthy syms s'" "k_processes s' = k_processes s" "k_current s' = k_current s"
    "v \<notin> A \<Longrightarrow> slot_of s' pid v = slot_of s pid v" "live s q \<Longrightarrow> q \<noteq> pid \<Longrightarrow> slot_of s' q = slot_of s q"
    "pt_pages (k_mem s') (ptab s pid) = pt_pages (k_mem s) (ptab s pid)"
    "card (free_pages s) \<le> card (free_pages s') + card A" "keeps_pages s s'"
    "in_use s Q \<Longrightarrow> Q \<notin> set (pt_pages (k_mem s) (ptab s pid)) \<Longrightarrow> same_page (k_mem s) (k_mem s') Q"
    "live s' q = live s q"
proof -
  show "live s' q = live s q" using assms by (simp add: extends_def live_def)
qed (use assms in \<open>unfold extends_def, blast+\<close>)

lemma extends_refl: "healthy syms s \<Longrightarrow> extends syms pid {} s s"
  by (simp add: extends_def keeps_pages_def same_page_def)

lemma extends_trans:
  assumes a: "extends syms pid A s t" and b: "extends syms pid B t u" and d: "A \<inter> B = {}" "finite A" "finite B"
  shows "extends syms pid (A \<union> B) s u"
proof -
  note a = extendsD[OF a] and b = extendsD[OF b]
  have pt: "ptab t pid = ptab s pid" by (simp add: a(2))
  have "slot_of u q = slot_of s q" if "live s q" "q \<noteq> pid" for q
    using a(5)[OF that] b(5)[of q] a(10) that by simp
  moreover have "card (free_pages s) \<le> card (free_pages u) + card (A \<union> B)"
    using a(7) b(7) d by (simp add: card_Un_disjoint)
  moreover have "same_page (k_mem s) (k_mem u) Q" if "in_use s Q" "Q \<notin> set (pt_pages (k_mem s) (ptab s pid))" for Q
    using a(9)[OF that] b(9)[OF keeps_pagesD(1)[OF a(8) that(1)]] that(2) a(6) pt by (simp add: same_page_trans)
  moreover have "k_processes u = k_processes s" "k_current u = k_current s" "pt_pages (k_mem u) (ptab s pid) = pt_pages (k_mem s) (ptab s pid)"
    using a(2,3,6) b(2,3,6) by simp_all
  moreover have "slot_of u pid v = slot_of s pid v" if "v \<notin> A \<union> B" for v using a(4)[of v] b(4)[of v] that by simp
  ultimately show ?thesis unfolding extends_def using b(1) keeps_pages_trans[OF a(8) b(8)] by blast
qed

lemma grown_refl: "healthy syms s \<Longrightarrow> grown syms pid {} s s"
  by (simp add: grown_def extends_refl)

lemma grown_trans:
  assumes "grown syms pid A s t" "grown syms pid B t u" "A \<inter> B = {}" "finite A" "finite B"
  shows "grown syms pid (A \<union> B) s u"
proof -
  have "PTE_FLAGS (slot_of u pid v) = 7" if "v \<in> A \<union> B" for v
  proof (cases "v \<in> B")
    case False
    then have "v \<in> A" "slot_of u pid v = slot_of t pid v" using that assms(2) extendsD(4)[of syms pid B t u v] by (auto simp: grown_def)
    then show ?thesis using assms(1) by (simp add: grown_def)
  qed (use assms(2) in \<open>simp add: grown_def\<close>)
  then show ?thesis using assms extends_trans unfolding grown_def by blast
qed

lemma grown_page:
  assumes h: "healthy syms s" and l: "live s pid" and v: "256 \<le> v" "v < 768" and free: "free_pages s \<noteq> {}"
    and absent: "slot_of s pid v AND PTE_P = 0"
  shows "grown syms pid {v} s (with_page pid v (Min (free_pages s)) (PAGEADDRESS (Min (free_pages s)) + 7) s)"
proof -
  let ?pn = "Min (free_pages s)"
  let ?e = "PAGEADDRESS ?pn + 7 :: 64 word"
  let ?s = "with_page pid v ?pn ?e s"
  have inv: "kinv syms s" and acc: "accounted s" using h by (simp_all add: healthy_def)
  have v': "v < 1024" using v by simp
  note pf = Min_free_pages[OF free] and e = page_alloc_entry[OF Min_free_pages(1)[OF free]]
  have wf: "pt_wf (k_mem s) (ptab s pid)" using kinvD(5)[OF inv l] by (simp add: kinv_table_def)
  have sl: "slot_of ?s q = (if q = pid then (slot_of s pid)(v := ?e) else slot_of s q)" if "live s q" for q
    using with_page_tables(3)[OF inv l v' that, where e = ?e] by (auto simp: with_page_simps)
  have fl: "PTE_FLAGS ?e = 7" using PTE_FLAGS_plus[OF PAGEADDRESS_usable(1)[OF pf(2,3)], of 7] by simp
  have "healthy syms ?s"
    using kinv_with_page[OF inv l v(1) v' pf(1) e] accounted_with_page[OF inv acc l v pf(1) e absent] by (simp add: healthy_def)
  moreover have "free_pages ?s = free_pages s - {?pn}" using pf by (auto simp: free_pages_def with_page_simps fresh_page_def)
  then have "card (free_pages s) \<le> card (free_pages ?s) + card {v}" using pf(1) free_pages_finite[of s] by (simp add: card_Diff_singleton_if)
  moreover have "keeps_pages s ?s" using free_not_used(1)[OF pf(1)] by (auto simp: keeps_pages_def in_use_def with_page_simps fresh_page_def)
  ultimately show ?thesis
    unfolding grown_def extends_def
    using sl[OF l] sl fl put_slot_self(2)[OF wf v'] put_slot_same_table[OF wf v'] by (simp add: with_page_simps)
qed

definition page_end :: "64 word \<Rightarrow> nat" where
  "page_end a = (unat a + 4095) div 4096"

lemma page_less_end: "v < 1024 \<Longrightarrow> (of_nat v * PAGESIZE :: 64 word) < a \<longleftrightarrow> v < page_end a"
  unfolding word_less_nat_alt user_page_addr(3) page_end_def by auto

lemma load_alloc_ok:
  assumes "healthy syms s" "live s pid" "256 \<le> v" "v \<le> page_end end_mem" "page_end end_mem \<le> 768"
    and "\<And>w. v \<le> w \<Longrightarrow> w < page_end end_mem \<Longrightarrow> slot_of s pid w AND PTE_P = 0"
    and "page_end end_mem - v \<le> card (free_pages s)"
  shows "\<exists>s'. load_alloc pid end_mem (of_nat v * PAGESIZE) s = Inr (True, s') \<and> grown syms pid {v..<page_end end_mem} s s'"
  using assms
proof (induction "page_end end_mem - v" arbitrary: v s)
  case 0
  then have e: "v = page_end end_mem" by simp
  then have "\<not> of_nat v * PAGESIZE < end_mem" using page_less_end[of v end_mem] "0.prems" by simp
  then show ?case using grown_refl[OF "0.prems"(1)] by (subst load_alloc.simps) (simp add: e)
next
  case (Suc n)
  let ?pn = "Min (free_pages s)" and ?E = "page_end end_mem"
  have v: "v < ?E" "v < 768" "v < 1024" using Suc.hyps(2) Suc.prems by auto
  have free: "free_pages s \<noteq> {}" using Suc.hyps(2) Suc.prems(7) by auto
  have inv: "kinv syms s" using Suc.prems(1) by (simp add: healthy_def)
  note pf = Min_free_pages[OF free]
  note u = PAGEADDRESS_usable[OF pf(2,3)] and va = user_page_addr[OF v(3)]
  let ?t = "with_page pid v ?pn (PAGEADDRESS ?pn + 7) s"
  have g: "grown syms pid {v} s ?t" by (rule grown_page[OF Suc.prems(1-3) v(2) free]) (use Suc.prems(6)[of v] v in simp)
  have pid: "p_pid (k_processes s pid) = pid" using kinvD(1)[OF inv] Suc.prems(2) by (simp add: kinv_procs_def live_def)
  have al: "alloc_page_process pid s = (PAGEADDRESS ?pn, set_pageinfo ?pn (fresh_page pid) s)"
    using free pf(2,3) by (simp add: alloc_page_process_eq scan_free_Min Let_def)
  have wf: "pt_wf (k_mem s) (ptab s pid)" using kinvD(5)[OF inv Suc.prems(2)] by (simp add: kinv_table_def)
  have low: "unat (of_nat v * PAGESIZE :: 64 word) < 0x400000" using va(3) v(3) by simp
  have "virtual_memory_map (k_mem s) (ptab s pid) (of_nat v * PAGESIZE) (PAGEADDRESS ?pn) PAGESIZE 7 =
      Inr (0, put_slot (k_mem s) (ptab s pid) v (PAGEADDRESS ?pn + 7))"
    using map_one_page[OF wf va(2) low, of 7 "PAGEADDRESS ?pn"] u by (simp add: va(1))
  moreover have "(set_pageinfo ?pn (fresh_page pid) s)\<lparr>k_mem := put_slot (k_mem s) (ptab s pid) v (PAGEADDRESS ?pn + 7)\<rparr> = ?t"
    by (simp add: with_page_def set_pageinfo_def)
  ultimately have "load_alloc pid end_mem (of_nat v * PAGESIZE) s = load_alloc pid end_mem (of_nat v * PAGESIZE + PAGESIZE) ?t"
    using page_less_end[OF v(3), of end_mem] v(1) al u(3) by (subst load_alloc.simps) (simp add: pid Let_def)
  also have "of_nat v * PAGESIZE + PAGESIZE = (of_nat (Suc v) * PAGESIZE :: 64 word)" by (simp add: algebra_simps)
  finally have step: "load_alloc pid end_mem (of_nat v * PAGESIZE) s = load_alloc pid end_mem (of_nat (Suc v) * PAGESIZE) ?t" .
  note gd = extendsD[OF conjunct1[OF g[unfolded grown_def]]]
  have "\<exists>s'. load_alloc pid end_mem (of_nat (Suc v) * PAGESIZE) ?t = Inr (True, s') \<and> grown syms pid {Suc v..<?E} ?t s'"
  proof (rule Suc.hyps(1))
    show "slot_of ?t pid w AND PTE_P = 0" if "Suc v \<le> w" "w < ?E" for w using gd(4)[of w] Suc.prems(6)[of w] that by simp
    show "?E - Suc v \<le> card (free_pages ?t)" using gd(7) Suc.prems(7) Suc.hyps(2) by simp
  qed (use Suc.hyps(2) Suc.prems(2-5) gd(1,10) v(1) in simp_all)
  then obtain s' where s': "load_alloc pid end_mem (of_nat (Suc v) * PAGESIZE) ?t = Inr (True, s')" "grown syms pid {Suc v..<?E} ?t s'" by blast
  have "grown syms pid ({v} \<union> {Suc v..<?E}) s s'" by (rule grown_trans[OF g s'(2)]) auto
  moreover have "{v} \<union> {Suc v..<?E} = {v..<?E}" using v(1) by auto
  ultimately show ?case using step s'(1) by simp
qed

section \<open>Copying through the page table of the process\<close>

text \<open>Where a user address lies in physical memory, and the ranges that the loader writes and reads.\<close>

definition upa :: "kernel_state \<Rightarrow> int \<Rightarrow> 64 word \<Rightarrow> 64 word" where
  "upa s pid a = PTE_ADDR (slot_of s pid (vpn a)) + PAGEOFFSET a"

definition wrange :: "kernel_state \<Rightarrow> int \<Rightarrow> 64 word \<Rightarrow> nat \<Rightarrow> bool" where
  "wrange s pid a n \<longleftrightarrow>
     0x100000 \<le> unat a \<and> unat a + n \<le> 0x400000 \<and> (\<forall>i < n. PTE_FLAGS (slot_of s pid (vpn (a + of_nat i))) = 7)"

definition image :: "kernel_state \<Rightarrow> 64 word \<Rightarrow> nat \<Rightarrow> bool" where
  "image s src n \<longleftrightarrow>
     unat src + n \<le> 0x100000 \<and>
     (\<forall>i < n. let info = k_pageinfo s (PAGENUMBER (PTE_ADDR (src + of_nat i))) in
       pi_refcount info \<noteq> 0 \<and> \<not> 1 \<le> sint (pi_owner info))"

lemma flags_7:
  assumes "PTE_FLAGS e = 7"
  shows "e AND PTE_P \<noteq> 0" "e AND PTE_W \<noteq> 0" "e AND PTE_U \<noteq> 0"
  using PTE_FLAGS_flag[of 1 e] PTE_FLAGS_flag[of 2 e] PTE_FLAGS_flag[of 4 e] assms by simp_all

lemma wrange_at:
  assumes "kinv syms s" "live s pid" "wrange s pid a n" "i < n"
  defines "x \<equiv> a + of_nat i"
  shows "unat x = unat a + i" "256 \<le> vpn x" "vpn x < 1024" "PTE_FLAGS (slot_of s pid (vpn x)) = 7"
    "user_slot s pid (vpn x) (PAGENUMBER (PTE_ADDR (slot_of s pid (vpn x))))"
    "PTE_ADDR (upa s pid x) = PTE_ADDR (slot_of s pid (vpn x))"
proof -
  show u: "unat x = unat a + i" unfolding x_def using assms(3,4) by (intro unat_range) (simp_all add: wrange_def)
  then have "0x100000 \<le> unat x" "unat x < 0x400000" using assms(3,4) by (simp_all add: wrange_def)
  then show v: "256 \<le> vpn x" "vpn x < 1024" by (simp_all add: vpn_low less_eq_div_iff_mult_less_eq div_less_iff_less_mult)
  show f: "PTE_FLAGS (slot_of s pid (vpn x)) = 7" using assms(3,4) by (simp add: wrange_def x_def)
  show "user_slot s pid (vpn x) (PAGENUMBER (PTE_ADDR (slot_of s pid (vpn x))))" by (rule user_slot_self[OF v flags_7(1)[OF f]])
  show "PTE_ADDR (upa s pid x) = PTE_ADDR (slot_of s pid (vpn x))"
    unfolding upa_def by (rule PTE_ADDR_plus[OF PTE_ADDR_aligned PAGEOFFSET_less])
qed

lemma upa_inj:
  assumes "kinv syms s" "live s pid" "wrange s pid a n" "i < n" "j < n" "upa s pid (a + of_nat i) = upa s pid (a + of_nat j)"
  shows "i = j"
proof -
  let ?x = "a + of_nat i :: 64 word" and ?y = "a + of_nat j :: 64 word"
  note x = wrange_at[OF assms(1-3,4)] and y = wrange_at[OF assms(1-3,5)]
  have "PTE_ADDR (slot_of s pid (vpn ?x)) = PTE_ADDR (slot_of s pid (vpn ?y))" using x(6) y(6) assms(6) by simp
  then have v: "vpn ?x = vpn ?y" using user_slot_page[OF assms(1,2,2) x(5) y(5)] by simp
  then have "PAGEOFFSET ?x = PAGEOFFSET ?y" using assms(6) by (simp add: upa_def)
  then have "unat ?x mod 4096 = unat ?y mod 4096" by (simp add: word_unat_eq_iff PAGEOFFSET_nat)
  moreover have "unat ?x div 4096 = unat ?y div 4096"
    using v x(1) y(1) assms(3-5) by (simp add: vpn_low wrange_def)
  ultimately have "unat ?x = unat ?y" by (metis div_mult_mod_eq)
  then show ?thesis using x(1) y(1) by simp
qed

lemma and_numerals_6_2: "(6 :: 64 word) AND 2 = 2"
  by simp

lemma vstore_user:
  assumes "kinv syms s" "live s pid" "wrange s pid a n" "i < n"
  defines "x \<equiv> a + of_nat i"
  shows "vstore (k_mem s) (ptab s pid) x b = Inr ((k_mem s)(upa s pid x := b))"
    "framed syms s (s\<lparr>k_mem := (k_mem s)(upa s pid x := b)\<rparr>)"
proof -
  note w = wrange_at[OF assms(1-4), folded x_def]
  note f = flags_7[OF w(4)]
  have wf: "pt_wf (k_mem s) (ptab s pid)" using kinvD(5)[OF assms(1,2)] by (simp add: kinv_table_def)
  have "(6 AND e) AND 2 = e AND 2" for e :: "64 word" by (metis and.assoc and.commute and_numerals_6_2)
  moreover have c: "canonical x" using w(1) assms(3,4) by (intro canonical_low) (simp add: wrange_def)
  ultimately show "vstore (k_mem s) (ptab s pid) x b = Inr ((k_mem s)(upa s pid x := b))"
    using f(1,2) c by (simp add: vstore_def hw_slots[OF wf] Let_def upa_def)
  have "user_write s pid ((k_mem s)(upa s pid x := b))"
    unfolding user_write_def using f w(6) by (intro exI[of _ "vpn x"]) (auto simp: same_page_def)
  then show "framed syms s (s\<lparr>k_mem := (k_mem s)(upa s pid x := b)\<rparr>)" by (rule user_write_framed[OF assms(1,2)])
qed

lemma vload_low:
  assumes "kinv syms s" "live s pid" "unat a < 0x100000"
  shows "vload (k_mem s) (ptab s pid) a = Inr (k_mem s a)"
proof -
  have wf: "pt_wf (k_mem s) (ptab s pid)" and id: "low_identity (k_mem s) (ptab s pid) 256"
    using kinvD(5)[OF assms(1,2)] by (simp_all add: kinv_table_def)
  have u: "unat a < 2 ^ 48" "vpn a < 256" using assms(3) by (simp_all add: vpn_low div_less_iff_less_mult)
  have e: "slot_of s pid (vpn a) AND 3 = 3" "PTE_ADDR (slot_of s pid (vpn a)) = of_nat (vpn a) * PAGESIZE"
    using id u(2) by (simp_all add: low_identity_def)
  show ?thesis using and_3_bits[OF e(1)] vpn_of_page[OF u(1)] canonical_low[of a] assms(3) by (simp add: vload_def hw_slots[OF wf] Let_def e(2))
qed

text \<open>The result of storing \<open>f 0\<close>, \<open>f 1\<close>, \<dots> at the addresses from \<open>a\<close> on.\<close>

definition filled :: "kernel_state \<Rightarrow> int \<Rightarrow> 64 word \<Rightarrow> nat \<Rightarrow> (nat \<Rightarrow> 8 word) \<Rightarrow> memory \<Rightarrow> bool" where
  "filled s pid a n f m \<longleftrightarrow>
     (\<forall>i < n. m (upa s pid (a + of_nat i)) = f i) \<and>
     (\<forall>x. (\<forall>i < n. x \<noteq> upa s pid (a + of_nat i)) \<longrightarrow> m x = k_mem s x)"

lemma framed_ranges:
  assumes "kinv syms s" "framed syms s s'" "live s pid"
  shows "upa s' pid = upa s pid" "wrange s' pid = wrange s pid" "image s' = image s"
  using framed_views(2)[OF assms] assms(2) by (auto simp: upa_def wrange_def image_def fun_eq_iff framed_def)

lemma wrange_Suc: "wrange s pid a (Suc n) \<Longrightarrow> wrange s pid (a + 1) n"
proof -
  assume w: "wrange s pid a (Suc n)"
  then have u: "unat (a + 1) = unat a + 1" using unat_range[of a "Suc (Suc n)" 1] by (simp add: wrange_def unat_word_ariths)
  have "PTE_FLAGS (slot_of s pid (vpn (a + 1 + of_nat i))) = 7" if "i < n" for i
  proof -
    have "Suc i < Suc n" using that by simp
    with w have "PTE_FLAGS (slot_of s pid (vpn (a + of_nat (Suc i)))) = 7" unfolding wrange_def by blast
    then show ?thesis by (simp add: add.assoc)
  qed
  then show ?thesis using w u by (simp add: wrange_def)
qed

lemma filled_Suc:
  assumes inv: "kinv syms s" and l: "live s pid" and w: "wrange s pid a (Suc n)"
    and f: "filled (s\<lparr>k_mem := (k_mem s)(upa s pid a := f 0)\<rparr>) pid (a + 1) n (\<lambda>i. f (Suc i)) m"
  shows "filled s pid a (Suc n) f m"
proof -
  let ?s = "s\<lparr>k_mem := (k_mem s)(upa s pid a := f 0)\<rparr>"
  have "framed syms s ?s" using vstore_user(2)[OF inv l w, of 0 "f 0"] by simp
  note up = framed_ranges(1)[OF inv this l]
  have a: "a + 1 + of_nat i = a + of_nat (Suc i)" for i by (simp add: add.assoc)
  have ne: "upa s pid a \<noteq> upa s pid (a + of_nat (Suc i))" if "i < n" for i
    using upa_inj[OF inv l w, of 0 "Suc i"] that by auto
  have "m (upa s pid a) = f 0" using f ne unfolding filled_def up a by fastforce
  moreover have "m (upa s pid (a + of_nat (Suc i))) = f (Suc i)" if "i < n" for i using f that unfolding filled_def up a by blast
  moreover have "m x = k_mem s x" if x: "\<forall>i < Suc n. x \<noteq> upa s pid (a + of_nat i)" for x
  proof -
    have "x \<noteq> upa s pid a" using x[rule_format, of 0] by simp
    moreover have "\<forall>i < n. x \<noteq> upa s pid (a + of_nat (Suc i))" using x Suc_mono by blast
    ultimately show ?thesis using f unfolding filled_def up a by simp
  qed
  ultimately show ?thesis unfolding filled_def by (simp add: All_less_Suc2 del: of_nat_Suc)
qed

lemma image_not_user:
  assumes "kinv syms s" "live s pid" "wrange s pid a n" "i < n" "image s src k" "j < k"
  shows "src + of_nat j \<noteq> upa s pid (a + of_nat i)"
proof
  assume "src + of_nat j = upa s pid (a + of_nat i)"
  then have "PTE_ADDR (src + of_nat j) = PTE_ADDR (slot_of s pid (vpn (a + of_nat i)))" using wrange_at(6)[OF assms(1-4)] by simp
  moreover have "\<not> 1 \<le> sint (pi_owner (k_pageinfo s (PAGENUMBER (PTE_ADDR (src + of_nat j)))))"
    using assms(5,6) by (simp add: image_def Let_def)
  ultimately show False using user_page_info(3)[OF assms(1,2) wrange_at(5)[OF assms(1-4)]] by simp
qed

lemma image_Suc: "image s src (Suc n) \<Longrightarrow> image s (src + 1) n"
proof -
  assume w: "image s src (Suc n)"
  then have u: "unat (src + 1) = unat src + 1" by (simp add: image_def unat_word_ariths)
  have a: "src + 1 + of_nat i = src + of_nat (Suc i)" for i by (simp add: add.assoc)
  show ?thesis using w u unfolding image_def a by (simp add: All_less_Suc2 del: of_nat_Suc)
qed

lemma vmemcpy_ok:
  assumes "kinv syms s" "live s pid" "wrange s pid a n" "image s src n"
  shows "\<exists>m. vmemcpy n (ptab s pid) a src (k_mem s) = Inr m \<and> filled s pid a n (\<lambda>i. k_mem s (src + of_nat i)) m \<and>
    framed syms s (s\<lparr>k_mem := m\<rparr>)"
  using assms
proof (induction n arbitrary: s a src)
  case 0
  then show ?case by (simp add: filled_def framed_refl)
next
  case (Suc n)
  let ?b = "k_mem s src" and ?s = "s\<lparr>k_mem := (k_mem s)(upa s pid a := k_mem s src)\<rparr>"
  have z: "(0 :: nat) < Suc n" by simp
  note st = vstore_user[OF Suc.prems(1-3) z, of ?b, simplified]
  note inv' = framed_kinv[OF Suc.prems(1) st(2)] and r = framed_ranges[OF Suc.prems(1) st(2) Suc.prems(2)]
  have l': "live ?s pid" using Suc.prems(2) by (simp add: live_def)
  have w': "wrange ?s pid (a + 1) n" "image ?s (src + 1) n"
    unfolding r using wrange_Suc[OF Suc.prems(3)] image_Suc[OF Suc.prems(4)] by simp_all
  obtain m where m: "vmemcpy n (ptab ?s pid) (a + 1) (src + 1) (k_mem ?s) = Inr m"
    "filled ?s pid (a + 1) n (\<lambda>i. k_mem ?s (src + 1 + of_nat i)) m" "framed syms ?s (?s\<lparr>k_mem := m\<rparr>)"
    using Suc.IH[OF inv' l' w'] by blast
  have "k_mem ?s (src + 1 + of_nat i) = k_mem s (src + of_nat (Suc i))" if "i < n" for i
    using image_not_user[OF Suc.prems(1-3) z Suc.prems(4), of "Suc i"] that by (simp add: add.assoc)
  then have "filled ?s pid (a + 1) n (\<lambda>i. k_mem s (src + of_nat (Suc i))) m" using m(2) by (simp add: filled_def)
  then have "filled s pid a (Suc n) (\<lambda>i. k_mem s (src + of_nat i)) m"
    by (intro filled_Suc[OF Suc.prems(1-3)]) simp
  moreover have "unat src < 0x100000" using Suc.prems(4) by (simp add: image_def)
  then have "vmemcpy (Suc n) (ptab s pid) a src (k_mem s) = Inr m"
    using vload_low[OF Suc.prems(1,2)] st(1) m(1) by simp
  moreover have "framed syms s (s\<lparr>k_mem := m\<rparr>)" using framed_trans[OF Suc.prems(1) st(2) m(3)] by simp
  ultimately show ?case by blast
qed

lemma vmemset_ok:
  assumes "kinv syms s" "live s pid" "wrange s pid a n"
  shows "\<exists>m. vmemset n (ptab s pid) a b (k_mem s) = Inr m \<and> filled s pid a n (\<lambda>i. b) m \<and> framed syms s (s\<lparr>k_mem := m\<rparr>)"
  using assms
proof (induction n arbitrary: s a)
  case 0
  then show ?case by (simp add: filled_def framed_refl)
next
  case (Suc n)
  let ?s = "s\<lparr>k_mem := (k_mem s)(upa s pid a := b)\<rparr>"
  have z: "(0 :: nat) < Suc n" by simp
  note st = vstore_user[OF Suc.prems z, of b, simplified]
  note inv' = framed_kinv[OF Suc.prems(1) st(2)] and r = framed_ranges[OF Suc.prems(1) st(2) Suc.prems(2)]
  have l': "live ?s pid" using Suc.prems(2) by (simp add: live_def)
  have w': "wrange ?s pid (a + 1) n" unfolding r using wrange_Suc[OF Suc.prems(3)] .
  obtain m where m: "vmemset n (ptab ?s pid) (a + 1) b (k_mem ?s) = Inr m" "filled ?s pid (a + 1) n (\<lambda>i. b) m" "framed syms ?s (?s\<lparr>k_mem := m\<rparr>)"
    using Suc.IH[OF inv' l' w'] by blast
  have "filled s pid a (Suc n) (\<lambda>i. b) m" by (intro filled_Suc[OF Suc.prems]) (use m(2) in simp)
  moreover have "framed syms s (s\<lparr>k_mem := m\<rparr>)" using framed_trans[OF Suc.prems(1) st(2) m(3)] by simp
  ultimately show ?case using st(1) m(1) by simp
qed

section \<open>Making pages read-only\<close>

definition reflagged :: "int \<Rightarrow> nat \<Rightarrow> 64 word \<Rightarrow> kernel_state \<Rightarrow> kernel_state" where
  "reflagged pid v e s = s\<lparr>k_mem := put_slot (k_mem s) (ptab s pid) v e\<rparr>"

lemma reflagged_simps:
  "k_processes (reflagged pid v e s) = k_processes s" "k_pageinfo (reflagged pid v e s) = k_pageinfo s"
  "k_mem (reflagged pid v e s) = put_slot (k_mem s) (ptab s pid) v e" "k_current (reflagged pid v e s) = k_current s"
  "live (reflagged pid v e s) q = live s q"
  by (simp_all add: reflagged_def live_def)

text \<open>The entry of a user page loses the write permission.\<close>

definition narrower :: "64 word \<Rightarrow> 64 word \<Rightarrow> bool" where
  "narrower e e' \<longleftrightarrow> PTE_ADDR e' = PTE_ADDR e \<and> e' AND PTE_P \<noteq> 0 \<and> e' AND PTE_W = 0"

lemma reflagged_user:
  assumes "kinv syms s" "live s pid" "256 \<le> v" "v < 1024" "slot_of s pid v AND PTE_P \<noteq> 0" "narrower (slot_of s pid v) e" "live s q"
  shows "user_slot (reflagged pid v e s) q w x \<longleftrightarrow> user_slot s q w x"
    "slot_of (reflagged pid v e s) q w AND PTE_W \<noteq> 0 \<Longrightarrow> slot_of s q w AND PTE_W \<noteq> 0"
    "PTE_ADDR (slot_of (reflagged pid v e s) q w) = PTE_ADDR (slot_of s q w)"
    "slot_of (reflagged pid v e s) q = (if q = pid then (slot_of s pid)(v := e) else slot_of s q)"
proof -
  show sl: "slot_of (reflagged pid v e s) q = (if q = pid then (slot_of s pid)(v := e) else slot_of s q)"
    using with_page_tables(3)[OF assms(1,2,4,7), where e = e] by (auto simp: reflagged_simps)
  then show "user_slot (reflagged pid v e s) q w x \<longleftrightarrow> user_slot s q w x"
    using assms(3-6) by (auto simp: user_slot_def narrower_def)
  show "PTE_ADDR (slot_of (reflagged pid v e s) q w) = PTE_ADDR (slot_of s q w)"
    using sl assms(6) by (auto simp: narrower_def)
  show "slot_of (reflagged pid v e s) q w AND PTE_W \<noteq> 0 \<Longrightarrow> slot_of s q w AND PTE_W \<noteq> 0"
    using sl assms(6) by (auto simp: narrower_def split: if_splits)
qed

lemma reflagged_kinv:
  assumes inv: "kinv syms s" and l: "live s pid" and v: "256 \<le> v" "v < 1024" and p: "slot_of s pid v AND PTE_P \<noteq> 0"
    and n: "narrower (slot_of s pid v) e"
  shows "kinv syms (reflagged pid v e s)"
proof -
  let ?s = "reflagged pid v e s"
  note tb = with_page_tables[OF inv l v(2), where e = e]
  note u = reflagged_user[OF inv l v p n]
  have "kinv_procs ?s" using kinvD(1)[OF inv] by (simp add: kinv_procs_def reflagged_simps)
  moreover have "kinv_kernel syms ?s"
    using kinvD(2)[OF inv] tb(4-6) by (simp add: kinv_kernel_def Let_def reflagged_simps page_nums_def low_identity_def kernel_only_def)
  moreover have "kinv_info ?s" using kinvD(3)[OF inv] unfolding kinv_info_def reflagged_simps .
  moreover have "kinv_excl ?s"
    unfolding kinv_excl_def reflagged_simps(5)
  proof (intro allI impI)
    fix a b x w y
    assume h: "live s a" "live s b" "user_slot ?s a x y" "user_slot ?s b w y" "a = b \<or> slot_of ?s a x AND PTE_W \<noteq> 0"
    then have "user_slot s a x y" "user_slot s b w y" "a = b \<or> slot_of s a x AND PTE_W \<noteq> 0" using u(1,2) by blast+
    then show "a = b \<and> x = w" using kinvD(4)[OF inv] h(1,2) unfolding kinv_excl_def by blast
  qed
  moreover have "kinv_table ?s q" if "live s q" for q
    using kinvD(5)[OF inv that] tb(1-3)[OF that] v(1)
    by (auto simp: kinv_table_def reflagged_simps low_identity_def kernel_only_def)
  moreover have "kinv_user ?s q" if lq: "live s q" for q
    unfolding kinv_user_def reflagged_simps(5)
  proof (intro allI impI)
    fix w y assume "user_slot ?s q w y"
    then have us: "user_slot s q w y" using u(1)[OF lq] by blast
    have tabs: "page_nums (k_mem ?s) (ptab ?s r) = page_nums (k_mem s) (ptab s r)" if "live s r" for r
      using tb(2)[OF that] by (simp add: reflagged_simps)
    show "PTE_ADDR (slot_of ?s q w) < MEMSIZE_PHYSICAL \<and> pi_refcount (k_pageinfo ?s y) \<noteq> 0 \<and>
        1 \<le> sint (pi_owner (k_pageinfo ?s y)) \<and> sint (pi_owner (k_pageinfo ?s y)) < NPROC \<and>
        (slot_of ?s q w AND PTE_W \<noteq> 0 \<longrightarrow> k_pageinfo ?s y = fresh_page q) \<and>
        (\<forall>r. live s r \<longrightarrow> y \<notin> page_nums (k_mem ?s) (ptab ?s r))"
      unfolding u(3)[OF lq] reflagged_simps(2) using user_page_info(1-6)[OF inv lq us] u(2)[OF lq] tabs by blast
  qed
  ultimately show ?thesis by (simp add: kinv_def reflagged_simps(5))
qed

lemma reflagged_accounted:
  assumes inv: "kinv syms s" and acc: "accounted s" and l: "live s pid" and v: "256 \<le> v" "v < 1024" and p: "slot_of s pid v AND PTE_P \<noteq> 0"
    and n: "narrower (slot_of s pid v) e"
  shows "accounted (reflagged pid v e s)"
proof -
  let ?s = "reflagged pid v e s"
  note u = reflagged_user(1)[OF inv l v p n]
  have sh: "sharers ?s x = sharers s x" for x unfolding sharers_def reflagged_simps(5) using u by blast
  have "w < 768 \<and> unat (pi_refcount (k_pageinfo s x)) = card (sharers s x)" if "live s q" "user_slot ?s q w x" for q w x
    using u[OF that(1)] that accountedD(1,2)[OF acc that(1)] by blast
  moreover have "x \<in> page_nums (k_mem ?s) (ptab ?s own) \<or> (\<exists>w. user_slot ?s own w x)"
    if h: "0 \<le> x" "x < NPAGES" "pi_refcount (k_pageinfo s x) \<noteq> 0" "sint (pi_owner (k_pageinfo s x)) = own" "1 \<le> own" for x own
  proof -
    have lo: "live s own" using kinvD(3)[OF inv] h by (fastforce simp: kinv_info_def)
    show ?thesis
      using accountedD(3)[OF acc h] u[OF lo] with_page_tables(2)[OF inv l v(2) lo, where e = e] by (simp add: reflagged_simps)
  qed
  ultimately show ?thesis unfolding accounted_def sh reflagged_simps(2,5) by blast
qed

lemma reflagged_extends:
  assumes h: "healthy syms s" and l: "live s pid" and v: "256 \<le> v" "v < 1024" and p: "slot_of s pid v AND PTE_P \<noteq> 0"
    and n: "narrower (slot_of s pid v) e"
  shows "extends syms pid {v} s (reflagged pid v e s)"
proof -
  have inv: "kinv syms s" and acc: "accounted s" using h by (simp_all add: healthy_def)
  have wf: "pt_wf (k_mem s) (ptab s pid)" using kinvD(5)[OF inv l] by (simp add: kinv_table_def)
  have "healthy syms (reflagged pid v e s)"
    using reflagged_kinv[OF inv l v p n] reflagged_accounted[OF inv acc l v p n] by (simp add: healthy_def)
  then show ?thesis
    unfolding extends_def using reflagged_user(4)[OF inv l v p n] l put_slot_self(2)[OF wf v(2)] put_slot_same_table[OF wf v(2)]
    by (simp add: reflagged_simps free_pages_def keeps_pages_def in_use_def)
qed

text \<open>The protection loop over the pages from \<open>v\<close> on.\<close>

definition protected :: "32 word \<Rightarrow> 64 word \<Rightarrow> 64 word" where
  "protected flags e = (if flags AND 2 = 0 then PTE_ADDR e + 5 else e)"

lemma protected_narrower: "flags AND 2 = 0 \<Longrightarrow> narrower e (protected flags e)" "flags AND 2 = 0 \<Longrightarrow> PTE_FLAGS (protected flags e) = 5"
proof -
  assume "flags AND 2 = 0"
  then have e: "protected flags e = PTE_ADDR e + 5" by (simp add: protected_def)
  have f: "PTE_FLAGS (PTE_ADDR e + 5) = 5" using PTE_FLAGS_plus[OF PTE_ADDR_aligned, of 5] by simp
  then show "PTE_FLAGS (protected flags e) = 5" unfolding e .
  show "narrower e (protected flags e)"
    unfolding narrower_def e
    using PTE_ADDR_plus[OF PTE_ADDR_aligned, of 5] PTE_FLAGS_flag[of 1 "PTE_ADDR e + 5"] PTE_FLAGS_flag[of 2 "PTE_ADDR e + 5"] f by simp
qed


lemma extends_mono:
  assumes "extends syms pid A s s'" "A \<subseteq> B" "finite B"
  shows "extends syms pid B s s'"
proof -
  have "card A \<le> card B" by (rule card_mono[OF assms(3,2)])
  then have "card (free_pages s) \<le> card (free_pages s') + card B" using extendsD(7)[OF assms(1)] by simp
  then show ?thesis using assms(1,2) unfolding extends_def by blast
qed

lemma load_protect_ok:
  assumes "healthy syms s" "live s pid" "256 \<le> v" "v + n \<le> 768" "\<And>w. v \<le> w \<Longrightarrow> w < v + n \<Longrightarrow> slot_of s pid w AND PTE_P \<noteq> 0"
  shows "\<exists>m. load_protect n flags (ptab s pid) (of_nat v * PAGESIZE) (k_mem s) = Inr m \<and> healthy syms (s\<lparr>k_mem := m\<rparr>) \<and>
    slots m (ptab s pid) = (\<lambda>w. if v \<le> w \<and> w < v + n then protected flags (slot_of s pid w) else slot_of s pid w) \<and>
    (\<forall>q. live s q \<longrightarrow> q \<noteq> pid \<longrightarrow> slots m (ptab s q) = slot_of s q) \<and>
    pt_pages m (ptab s pid) = pt_pages (k_mem s) (ptab s pid) \<and>
    (\<forall>Q. Q \<notin> set (pt_pages (k_mem s) (ptab s pid)) \<longrightarrow> same_page (k_mem s) m Q)"
  using assms
proof (induction n arbitrary: v s)
  case 0
  then show ?case by (auto simp: same_page_def fun_eq_iff)
next
  case (Suc n)
  have inv: "kinv syms s" using Suc.prems(1) by (simp add: healthy_def)
  have v: "v < 1024" using Suc.prems(4) by simp
  note va = user_page_addr[OF v]
  have wf: "pt_wf (k_mem s) (ptab s pid)" using kinvD(5)[OF inv Suc.prems(2)] by (simp add: kinv_table_def)
  let ?e = "slot_of s pid v" and ?t = "if flags AND 2 = 0 then reflagged pid v (protected flags (slot_of s pid v)) s else s"
  have p: "?e AND PTE_P \<noteq> 0" using Suc.prems(5)[of v] by simp
  have phys: "PTE_ADDR ?e < MEMSIZE_PHYSICAL" by (rule kinv_slot_phys[OF inv Suc.prems(2) v p])
  have low: "unat (of_nat v * PAGESIZE :: 64 word) < 0x400000" using va(3) v by simp
  have look: "virtual_memory_lookup (k_mem s) (ptab s pid) (of_nat v * PAGESIZE) = vam_of ?e (of_nat v * PAGESIZE)"
    using kinv_lookup[OF inv Suc.prems(2), of "of_nat v * PAGESIZE"] va(1) by simp
  have "virtual_memory_map (k_mem s) (ptab s pid) (of_nat v * PAGESIZE) (PTE_ADDR ?e) PAGESIZE 5 = Inr (0, put_slot (k_mem s) (ptab s pid) v (PTE_ADDR ?e + 5))"
    using map_one_page[OF wf va(2) low, of 5 "PTE_ADDR ?e"] phys by (simp add: va(1))
  then have "(if flags AND 2 = 0 then virtual_memory_map (k_mem s) (ptab s pid) (of_nat v * PAGESIZE)
        (vam_pa (virtual_memory_lookup (k_mem s) (ptab s pid) (of_nat v * PAGESIZE))) PAGESIZE (uint (PTE_P OR PTE_U)) else Inr (0, k_mem s)) = Inr (0, k_mem ?t)"
    unfolding look PTE_ADDR_vam(2)[OF p phys va(2)] by (simp add: reflagged_simps protected_def)
  moreover have "of_nat v * PAGESIZE + PAGESIZE = (of_nat (Suc v) * PAGESIZE :: 64 word)" by (simp add: algebra_simps)
  ultimately have step: "load_protect (Suc n) flags (ptab s pid) (of_nat v * PAGESIZE) (k_mem s) =
      load_protect n flags (ptab s pid) (of_nat (Suc v) * PAGESIZE) (k_mem ?t)" by (simp add: add.commute)
  have ext: "extends syms pid {v} s ?t"
    using reflagged_extends[OF Suc.prems(1-3) v p protected_narrower(1)] extends_mono[OF extends_refl[OF Suc.prems(1)], of "{v}"]
    by simp
  note d = extendsD[OF ext]
  have slv: "slot_of ?t pid v = protected flags ?e"
    using reflagged_user(4)[OF inv Suc.prems(2,3) v p protected_narrower(1) Suc.prems(2)] by (auto simp: protected_def)
  have mem: "same_page (k_mem s) (k_mem ?t) Q" if "Q \<notin> set (pt_pages (k_mem s) (ptab s pid))" for Q
    using put_slot_same_table[OF wf v that] by (simp add: reflagged_simps same_page_def)
  have pt: "ptab ?t q = ptab s q" for q by (simp add: reflagged_simps)
  obtain m where m: "load_protect n flags (ptab s pid) (of_nat (Suc v) * PAGESIZE) (k_mem ?t) = Inr m" "healthy syms (?t\<lparr>k_mem := m\<rparr>)"
    "slots m (ptab s pid) = (\<lambda>w. if Suc v \<le> w \<and> w < Suc v + n then protected flags (slot_of ?t pid w) else slot_of ?t pid w)"
    "\<forall>q. live s q \<longrightarrow> q \<noteq> pid \<longrightarrow> slots m (ptab s q) = slot_of ?t q"
    "pt_pages m (ptab s pid) = pt_pages (k_mem ?t) (ptab s pid)"
    "\<forall>Q. Q \<notin> set (pt_pages (k_mem ?t) (ptab s pid)) \<longrightarrow> same_page (k_mem ?t) m Q"
  proof (rule exE[OF Suc.IH[of ?t "Suc v"]])
    show "slot_of ?t pid w AND PTE_P \<noteq> 0" if "Suc v \<le> w" "w < Suc v + n" for w
      using d(4)[of w] Suc.prems(5)[of w] that by simp
  qed (use Suc.prems(2-4) d(1,10) pt in auto)
  have eq: "?t\<lparr>k_mem := m\<rparr> = s\<lparr>k_mem := m\<rparr>" by (simp add: reflagged_def)
  have "slots m (ptab s pid) = (\<lambda>w. if v \<le> w \<and> w < v + Suc n then protected flags (slot_of s pid w) else slot_of s pid w)"
    unfolding m(3)
  proof
    fix w
    show "(if Suc v \<le> w \<and> w < Suc v + n then protected flags (slot_of ?t pid w) else slot_of ?t pid w) =
        (if v \<le> w \<and> w < v + Suc n then protected flags (slot_of s pid w) else slot_of s pid w)"
      using slv d(4)[of w] by (cases "w = v") (simp_all only: singleton_iff simp_thms, auto)
  qed
  moreover have "slots m (ptab s q) = slot_of s q" if "live s q" "q \<noteq> pid" for q using m(4) d(5)[OF that] that by simp
  moreover have "same_page (k_mem s) m Q" if "Q \<notin> set (pt_pages (k_mem s) (ptab s pid))" for Q
    using mem[OF that] m(6) d(6) that pt by (auto intro: same_page_trans)
  ultimately show ?case using step m(1,2,5) d(6) unfolding eq by (intro exI[of _ m]) auto
qed


section \<open>Loading a segment\<close>

definition seg_base :: "elf_program \<Rightarrow> 64 word" where
  "seg_base ph = p_va ph AND NOT (PAGESIZE - 1)"

definition seg_file_end :: "elf_program \<Rightarrow> 64 word" where
  "seg_file_end ph = p_va ph + p_filesz ph"

definition seg_mem_end :: "elf_program \<Rightarrow> 64 word" where
  "seg_mem_end ph = p_va ph + p_memsz ph"

definition seg_pages :: "elf_program \<Rightarrow> nat set" where
  "seg_pages ph = {vpn (seg_base ph)..<page_end (seg_mem_end ph)}"

definition seg_perm :: "elf_program \<Rightarrow> int" where
  "seg_perm ph = (if p_flags ph AND 2 = 0 then 5 else 7)"

text \<open>A segment that fits the user area below the stack page.\<close>

definition seg_ok :: "elf_program \<Rightarrow> bool" where
  "seg_ok ph \<longleftrightarrow>
     0x100000 \<le> unat (p_va ph) \<and> unat (p_va ph) + unat (p_memsz ph) \<le> 0x2FF000 \<and> p_filesz ph \<le> p_memsz ph"

definition seg_copied :: "elf_program \<Rightarrow> nat" where
  "seg_copied ph = unat (seg_file_end ph - seg_base ph)"

definition seg_cleared :: "elf_program \<Rightarrow> nat" where
  "seg_cleared ph = unat (seg_mem_end ph - seg_file_end ph)"

lemma round_down: "a AND NOT (PAGESIZE - 1) = of_nat (unat a div 4096) * PAGESIZE" for a :: "64 word"
proof -
  have "a AND NOT (PAGESIZE - 1) = of_nat (unat (PTE_ADDR a))" by (simp add: PTE_ADDR_def)
  also have "unat (PTE_ADDR a) = unat a div 4096 * 4096" by (simp add: PTE_ADDR_nat minus_mod_eq_div_mult)
  finally show ?thesis by simp
qed

lemma seg_facts:
  assumes "seg_ok ph"
  defines "v \<equiv> vpn (seg_base ph)"
  shows "seg_base ph = of_nat v * PAGESIZE" "unat (seg_base ph) = 4096 * v" "256 \<le> v" "v \<le> page_end (seg_mem_end ph)" "page_end (seg_mem_end ph) \<le> 767"
    "unat (seg_mem_end ph) = 4096 * v + seg_copied ph + seg_cleared ph" "unat (seg_mem_end ph) \<le> 0x2FF000"
    "seg_file_end ph = seg_base ph + of_nat (seg_copied ph)" "pages_between (seg_base ph) (seg_mem_end ph) = page_end (seg_mem_end ph) - v"
proof -
  note h = assms(1)[unfolded seg_ok_def word_le_nat_alt]
  have le: "4096 * (unat (p_va ph) div 4096) \<le> unat (p_va ph)" by simp
  define d where "d = unat (p_va ph) div 4096"
  have d: "256 \<le> d" "d < 1024" using h by (simp_all add: d_def less_eq_div_iff_mult_less_eq div_less_iff_less_mult)
  have b: "seg_base ph = of_nat d * PAGESIZE" unfolding seg_base_def d_def by (rule round_down)
  have v: "v = d" unfolding v_def b using user_page_addr(1)[OF d(2)] by simp
  show "seg_base ph = of_nat v * PAGESIZE" "256 \<le> v" using b v d(1) by simp_all
  show ub: "unat (seg_base ph) = 4096 * v" unfolding b v using user_page_addr(3)[OF d(2)] by simp
  have um: "unat (seg_mem_end ph) = unat (p_va ph) + unat (p_memsz ph)" using h by (simp add: seg_mem_end_def unat_word_ariths)
  have uf: "unat (seg_file_end ph) = unat (p_va ph) + unat (p_filesz ph)" using h by (simp add: seg_file_end_def unat_word_ariths)
  have bf: "unat (seg_base ph) \<le> unat (seg_file_end ph)" unfolding ub uf v using le by (simp add: d_def)
  have fm: "unat (seg_file_end ph) \<le> unat (seg_mem_end ph)" unfolding uf um using h by simp
  have c: "seg_copied ph = unat (seg_file_end ph) - unat (seg_base ph)" "seg_cleared ph = unat (seg_mem_end ph) - unat (seg_file_end ph)"
    using bf fm by (simp_all add: seg_copied_def seg_cleared_def unat_sub word_le_nat_alt)
  show "unat (seg_mem_end ph) = 4096 * v + seg_copied ph + seg_cleared ph" using c bf fm ub by simp
  show m: "unat (seg_mem_end ph) \<le> 0x2FF000" unfolding um using h by simp
  show "page_end (seg_mem_end ph) \<le> 767" using m unfolding page_end_def by (simp add: div_le_mono[of _ "0x2FF000 + 4095" 4096, simplified])
  show "v \<le> page_end (seg_mem_end ph)"
    unfolding page_end_def using bf fm ub by (simp add: less_eq_div_iff_mult_less_eq)
  show "seg_file_end ph = seg_base ph + of_nat (seg_copied ph)" by (simp add: seg_copied_def)
  show "pages_between (seg_base ph) (seg_mem_end ph) = page_end (seg_mem_end ph) - v"
  proof -
    obtain r where r: "unat (seg_mem_end ph) = v * 4096 + r" using bf fm ub by (metis le_iff_add le_trans mult.commute)
    have "(v * 4096 + r + 4095) div 4096 = v + (r + 4095) div 4096" by (simp add: add.assoc)
    then show ?thesis unfolding pages_between_def page_end_def ub r by simp
  qed
qed


lemma image_in_use:
  assumes "image s src n" "i < n"
  shows "in_use s (PTE_ADDR (src + of_nat i))" "\<not> 1 \<le> sint (pi_owner (k_pageinfo s (PAGENUMBER (PTE_ADDR (src + of_nat i)))))"
proof -
  have "unat (src + of_nat i) = unat src + i" using assms by (intro unat_range[of src n]) (simp_all add: image_def)
  then have "unat (src + of_nat i) < 0x200000" using assms by (simp add: image_def)
  moreover have "unat (PTE_ADDR (src + of_nat i)) \<le> unat (src + of_nat i)" by (simp add: PTE_ADDR_nat)
  ultimately have "PTE_ADDR (src + of_nat i) < MEMSIZE_PHYSICAL" by (simp add: word_less_nat_alt)
  then show "in_use s (PTE_ADDR (src + of_nat i))" "\<not> 1 \<le> sint (pi_owner (k_pageinfo s (PAGENUMBER (PTE_ADDR (src + of_nat i)))))"
    using assms by (simp_all add: in_use_def image_def Let_def)
qed

text \<open>The image of a program stays as it is while pages are given to a process.\<close>

lemma image_extends:
  assumes "kinv syms s" "live s pid" "extends syms pid A s t" "image s src n"
  shows "image t src n" "i < n \<Longrightarrow> k_mem t (src + of_nat i) = k_mem s (src + of_nat i)"
proof -
  note e = extendsD[OF assms(3)]
  show "image t src n"
    unfolding image_def Let_def
  proof (intro conjI allI impI)
    show "unat src + n \<le> 0x100000" using assms(4) by (simp add: image_def)
    fix i assume i: "i < n"
    note u = image_in_use[OF assms(4) i]
    show "pi_refcount (k_pageinfo t (PAGENUMBER (PTE_ADDR (src + of_nat i)))) \<noteq> 0" using keeps_pagesD(1)[OF e(8) u(1)] by (simp add: in_use_def)
    show "\<not> 1 \<le> sint (pi_owner (k_pageinfo t (PAGENUMBER (PTE_ADDR (src + of_nat i)))))" using keeps_pagesD(2)[OF e(8) u(1)] u(2) by simp
  qed
  assume i: "i < n"
  note u = image_in_use[OF assms(4) i]
  have "sint (pi_owner (fresh_page pid)) = pid" "1 \<le> pid" using sint_fresh[of pid] assms(2) by (simp_all add: live_def)
  then have "PAGENUMBER (PTE_ADDR (src + of_nat i)) \<notin> page_nums (k_mem s) (ptab s pid)"
    using kinvD(5)[OF assms(1,2)] u(2) by (auto simp: kinv_table_def)
  then have "PTE_ADDR (src + of_nat i) \<notin> set (pt_pages (k_mem s) (ptab s pid))" by (auto simp: page_nums_def)
  from e(9)[OF u(1) this] show "k_mem t (src + of_nat i) = k_mem s (src + of_nat i)" by (simp add: same_page_def)
qed

lemma grown_fresh:
  assumes inv: "kinv syms s" and acc: "accounted s" and l: "live s pid" and g: "grown syms pid A s t" and A: "\<And>v. v \<in> A \<Longrightarrow> 256 \<le> v \<and> v < 768"
    and absent: "\<And>v. v \<in> A \<Longrightarrow> slot_of s pid v AND PTE_P = 0" and v: "v \<in> A"
    and Q: "in_use s Q" "Q \<notin> set (pt_pages (k_mem s) (ptab s pid))"
  shows "Q \<noteq> PTE_ADDR (slot_of t pid v)"
proof
  assume eq: "Q = PTE_ADDR (slot_of t pid v)"
  let ?pn = "PAGENUMBER Q"
  have ex: "extends syms pid A s t" using g by (simp add: grown_def)
  note e = extendsD[OF ex]
  have kt: "kinv syms t" using e(1) by (simp add: healthy_def)
  have lt: "live t pid" using e(10) l by simp
  have fl: "PTE_FLAGS (slot_of t pid v) = 7" using g v by (simp add: grown_def)
  have r: "256 \<le> v" "v < 1024" using A[OF v] by simp_all
  have us: "user_slot t pid v ?pn" unfolding eq by (rule user_slot_self[OF r flags_7(1)[OF fl]])
  have "k_pageinfo t ?pn = fresh_page pid" using user_page_info(5)[OF kt lt us] flags_7(2)[OF fl] by blast
  then have own: "sint (pi_owner (k_pageinfo s ?pn)) = pid" using keeps_pagesD(2)[OF e(8) Q(1)] sint_fresh[of pid] kinv_live_range[OF l] by simp
  have ph: "0 \<le> ?pn" "?pn < NPAGES" "pi_refcount (k_pageinfo s ?pn) \<noteq> 0" using Q(1) PAGENUMBER_phys(2,3)[of Q] by (simp_all add: in_use_def)
  have "1 \<le> pid" using l by (simp add: live_def)
  from accountedD(3)[OF acc ph own this] show False
  proof
    assume "?pn \<in> page_nums (k_mem s) (ptab s pid)"
    then have "?pn \<in> page_nums (k_mem t) (ptab t pid)" using e(2,6) by (simp add: page_nums_def)
    then show False using user_page_info(6)[OF kt lt us lt] by blast
  next
    assume "\<exists>w. user_slot s pid w ?pn"
    then obtain w where w: "user_slot s pid w ?pn" by blast
    then have "w \<notin> A" using absent[of w] by (auto simp: user_slot_def)
    then have "user_slot t pid w ?pn" using w e(4)[of w] by (simp add: user_slot_def)
    then have "w = v" using kinvD(4)[OF kt] lt us unfolding kinv_excl_def by blast
    then show False using \<open>w \<notin> A\<close> v by blast
  qed
qed

lemma filled_same_page:
  assumes "kinv syms s" "live s pid" "wrange s pid a n" "filled s pid a n f m"
    and "\<And>i. i < n \<Longrightarrow> Q \<noteq> PTE_ADDR (slot_of s pid (vpn (a + of_nat i)))"
  shows "same_page (k_mem s) m Q"
  unfolding same_page_def
proof (intro allI impI)
  fix x assume "PTE_ADDR x = Q"
  then have "\<forall>i < n. x \<noteq> upa s pid (a + of_nat i)" using wrange_at(6)[OF assms(1-3)] assms(5) by metis
  then show "k_mem s x = m x" using assms(4) by (simp add: filled_def)
qed


lemma wrange_split:
  assumes "wrange s pid a (m + n)"
  shows "wrange s pid a m" "wrange s pid (a + of_nat m) n"
proof -
  show "wrange s pid a m" using assms by (simp add: wrange_def)
  have "unat (a + of_nat m) = unat a + m" using assms by (simp add: wrange_def unat_word_ariths unat_of_nat)
  moreover have "PTE_FLAGS (slot_of s pid (vpn (a + of_nat m + of_nat i))) = 7" if "i < n" for i
  proof -
    have "m + i < m + n" using that by simp
    with assms have "PTE_FLAGS (slot_of s pid (vpn (a + of_nat (m + i)))) = 7" unfolding wrange_def by blast
    then show ?thesis by (simp add: add.assoc)
  qed
  ultimately show "wrange s pid (a + of_nat m) n" using assms by (simp add: wrange_def)
qed

text \<open>The bytes of a segment where the loader puts them: from the rounded address of the segment on.\<close>

definition rounded_segment :: "kernel_state \<Rightarrow> int \<Rightarrow> elf_program \<Rightarrow> (nat \<Rightarrow> 8 word) \<Rightarrow> bool" where
  "rounded_segment t pid ph f \<longleftrightarrow>
     (\<forall>i < seg_copied ph. view_at t pid (seg_base ph + of_nat i) = Some (f i, seg_perm ph)) \<and>
     (\<forall>i < seg_cleared ph. view_at t pid (seg_file_end ph + of_nat i) = Some (0, seg_perm ph))"

lemma seg_aligned: "page_aligned (p_va ph) \<Longrightarrow> seg_base ph = p_va ph" "page_aligned (p_va ph) \<Longrightarrow> seg_copied ph = unat (p_filesz ph)"
  using PTE_ADDR_self[of "p_va ph"] by (simp_all add: seg_copied_def seg_file_end_def seg_base_def PTE_ADDR_def)

lemma seg_address:
  assumes "seg_ok ph" "i < seg_copied ph + seg_cleared ph"
  shows "vpn (seg_base ph + of_nat i) \<in> seg_pages ph" "256 \<le> vpn (seg_base ph + of_nat i)" "vpn (seg_base ph + of_nat i) < 767"
proof -
  note f = seg_facts[OF assms(1)]
  let ?v = "vpn (seg_base ph)"
  have u: "unat (seg_base ph + of_nat i) = 4096 * ?v + i" using f(2,6,7) assms(2) by (simp add: unat_word_ariths unat_of_nat)
  then have n: "vpn (seg_base ph + of_nat i) = (4096 * ?v + i) div 4096" using f(6,7) assms(2) by (simp add: vpn_low)
  have "4096 * ?v + i < unat (seg_mem_end ph)" using f(6) assms(2) by simp
  then have "(4096 * ?v + i) div 4096 < page_end (seg_mem_end ph)"
    unfolding page_end_def by (simp add: div_less_iff_less_mult)
  moreover have "?v \<le> (4096 * ?v + i) div 4096" by simp
  ultimately show "vpn (seg_base ph + of_nat i) \<in> seg_pages ph" "256 \<le> vpn (seg_base ph + of_nat i)" "vpn (seg_base ph + of_nat i) < 767"
    using n f(3,5) by (simp_all add: seg_pages_def)
qed


lemma copy_clear_ok:
  assumes inv: "kinv syms s" and l: "live s pid" and w: "wrange s pid a (m + n)" and im: "image s src m"
  shows "\<exists>m2 m3. vmemcpy m (ptab s pid) a src (k_mem s) = Inr m2 \<and> vmemset n (ptab s pid) (a + of_nat m) 0 m2 = Inr m3 \<and>
    framed syms s (s\<lparr>k_mem := m3\<rparr>) \<and> filled s pid a (m + n) (\<lambda>i. if i < m then k_mem s (src + of_nat i) else 0) m3"
proof -
  note w1 = wrange_split(1)[OF w] and w2 = wrange_split(2)[OF w]
  obtain m2 where m2: "vmemcpy m (ptab s pid) a src (k_mem s) = Inr m2" "filled s pid a m (\<lambda>i. k_mem s (src + of_nat i)) m2" "framed syms s (s\<lparr>k_mem := m2\<rparr>)"
    using vmemcpy_ok[OF inv l w1 im] by blast
  let ?s2 = "s\<lparr>k_mem := m2\<rparr>"
  note r2 = framed_ranges[OF inv m2(3) l] and inv2 = framed_kinv[OF inv m2(3)]
  have l2: "live ?s2 pid" using l by (simp add: live_def)
  have w2': "wrange ?s2 pid (a + of_nat m) n" using w2 unfolding r2 .
  obtain m3 where m3: "vmemset n (ptab s pid) (a + of_nat m) 0 m2 = Inr m3" "filled ?s2 pid (a + of_nat m) n (\<lambda>i. 0) m3" "framed syms ?s2 (s\<lparr>k_mem := m3\<rparr>)"
    using vmemset_ok[OF inv2 l2 w2', of 0] by auto
  have ne: "upa s pid (a + of_nat i) \<noteq> upa s pid (a + of_nat m + of_nat j)" if "i < m" "j < n" for i j
    using upa_inj[OF inv l w, of i "m + j"] that by (auto simp: add.assoc)
  have "m3 (upa s pid (a + of_nat i)) = (if i < m then k_mem s (src + of_nat i) else 0)" if i: "i < m + n" for i
  proof (cases "i < m")
    case True
    then have "m3 (upa s pid (a + of_nat i)) = m2 (upa s pid (a + of_nat i))" using m3(2) ne[OF True] unfolding filled_def r2 by simp
    then show ?thesis using m2(2) True by (simp add: filled_def)
  next
    case False
    then obtain j where "i = m + j" "j < n" using i by (metis add_less_cancel_left le_iff_add not_less)
    then show ?thesis using m3(2) unfolding filled_def r2 by (simp add: add.assoc)
  qed
  moreover have "m3 x = k_mem s x" if x: "\<forall>i < m + n. x \<noteq> upa s pid (a + of_nat i)" for x
  proof -
    have "x \<noteq> upa s pid (a + of_nat m + of_nat j)" if "j < n" for j using x[rule_format, of "m + j"] that by (simp add: add.assoc)
    then have "m3 x = m2 x" using m3(2) unfolding filled_def r2 by simp
    then show ?thesis using m2(2) x by (simp add: filled_def)
  qed
  ultimately have "filled s pid a (m + n) (\<lambda>i. if i < m then k_mem s (src + of_nat i) else 0) m3" by (simp add: filled_def)
  then show ?thesis using m2(1) m3(1) framed_trans[OF inv m2(3) m3(3)] by blast
qed


lemma program_load_segment_ok:
  assumes ok: "syms_ok syms" and h: "healthy syms s" and l: "live s pid" and sg: "seg_ok ph"
    and absent: "\<And>v. v \<in> seg_pages ph \<Longrightarrow> slot_of s pid v AND PTE_P = 0"
    and room: "card (seg_pages ph) \<le> card (free_pages s)" and im: "image s src (seg_copied ph)"
  shows "\<exists>t. program_load_segment syms pid ph src s = Inr (0, t) \<and> extends syms pid (seg_pages ph) s t \<and>
    rounded_segment t pid ph (\<lambda>i. k_mem s (src + of_nat i))"
proof -
  let ?b = "seg_base ph" and ?v = "vpn (seg_base ph)" and ?E = "page_end (seg_mem_end ph)"
  let ?n1 = "seg_copied ph" and ?n2 = "seg_cleared ph" and ?A = "seg_pages ph"
  note f = seg_facts[OF sg]
  have inv: "kinv syms s" and acc: "accounted s" using h by (simp_all add: healthy_def)
  have A: "v \<in> ?A \<Longrightarrow> 256 \<le> v \<and> v < 768" for v using f(3,5) by (auto simp: seg_pages_def)
  have "page_end (seg_mem_end ph) \<le> 768" "page_end (seg_mem_end ph) - ?v \<le> card (free_pages s)" using f(5) room by (simp_all add: seg_pages_def)
  then obtain s1 where s1: "load_alloc pid (seg_mem_end ph) ?b s = Inr (True, s1)" "grown syms pid ?A s s1"
    using load_alloc_ok[OF h l f(3,4)] absent unfolding f(1)[symmetric] seg_pages_def by auto
  have ex1: "extends syms pid ?A s s1" and fl1: "\<And>v. v \<in> ?A \<Longrightarrow> PTE_FLAGS (slot_of s1 pid v) = 7" using s1(2) by (simp_all add: grown_def)
  note e1 = extendsD[OF ex1]
  have inv1: "kinv syms s1" using e1(1) by (simp add: healthy_def)
  have l1: "live s1 pid" using e1(10) l by simp
  have w: "wrange s1 pid ?b (?n1 + ?n2)"
    using f(2,3,6,7) fl1 seg_address(1)[OF sg] by (simp add: wrange_def)
  note im1 = image_extends[OF inv l ex1 im]
  obtain m2 m3 where m23: "vmemcpy ?n1 (ptab s1 pid) ?b src (k_mem s1) = Inr m2" "vmemset ?n2 (ptab s1 pid) (seg_file_end ph) 0 m2 = Inr m3"
    and fr3: "framed syms s1 (s1\<lparr>k_mem := m3\<rparr>)"
    and fill: "filled s1 pid ?b (?n1 + ?n2) (\<lambda>i. if i < ?n1 then k_mem s1 (src + of_nat i) else 0) m3"
    using copy_clear_ok[OF inv1 l1 w im1(1)] unfolding f(8)[symmetric] by blast
  let ?s3 = "s1\<lparr>k_mem := m3\<rparr>"
  note v3 = framed_views[OF inv1 fr3]
  have h3: "healthy syms ?s3" by (rule framed_healthy[OF e1(1) fr3])
  have l3: "live ?s3 pid" using l1 by (simp add: live_def)
  have p3: "slot_of ?s3 pid x AND PTE_P \<noteq> 0" if "?v \<le> x" "x < ?v + (?E - ?v)" for x
    unfolding v3(2)[OF l1] using flags_7(1)[OF fl1] that by (simp add: seg_pages_def)
  have e768: "?v + (?E - ?v) \<le> 768" "?v + (?E - ?v) = ?E" using f(4,5) by simp_all
  obtain m4 where m4: "load_protect (?E - ?v) (p_flags ph) (ptab s1 pid) ?b m3 = Inr m4" "healthy syms (s1\<lparr>k_mem := m4\<rparr>)"
    "slots m4 (ptab s1 pid) = (\<lambda>x. if ?v \<le> x \<and> x < ?E then protected (p_flags ph) (slot_of ?s3 pid x) else slot_of ?s3 pid x)"
    "\<forall>q. live s1 q \<longrightarrow> q \<noteq> pid \<longrightarrow> slots m4 (ptab s1 q) = slot_of ?s3 q"
    "pt_pages m4 (ptab s1 pid) = pt_pages m3 (ptab s1 pid)"
    "\<forall>Q. Q \<notin> set (pt_pages m3 (ptab s1 pid)) \<longrightarrow> same_page m3 m4 Q"
    using load_protect_ok[OF h3 l3 f(3) e768(1) p3, of "p_flags ph"] unfolding f(1)[symmetric] e768(2) by (auto simp: live_def)
  let ?t = "s1\<lparr>k_mem := m4, k_cr3 := sym_kernel_pagetables syms\<rparr>"
  have k4: "kinv syms (s1\<lparr>k_mem := m4\<rparr>)" using m4(2) by (simp add: healthy_def)
  have ht: "healthy syms ?t" using framed_healthy[OF m4(2) framed_upd(2)] by simp
  have "set_pagetable syms (k_mem s1) (ptab s1 pid) = Inr (ptab s1 pid)" by (rule set_pagetable_process[OF ok inv1 l1])
  moreover have "set_pagetable syms m4 (sym_kernel_pagetables syms) = Inr (sym_kernel_pagetables syms)" using set_pagetable_kernel[OF ok k4] by simp
  moreover have pt1: "ptab s pid = ptab s1 pid" by (simp add: e1(2))
  ultimately have run: "program_load_segment syms pid ph src s = Inr (0, ?t)"
    unfolding program_load_segment_def Let_def seg_base_def[symmetric] seg_mem_end_def[symmetric] seg_file_end_def[symmetric]
      seg_copied_def[symmetric] seg_cleared_def[symmetric] f(9) pt1
    using s1(1) m23 m4(1) by simp
  have slt: "slot_of ?t pid x = (if x \<in> ?A then protected (p_flags ph) (slot_of s1 pid x) else slot_of s1 pid x)" for x
    using m4(3) v3(2)[OF l1] by (simp add: seg_pages_def)
  have tab: "pt_pages m3 (ptab s1 pid) = pt_pages (k_mem s1) (ptab s1 pid)" using v3(3)[OF l1] by simp
  have ex: "extends syms pid ?A s ?t"
  proof -
    have "same_page (k_mem s) (k_mem ?t) Q" if Q: "in_use s Q" "Q \<notin> set (pt_pages (k_mem s) (ptab s pid))" for Q
    proof -
      have ne: "Q \<noteq> PTE_ADDR (slot_of s1 pid v)" if "v \<in> ?A" for v by (rule grown_fresh[OF inv acc l s1(2) A absent that Q])
      have "same_page (k_mem s1) m3 Q"
        by (rule filled_same_page[OF inv1 l1 w fill]) (use ne seg_address(1)[OF sg] in simp)
      moreover have "same_page m3 m4 Q" using m4(6) Q(2) tab e1(6) pt1 by simp
      ultimately have "same_page (k_mem s) m4 Q" using e1(9)[OF Q] by (meson same_page_trans)
      then show ?thesis by simp
    qed
    moreover have "slot_of ?t q = slot_of s q" if "live s q" "q \<noteq> pid" for q
      using m4(4) v3(2)[of q] e1(5)[OF that] e1(10) that by simp
    moreover have "keeps_pages s ?t" using e1(8) by (simp add: keeps_pages_def in_use_def)
    moreover have "slot_of ?t pid v = slot_of s pid v" if "v \<notin> ?A" for v using slt[of v] e1(4)[OF that] that by simp
    moreover have "card (free_pages s) \<le> card (free_pages ?t) + card ?A" using e1(7) by (simp add: free_pages_def)
    moreover have "k_processes ?t = k_processes s" "k_current ?t = k_current s" using e1(2,3) by simp_all
    moreover have "pt_pages (k_mem ?t) (ptab s pid) = pt_pages (k_mem s) (ptab s pid)" using m4(5) tab e1(6) pt1 by simp
    ultimately show ?thesis unfolding extends_def using ht by blast
  qed
  have lt: "live ?t pid" using l1 by (simp add: live_def)
  have kt: "kinv syms ?t" using ht by (simp add: healthy_def)
  have view: "view_at ?t pid (?b + of_nat i) = Some (m3 (upa s1 pid (?b + of_nat i)), seg_perm ph)" if i: "i < ?n1 + ?n2" for i
  proof -
    let ?x = "?b + of_nat i :: 64 word"
    note a = seg_address[OF sg i] and x = wrange_at[OF inv1 l1 w i]
    let ?e = "slot_of s1 pid (vpn ?x)"
    have pr: "PTE_ADDR (protected (p_flags ph) ?e) = PTE_ADDR ?e" "protected (p_flags ph) ?e AND PTE_P \<noteq> 0"
      "uint (PTE_FLAGS (protected (p_flags ph) ?e)) = seg_perm ph"
      using protected_narrower[of "p_flags ph" ?e] x(4) flags_7(1)[OF x(4)] by (auto simp: protected_def narrower_def seg_perm_def)
    have "PTE_ADDR ?e \<notin> set (pt_pages m3 (ptab s1 pid))" unfolding tab by (rule user_page_no_table[OF inv1 l1 x(5) l1])
    then have "m4 (upa s1 pid ?x) = m3 (upa s1 pid ?x)" using m4(6) x(6) by (auto simp: same_page_def)
    then show ?thesis
      unfolding view_at_slot[OF kt lt x(2,3)] slt using a(1) pr by (simp add: upa_def)
  qed
  have all: "view_at ?t pid (?b + of_nat i) = Some (if i < ?n1 then k_mem s (src + of_nat i) else 0, seg_perm ph)" if "i < ?n1 + ?n2" for i
    using view[OF that] fill that im1(2)[of i] by (simp add: filled_def)
  then have "rounded_segment ?t pid ph (\<lambda>i. k_mem s (src + of_nat i))"
    unfolding rounded_segment_def using all[of "?n1 + i" for i] by (simp add: f(8) add.assoc)
  with run ex show ?thesis by blast
qed

text \<open>
  What becomes of a segment that does not start at a page boundary. The comment of \<open>program_load_segment\<close> says that the file contents are copied to
  \<open>p_va\<close>; \<open>memcpy\<close> gets the rounded address instead, so the byte at \<open>p_va\<close> is not the first byte of the segment but
  the one that lies behind it by the offset of \<open>p_va\<close> in its page.
\<close>

theorem unaligned_segment_displaced:
  assumes "syms_ok syms" "healthy syms s" "live s pid" "seg_ok ph" "\<And>v. v \<in> seg_pages ph \<Longrightarrow> slot_of s pid v AND PTE_P = 0"
    and "card (seg_pages ph) \<le> card (free_pages s)" "image s src (seg_copied ph)"
  shows "\<exists>t. program_load_segment syms pid ph src s = Inr (0, t) \<and>
    (\<forall>i < unat (p_filesz ph). view_at t pid (p_va ph + of_nat i) = Some (k_mem s (src + PAGEOFFSET (p_va ph) + of_nat i), seg_perm ph))"
proof -
  obtain t where t: "program_load_segment syms pid ph src s = Inr (0, t)" "rounded_segment t pid ph (\<lambda>i. k_mem s (src + of_nat i))"
    using program_load_segment_ok[OF assms] by blast
  let ?o = "unat (PAGEOFFSET (p_va ph))"
  have b: "p_va ph = seg_base ph + PAGEOFFSET (p_va ph)"
    using addr_plus_off[of "p_va ph"] by (simp add: seg_base_def PTE_ADDR_def PAGEOFFSET_def)
  have va: "p_va ph + of_nat i = seg_base ph + of_nat (?o + i)" for i by (subst b) (simp add: add.assoc)
  have "seg_copied ph = unat (PAGEOFFSET (p_va ph) + p_filesz ph)"
    unfolding seg_copied_def seg_file_end_def by (subst b) (simp add: algebra_simps)
  also have "\<dots> = ?o + unat (p_filesz ph)"
    using assms(4) PAGEOFFSET_less[of "p_va ph"] by (subst unat_plus_if_size) (simp add: seg_ok_def word_le_nat_alt word_less_nat_alt word_size)
  finally have c: "seg_copied ph = ?o + unat (p_filesz ph)" .
  have "view_at t pid (p_va ph + of_nat i) = Some (k_mem s (src + PAGEOFFSET (p_va ph) + of_nat i), seg_perm ph)" if "i < unat (p_filesz ph)" for i
    using t(2)[unfolded rounded_segment_def c, THEN conjunct1, rule_format, of "?o + i"] that unfolding va by (simp add: add.assoc)
  with t(1) show ?thesis by blast
qed


section \<open>Loading a program\<close>

definition segments_at :: "memory \<Rightarrow> 64 word \<Rightarrow> nat \<Rightarrow> elf_program list" where
  "segments_at m ph n = filter (\<lambda>h. p_type h = 1) (map (\<lambda>j. read_elf_program m (ph + of_nat (56 * j))) [0..<n])"

definition all_pages :: "elf_program list \<Rightarrow> nat set" where
  "all_pages hs = (\<Union>h \<in> set hs. seg_pages h)"

primrec apart :: "elf_program list \<Rightarrow> bool" where
  "apart [] = True"
| "apart (h # hs) = (seg_pages h \<inter> all_pages hs = {} \<and> apart hs)"

text \<open>A program image that the loader can load into a process: the headers and the data lie in the kernel's
  own pages, and the segments start at page boundaries (as \<open>link/process.ld\<close> makes them) and fit the user area without overlapping.\<close>

definition loadable :: "(64 word \<Rightarrow> nat \<Rightarrow> bool) \<Rightarrow> 64 word \<Rightarrow> elf_program list \<Rightarrow> bool" where
  "loadable I eh hs \<longleftrightarrow> list_all (\<lambda>h. seg_ok h \<and> page_aligned (p_va h) \<and> I (eh + p_offset h) (unat (p_filesz h))) hs \<and> apart hs"

lemma segments_at_Suc:
  "segments_at m ph (Suc n) =
     (let h = read_elf_program m ph; hs = segments_at m (ph + 56) n in if p_type h = 1 then h # hs else hs)"
proof -
  have "map (\<lambda>j. read_elf_program m (ph + of_nat (56 * j))) [0..<Suc n] =
      read_elf_program m ph # map (\<lambda>j. read_elf_program m (ph + 56 + of_nat (56 * j))) [0..<n]"
    unfolding upt_conv_Cons[OF zero_less_Suc] map_Suc_upt[symmetric] by (simp add: algebra_simps)
  then show ?thesis by (simp add: segments_at_def Let_def)
qed

lemma image_sub:
  assumes "image s a n" "k + m \<le> n"
  shows "image s (a + of_nat k) m"
proof -
  have u: "unat (a + of_nat k) = unat a + k" using assms by (simp add: image_def unat_word_ariths unat_of_nat)
  have eq: "a + of_nat k + of_nat i = a + of_nat (k + i)" for i by (simp add: add.assoc)
  have "k + i < n" if "i < m" for i using assms(2) that by simp
  then show ?thesis using assms u unfolding image_def eq by (auto simp del: of_nat_add)
qed

lemma segments_at_cong:
  assumes "\<And>i. i < 56 * n \<Longrightarrow> m' (ph + of_nat i) = m (ph + of_nat i)"
  shows "segments_at m' ph n = segments_at m ph n"
proof -
  have "read_elf_program m' (ph + of_nat (56 * j)) = read_elf_program m (ph + of_nat (56 * j))" if "j < n" for j
  proof (rule read_elf_program_cong)
    fix i :: nat assume "i < 56"
    then have "56 * j + i < 56 * n" using that by simp
    from assms[OF this] show "m' (ph + of_nat (56 * j) + of_nat i) = m (ph + of_nat (56 * j) + of_nat i)" by (simp add: add.assoc)
  qed
  then have "map (\<lambda>j. read_elf_program m' (ph + of_nat (56 * j))) [0..<n] = map (\<lambda>j. read_elf_program m (ph + of_nat (56 * j))) [0..<n]" by simp
  then show ?thesis unfolding segments_at_def by (rule arg_cong)
qed

text \<open>What a process has in a page stays when other pages are added.\<close>

lemma view_extends:
  assumes "kinv syms s" "live s pid" "extends syms pid A s t" "256 \<le> vpn x" "vpn x < 1024" "vpn x \<notin> A"
  shows "view_at t pid x = view_at s pid x"
proof -
  note e = extendsD[OF assms(3)]
  have kt: "kinv syms t" using e(1) by (simp add: healthy_def)
  have lt: "live t pid" using e(10) assms(2) by simp
  let ?e = "slot_of s pid (vpn x)"
  have "k_mem t (PTE_ADDR ?e + PAGEOFFSET x) = k_mem s (PTE_ADDR ?e + PAGEOFFSET x)" if "?e AND PTE_P \<noteq> 0"
  proof -
    note us = user_slot_self[OF assms(4,5) that]
    from e(9)[OF user_page_in_use[OF assms(1,2) us] user_page_no_table[OF assms(1,2) us assms(2)]]
    show ?thesis using same_page_at[OF _ PTE_ADDR_aligned PAGEOFFSET_less] by blast
  qed
  then show ?thesis
    unfolding view_at_slot[OF assms(1,2,4,5)] view_at_slot[OF kt lt assms(4,5)] e(4)[OF assms(6)] by simp
qed

lemma rounded_segment_extends:
  assumes "kinv syms s" "live s pid" "extends syms pid A s t" "seg_ok h" "seg_pages h \<inter> A = {}" "rounded_segment s pid h f"
  shows "rounded_segment t pid h f"
proof -
  have v: "view_at t pid (seg_base h + of_nat i) = view_at s pid (seg_base h + of_nat i)" if "i < seg_copied h + seg_cleared h" for i
    using seg_address[OF assms(4) that] assms(5) by (intro view_extends[OF assms(1-3)]) auto
  show ?thesis
    using assms(6) v v[of "seg_copied h + i" for i] unfolding rounded_segment_def by (simp add: seg_facts(8)[OF assms(4)] add.assoc)
qed

lemma all_pages_finite: "finite (all_pages hs)"
  by (simp add: all_pages_def seg_pages_def)

lemma load_segments_ok:
  assumes "syms_ok syms" "healthy syms s" "live s pid" "image s ph (56 * n)"
    and "loadable (image s) eh (segments_at (k_mem s) ph n)"
    and "\<And>v. v \<in> all_pages (segments_at (k_mem s) ph n) \<Longrightarrow> slot_of s pid v AND PTE_P = 0"
    and "card (all_pages (segments_at (k_mem s) ph n)) \<le> card (free_pages s)"
  shows "\<exists>t. load_segments n syms pid eh ph s = Inr (0, t) \<and> extends syms pid (all_pages (segments_at (k_mem s) ph n)) s t \<and>
    (\<forall>h \<in> set (segments_at (k_mem s) ph n). rounded_segment t pid h (\<lambda>i. k_mem s (eh + p_offset h + of_nat i)))"
  using assms(2-)
proof (induction n arbitrary: ph s)
  case 0
  then show ?case using extends_refl by (simp add: segments_at_def all_pages_def)
next
  case (Suc n)
  let ?h = "read_elf_program (k_mem s) ph" and ?hs = "segments_at (k_mem s) (ph + 56) n"
  have rest: "image s (ph + 56) (56 * n)" using image_sub[OF Suc.prems(3), of 56 "56 * n"] by simp
  show ?case
  proof (cases "p_type ?h = 1")
    case False
    then have eq: "segments_at (k_mem s) ph (Suc n) = ?hs" by (simp add: segments_at_Suc Let_def)
    show ?thesis using Suc.IH[OF Suc.prems(1,2) rest] Suc.prems(4-6) False unfolding eq by (simp add: Let_def)
  next
    case True
    then have eq: "segments_at (k_mem s) ph (Suc n) = ?h # ?hs" by (simp add: segments_at_Suc Let_def)
    have inv: "kinv syms s" using Suc.prems(1) by (simp add: healthy_def)
    have lo: "seg_ok ?h" "image s (eh + p_offset ?h) (seg_copied ?h)" "loadable (image s) eh ?hs" and dj: "seg_pages ?h \<inter> all_pages ?hs = {}"
      using Suc.prems(4) unfolding eq by (simp_all add: loadable_def seg_aligned)
    have ap: "all_pages (?h # ?hs) = seg_pages ?h \<union> all_pages ?hs" by (simp add: all_pages_def)
    have fin: "finite (seg_pages ?h)" by (simp add: seg_pages_def)
    have cd: "card (all_pages (?h # ?hs)) = card (seg_pages ?h) + card (all_pages ?hs)"
      unfolding ap by (rule card_Un_disjoint[OF fin all_pages_finite dj])
    have room: "card (seg_pages ?h) \<le> card (free_pages s)" using Suc.prems(6) cd unfolding eq by simp
    obtain t1 where t1: "program_load_segment syms pid ?h (eh + p_offset ?h) s = Inr (0, t1)" "extends syms pid (seg_pages ?h) s t1"
      "rounded_segment t1 pid ?h (\<lambda>i. k_mem s (eh + p_offset ?h + of_nat i))"
      using program_load_segment_ok[OF assms(1) Suc.prems(1,2) lo(1) _ room lo(2)] Suc.prems(5) unfolding eq ap by auto
    note e1 = extendsD[OF t1(2)] and im1 = image_extends[OF inv Suc.prems(2) t1(2)]
    have l1: "live t1 pid" using e1(10) Suc.prems(2) by simp
    have inv1: "kinv syms t1" using e1(1) by (simp add: healthy_def)
    have hs: "segments_at (k_mem t1) (ph + 56) n = ?hs" by (rule segments_at_cong) (rule im1(2)[OF rest])
    have lo1: "loadable (image t1) eh (segments_at (k_mem t1) (ph + 56) n)" using lo(3) im1(1) unfolding hs by (auto simp: loadable_def list_all_iff)
    have ab1: "slot_of t1 pid v AND PTE_P = 0" if "v \<in> all_pages (segments_at (k_mem t1) (ph + 56) n)" for v
    proof -
      from that have "v \<in> all_pages ?hs" by (simp only: hs)
      then have "v \<notin> seg_pages ?h" "slot_of s pid v AND PTE_P = 0" using dj Suc.prems(5)[of v] unfolding eq ap by blast+
      then show ?thesis using e1(4) by simp
    qed
    have "card (all_pages (segments_at (k_mem t1) (ph + 56) n)) \<le> card (free_pages t1)" using e1(7) Suc.prems(6) cd unfolding hs eq by simp
    from Suc.IH[OF e1(1) l1 im1(1)[OF rest] lo1 ab1 this]
    obtain t where t: "load_segments n syms pid eh (ph + 56) t1 = Inr (0, t)" "extends syms pid (all_pages ?hs) t1 t"
      "\<forall>h \<in> set ?hs. rounded_segment t pid h (\<lambda>i. k_mem t1 (eh + p_offset h + of_nat i))" unfolding hs by blast
    have "rounded_segment t pid h (\<lambda>i. k_mem s (eh + p_offset h + of_nat i))" if "h \<in> set ?hs" for h
      using t(3) that im1(2)[of "eh + p_offset h" "unat (p_filesz h)"] lo(3) by (auto simp: rounded_segment_def loadable_def list_all_iff seg_aligned)
    moreover have "rounded_segment t pid ?h (\<lambda>i. k_mem s (eh + p_offset ?h + of_nat i))"
      by (rule rounded_segment_extends[OF inv1 l1 t(2) lo(1) dj t1(3)])
    moreover have "load_segments (Suc n) syms pid eh ph s = Inr (0, t)" using True t1(1) t(1) by (simp add: Let_def)
    ultimately show ?thesis
      unfolding eq ap using extends_trans[OF t1(2) t(2) dj fin all_pages_finite] by auto
  qed
qed

end
