(* ===== verification/Kernel_Start.thy ===== *)
theory Kernel_Start
  imports Kernel_Load
begin

text \<open>
  Starting the system. \<open>program_load\<close> and \<open>process_setup\<close> on a healthy kernel make a runnable process that
  holds the program byte for byte; \<open>kernel\<close> ends in a state from which the machine runs, for every
  command line that \<open>kernel\<close> distinguishes.
\<close>

unbundle bit_operations_syntax

section \<open>Programs in memory\<close>

definition program_segments :: "memory \<Rightarrow> 64 word \<Rightarrow> elf_program list" where
  "program_segments m eh =
     (let hdr = read_elf_header m eh in segments_at m (eh + e_phoff hdr) (unat (e_phnum hdr)))"

text \<open>An ELF image at \<open>eh\<close> whose headers and data lie in ranges that satisfy \<open>I\<close>.\<close>

definition program_in :: "(64 word \<Rightarrow> nat \<Rightarrow> bool) \<Rightarrow> memory \<Rightarrow> 64 word \<Rightarrow> bool" where
  "program_in I m eh \<longleftrightarrow>
     (let hdr = read_elf_header m eh in
      I eh 64 \<and> e_magic hdr = 0x464C457F \<and> I (eh + e_phoff hdr) (56 * unat (e_phnum hdr)) \<and>
      loadable I eh (program_segments m eh))"

definition keeps_ranges ::
  "(64 word \<Rightarrow> nat \<Rightarrow> bool) \<Rightarrow> memory \<Rightarrow> (64 word \<Rightarrow> nat \<Rightarrow> bool) \<Rightarrow> memory \<Rightarrow> bool" where
  "keeps_ranges I m J m' \<longleftrightarrow> (\<forall>a n. I a n \<longrightarrow> J a n \<and> (\<forall>i < n. m' (a + of_nat i) = m (a + of_nat i)))"

lemma program_kept:
  assumes "keeps_ranges I m J m'" "program_in I m eh"
  shows "program_in J m' eh" "read_elf_header m' eh = read_elf_header m eh" "program_segments m' eh = program_segments m eh"
    "h \<in> set (program_segments m eh) \<Longrightarrow> i < unat (p_filesz h) \<Longrightarrow> m' (eh + p_offset h + of_nat i) = m (eh + p_offset h + of_nat i)"
proof -
  note k = assms(1)[unfolded keeps_ranges_def, rule_format] and p = assms(2)[unfolded program_in_def Let_def]
  show h: "read_elf_header m' eh = read_elf_header m eh" using k[of eh 64] p by (intro read_elf_header_cong) blast
  show s: "program_segments m' eh = program_segments m eh"
    unfolding program_segments_def h Let_def using k p by (intro segments_at_cong) blast
  show "program_in J m' eh" using k p unfolding program_in_def h s Let_def by (simp add: loadable_def list_all_iff)
  show "m' (eh + p_offset h + of_nat i) = m (eh + p_offset h + of_nat i)" if "h \<in> set (program_segments m eh)" "i < unat (p_filesz h)"
  proof -
    have "I (eh + p_offset h) (unat (p_filesz h))" using p that(1) by (simp add: loadable_def list_all_iff)
    then show ?thesis using k that(2) by blast
  qed
qed

abbreviation program_at :: "kernel_state \<Rightarrow> 64 word \<Rightarrow> bool" where
  "program_at s \<equiv> program_in (image s) (k_mem s)"

abbreviation keeps_images :: "kernel_state \<Rightarrow> kernel_state \<Rightarrow> bool" where
  "keeps_images s t \<equiv> keeps_ranges (image s) (k_mem s) (image t) (k_mem t)"

lemma keeps_images_extends: "kinv syms s \<Longrightarrow> live s pid \<Longrightarrow> extends syms pid A s t \<Longrightarrow> keeps_images s t"
  unfolding keeps_ranges_def using image_extends by blast

lemma keeps_images_trans: "keeps_images s t \<Longrightarrow> keeps_images t u \<Longrightarrow> keeps_images s u"
  unfolding keeps_ranges_def by metis

lemma keeps_images_upd: "k_mem t = k_mem s \<Longrightarrow> k_pageinfo t = k_pageinfo s \<Longrightarrow> keeps_images s t"
  by (simp add: keeps_ranges_def image_def)

lemma keeps_images_joined:
  assumes "joined syms c s t"
  shows "keeps_images s t"
  unfolding keeps_ranges_def
proof (intro allI impI)
  fix a n assume im: "image s a n"
  have same: "k_pageinfo t (PAGENUMBER (PTE_ADDR (a + of_nat i))) = k_pageinfo s (PAGENUMBER (PTE_ADDR (a + of_nat i))) \<and>
      k_mem t (a + of_nat i) = k_mem s (a + of_nat i)" if i: "i < n" for i
  proof -
    let ?P = "PTE_ADDR (a + of_nat i)"
    have r: "pi_refcount (k_pageinfo s (PAGENUMBER ?P)) \<noteq> 0" using im i by (simp add: image_def Let_def)
    note j = joined_info[OF assms r]
    have "?P \<notin> set (pt_pages (k_mem t) (ptab t c))" using j(2) by (auto simp: page_nums_def)
    then have "same_page (k_mem s) (k_mem t) ?P" using assms by (simp add: joined_def)
    then have "k_mem t (?P + PAGEOFFSET (a + of_nat i)) = k_mem s (?P + PAGEOFFSET (a + of_nat i))"
      using same_page_at[OF _ PTE_ADDR_aligned PAGEOFFSET_less] by blast
    moreover have "?P + PAGEOFFSET (a + of_nat i) = a + of_nat i" unfolding PTE_ADDR_def PAGEOFFSET_def by (rule addr_plus_off)
    ultimately show ?thesis using j(1) by simp
  qed
  then show "image t a n \<and> (\<forall>i < n. k_mem t (a + of_nat i) = k_mem s (a + of_nat i))"
    using im unfolding image_def Let_def by simp
qed

lemma program_load_ok:
  assumes ok: "syms_ok syms" and h: "healthy syms s" and l: "live s pid" and n: "0 \<le> prog" "prog < 7"
    and p: "program_at s (images prog)"
    and absent: "\<And>v. v \<in> all_pages (program_segments (k_mem s) (images prog)) \<Longrightarrow> slot_of s pid v AND PTE_P = 0"
    and room: "card (all_pages (program_segments (k_mem s) (images prog))) \<le> card (free_pages s)"
  defines "hdr \<equiv> read_elf_header (k_mem s) (images prog)"
  shows "\<exists>t. program_load syms images pid prog s = Inr (0, upd_regs pid (\<lambda>g. g\<lparr>reg_rip := e_entry hdr\<rparr>) t) \<and>
    extends syms pid (all_pages (program_segments (k_mem s) (images prog))) s t \<and>
    (\<forall>h \<in> set (program_segments (k_mem s) (images prog)). rounded_segment t pid h (\<lambda>i. k_mem s (images prog + p_offset h + of_nat i)))"
proof -
  let ?e = "images prog"
  note p' = p[unfolded program_in_def Let_def, folded hdr_def]
  have sg: "program_segments (k_mem s) ?e = segments_at (k_mem s) (?e + e_phoff hdr) (unat (e_phnum hdr))"
    by (simp add: program_segments_def hdr_def Let_def)
  have inv: "kinv syms s" using h by (simp add: healthy_def)
  have im: "image s (?e + e_phoff hdr) (56 * unat (e_phnum hdr))" using p' by blast
  obtain t where t: "load_segments (unat (e_phnum hdr)) syms pid ?e (?e + e_phoff hdr) s = Inr (0, t)"
    "extends syms pid (all_pages (program_segments (k_mem s) ?e)) s t"
    "\<forall>h \<in> set (program_segments (k_mem s) ?e). rounded_segment t pid h (\<lambda>i. k_mem s (?e + p_offset h + of_nat i))"
    using load_segments_ok[OF ok h l im, folded sg] p' absent room by blast
  note k = program_kept(2)[OF keeps_images_extends[OF inv l t(2)] p]
  have "program_load syms images pid prog s = Inr (0, upd_regs pid (\<lambda>g. g\<lparr>reg_rip := e_entry hdr\<rparr>) t)"
    unfolding program_load_def Let_def hdr_def[symmetric] using t(1) k n p' by (simp add: hdr_def)
  with t show ?thesis by blast
qed

section \<open>Setting up a process\<close>

lemma map_state_Inr: "map_state g r = Inr (a, t) \<Longrightarrow> \<exists>s. r = Inr (a, s) \<and> g s = t"
  by (cases r) (auto simp: map_state_def)

lemma view_kept:
  assumes "kinv syms s" "live s q" "kinv syms t" "live t q" "256 \<le> vpn x" "vpn x < 1024"
    and "slot_of t q (vpn x) = slot_of s q (vpn x)"
    and "slot_of s q (vpn x) AND PTE_P \<noteq> 0 \<Longrightarrow> same_page (k_mem s) (k_mem t) (PTE_ADDR (slot_of s q (vpn x)))"
  shows "view_at t q x = view_at s q x"
  unfolding view_at_slot[OF assms(1,2,5,6)] view_at_slot[OF assms(3-6)] assms(7)
  using same_page_at[OF assms(8) PTE_ADDR_aligned PAGEOFFSET_less] by auto

lemma view_joined:
  assumes "kinv syms s" "joined syms c s t" "live s q" "256 \<le> vpn x" "vpn x < 1024"
  shows "view_at t q x = view_at s q x"
proof (rule view_kept[OF assms(1,3) joined_kinv[OF assms(1,2)] _ assms(4,5)])
  show "live t q" using joined_live[OF assms(2)] assms(3) by simp
  show "slot_of t q (vpn x) = slot_of s q (vpn x)" using joined_views(2)[OF assms(1-3)] by simp
  assume "slot_of s q (vpn x) AND PTE_P \<noteq> 0"
  note us = user_slot_self[OF assms(4,5) this]
  from joined_info(2)[OF assms(2) user_page_info(2)[OF assms(1,3) us]]
  have "PTE_ADDR (slot_of s q (vpn x)) \<notin> set (pt_pages (k_mem t) (ptab t c))" by (auto simp: page_nums_def)
  then show "same_page (k_mem s) (k_mem t) (PTE_ADDR (slot_of s q (vpn x)))" using assms(2) by (simp add: joined_def)
qed

lemma view_extends_other:
  assumes "kinv syms s" "live s pid" "extends syms pid A s t" "live s q" "q \<noteq> pid" "256 \<le> vpn x" "vpn x < 1024"
  shows "view_at t q x = view_at s q x"
proof -
  note e = extendsD[OF assms(3)]
  show ?thesis
  proof (rule view_kept[OF assms(1,4) _ _ assms(6,7)])
    show "kinv syms t" "live t q" using e(1,10) assms(4) by (simp_all add: healthy_def)
    show "slot_of t q (vpn x) = slot_of s q (vpn x)" using e(5)[OF assms(4,5)] by simp
    assume "slot_of s q (vpn x) AND PTE_P \<noteq> 0"
    note us = user_slot_self[OF assms(6,7) this]
    show "same_page (k_mem s) (k_mem t) (PTE_ADDR (slot_of s q (vpn x)))"
      by (rule e(9)[OF user_page_in_use[OF assms(1,4) us] user_page_no_table[OF assms(1,4) us assms(2)]])
  qed
qed

text \<open>
  What \<open>process_setup\<close> leaves of the rest of the system, and the process it makes: the registers, the
  segments of the program, and a writable page for the stack.
\<close>

definition start_registers :: "64 word \<Rightarrow> x86_64_registers" where
  "start_registers entry = zero_registers\<lparr>reg_cs := 0x13, reg_fs := 0x23, reg_gs := 0x23, reg_ss := 0x23,
     reg_rflags := 0x200, reg_rip := entry, reg_rsp := MEMSIZE_VIRTUAL\<rparr>"

text \<open>
  A byte of a process with its permissions P, W and U (the flags A and D, which the processor sets, do not matter), and a segment: the file contents from
  the address of the segment on, and zeros behind them up to its size in memory.
\<close>

definition maps_byte :: "kernel_state \<Rightarrow> int \<Rightarrow> 64 word \<Rightarrow> 8 word \<Rightarrow> int \<Rightarrow> bool" where
  "maps_byte t pid va b perm \<longleftrightarrow> (\<exists>f. view_at t pid va = Some (b, f) \<and> f AND 7 = perm)"

definition holds_segment :: "kernel_state \<Rightarrow> int \<Rightarrow> elf_program \<Rightarrow> (nat \<Rightarrow> 8 word) \<Rightarrow> bool" where
  "holds_segment t pid ph f \<longleftrightarrow>
     (\<forall>i < unat (p_memsz ph). maps_byte t pid (p_va ph + of_nat i) (if i < unat (p_filesz ph) then f i else 0) (seg_perm ph))"

definition started :: "memory \<Rightarrow> 64 word \<Rightarrow> kernel_state \<Rightarrow> int \<Rightarrow> bool" where
  "started m eh t pid \<longleftrightarrow>
     p_state (k_processes t pid) = P_RUNNABLE \<and>
     p_registers (k_processes t pid) = start_registers (e_entry (read_elf_header m eh)) \<and>
     (\<forall>h \<in> set (program_segments m eh). holds_segment t pid h (\<lambda>i. m (eh + p_offset h + of_nat i))) \<and>
     (\<forall>va. MEMSIZE_VIRTUAL - PAGESIZE \<le> va \<longrightarrow> va < MEMSIZE_VIRTUAL \<longrightarrow> (\<exists>b. maps_byte t pid va b 7))"

definition others_kept :: "int set \<Rightarrow> kernel_state \<Rightarrow> kernel_state \<Rightarrow> bool" where
  "others_kept A s t \<longleftrightarrow>
     k_current t = k_current s \<and> (\<forall>q. q \<notin> A \<longrightarrow> k_processes t q = k_processes s q) \<and> keeps_images s t \<and>
     (\<forall>q x. live s q \<longrightarrow> q \<notin> A \<longrightarrow> 256 \<le> vpn x \<longrightarrow> vpn x < 1024 \<longrightarrow> view_at t q x = view_at s q x)"

lemma stack_page:
  assumes "MEMSIZE_VIRTUAL - PAGESIZE \<le> va" "va < MEMSIZE_VIRTUAL"
  shows "vpn va = 767"
proof -
  have u: "0x2FF000 \<le> unat va" "unat va < 0x300000" using assms by (simp_all add: word_le_nat_alt word_less_nat_alt)
  then have "unat va div 4096 = 767" by (intro div_nat_eqI) simp_all
  then show ?thesis using u by (simp add: vpn_low)
qed

lemma seg_pages_range: "seg_ok h \<Longrightarrow> v \<in> seg_pages h \<Longrightarrow> 256 \<le> v \<and> v < 767"
  using seg_facts(3,5)[of h] by (auto simp: seg_pages_def)

lemma program_pages_range:
  assumes "program_in I m eh" "v \<in> all_pages (program_segments m eh)"
  shows "256 \<le> v \<and> v < 767"
  using assms seg_pages_range unfolding program_in_def Let_def loadable_def list_all_iff all_pages_def by blast

lemma page_alloc_grown:
  assumes "healthy syms s" "live s pid" "free_pages s \<noteq> {}" "slot_of s pid 767 AND PTE_P = 0"
  shows "\<exists>t. sys_page_alloc_find_free (ptab s pid) pid (MEMSIZE_VIRTUAL - PAGESIZE) s = Inr (0, t) \<and> grown syms pid {767} s t"
proof -
  have inv: "kinv syms s" using assms(1) by (simp add: healthy_def)
  have v: "vpn (MEMSIZE_VIRTUAL - PAGESIZE) = 767" by (rule stack_page) simp_all
  have al: "page_aligned (MEMSIZE_VIRTUAL - PAGESIZE)" by (simp add: page_aligned_nat)
  have "sys_page_alloc_find_free (ptab s pid) pid (MEMSIZE_VIRTUAL - PAGESIZE) s =
      Inr (0, with_page pid 767 (Min (free_pages s)) (PAGEADDRESS (Min (free_pages s)) + 7) s)"
    using page_alloc_state[OF inv assms(2) _ al assms(3)] v by (simp add: with_page_def)
  then show ?thesis using grown_page[OF assms(1,2) _ _ assms(3,4)] by simp
qed

lemma rounded_segment_view:
  assumes "\<And>i. i < seg_copied h + seg_cleared h \<Longrightarrow> view_at t pid (seg_base h + of_nat i) = view_at s pid (seg_base h + of_nat i)"
    and "seg_ok h" "rounded_segment s pid h f"
  shows "rounded_segment t pid h f"
  using assms(3) assms(1) assms(1)[of "seg_copied h + i" for i]
  unfolding rounded_segment_def by (simp add: seg_facts(8)[OF assms(2)] add.assoc)

lemma segment_at_va:
  assumes "seg_ok h" "page_aligned (p_va h)" "rounded_segment t pid h f"
  shows "holds_segment t pid h f"
  unfolding holds_segment_def
proof (intro allI impI)
  fix i assume i: "i < unat (p_memsz h)"
  note a = seg_aligned[OF assms(2)] and r = assms(3)[unfolded rounded_segment_def]
  have p: "seg_perm h AND 7 = seg_perm h" by (simp add: seg_perm_def)
  show "maps_byte t pid (p_va h + of_nat i) (if i < unat (p_filesz h) then f i else 0) (seg_perm h)"
  proof (cases "i < unat (p_filesz h)")
    case True
    then show ?thesis using r p by (simp add: a maps_byte_def)
  next
    case False
    define k where "k = i - unat (p_filesz h)"
    have k: "i = unat (p_filesz h) + k" using False by (simp add: k_def)
    have "unat (p_memsz h) = unat (p_filesz h) + seg_cleared h"
      using assms(1) by (simp add: seg_cleared_def seg_mem_end_def seg_file_end_def seg_ok_def unat_sub word_le_nat_alt)
    then have "view_at t pid (seg_file_end h + of_nat k) = Some (0, seg_perm h)" using r i k by simp
    then show ?thesis using False p by (simp add: maps_byte_def k seg_file_end_def add.assoc)
  qed
qed

lemma seg_va_vpn:
  assumes "seg_ok h" "i < unat (p_memsz h)"
  shows "256 \<le> vpn (p_va h + of_nat i)" "vpn (p_va h + of_nat i) < 1024" "unat (p_va h + of_nat i) < 2 ^ 48"
proof -
  have u: "unat (p_va h + of_nat i) = unat (p_va h) + i" using assms by (intro unat_range[of _ "unat (p_memsz h)"]) (simp_all add: seg_ok_def)
  then have r: "0x100000 \<le> unat (p_va h + of_nat i)" "unat (p_va h + of_nat i) < 0x400000" using assms by (simp_all add: seg_ok_def)
  then show "unat (p_va h + of_nat i) < 2 ^ 48" by simp
  then show "256 \<le> vpn (p_va h + of_nat i)" "vpn (p_va h + of_nat i) < 1024"
    using r by (simp_all add: vpn_low less_eq_div_iff_mult_less_eq div_less_iff_less_mult)
qed

lemma view_upd: "k_mem t = k_mem s \<Longrightarrow> ptab t q = ptab s q \<Longrightarrow> view_at t q x = view_at s q x"
  by (simp add: view_at_def Let_def)

text \<open>The page table and the descriptor, on a state in which the process counts as live already.\<close>

lemma setup_table:
  assumes h: "healthy syms s" and c: "1 \<le> pid" "pid < NPROC" "p_state (k_processes s pid) = P_FREE" and room: "5 \<le> card (free_pages s)"
  obtains L s1 where "duplicate_pagetable (sym_kernel_pagetables syms) pid (upd_proc pid (process_init 0) s) = Inr (L, s1)"
    "joined syms pid s (revive pid (upd_proc pid (\<lambda>p. p\<lparr>p_pagetable := L\<rparr>) s1))"
    "card (free_pages s) \<le> card (free_pages s1) + 5" "k_current s1 = k_current s"
    "k_processes s1 = (k_processes s)(pid := process_init 0 (k_processes s pid))"
proof -
  have inv: "kinv syms s" using h by (simp add: healthy_def)
  have nl: "\<not> live s pid" using c(3) by (simp add: live_def)
  obtain L s1 where d: "duplicate_pagetable (sym_kernel_pagetables syms) pid (upd_proc pid (process_init 0) s) = Inr (L, s1)"
    "s1 = (upd_proc pid (process_init 0) s)\<lparr>k_mem := k_mem s1, k_pageinfo := k_pageinfo s1\<rparr>"
    "free_pages s1 = free_pages s - page_nums (k_mem s1) L" "card (page_nums (k_mem s1) L) = 5"
    "\<And>s'. k_mem s' = k_mem s1 \<Longrightarrow> k_pageinfo s' = k_pageinfo s1 \<Longrightarrow> (\<forall>p. p \<noteq> pid \<longrightarrow> k_processes s' p = k_processes s p) \<Longrightarrow>
       p_pid (k_processes s' pid) = pid \<Longrightarrow> p_state (k_processes s' pid) \<noteq> P_FREE \<Longrightarrow> ptab s' pid = L \<Longrightarrow> joined syms pid s s'"
    using duplicate_joined[OF inv c(1,2) nl kernel_source[OF inv] room, of "process_init 0"] by metis
  have p: "k_processes s1 = (k_processes s)(pid := process_init 0 (k_processes s pid))" by (subst d(2)) simp
  have pp: "p_pid (k_processes s pid) = pid" using kinvD(1)[OF inv] c by (simp add: kinv_procs_def)
  have "joined syms pid s (revive pid (upd_proc pid (\<lambda>p. p\<lparr>p_pagetable := L\<rparr>) s1))"
    by (rule d(5)) (simp_all add: revive_def p pp process_init_def Let_def)
  moreover have "k_current s1 = k_current s" by (subst d(2)) simp
  moreover have "card (free_pages s) \<le> card (free_pages s1) + 5"
    using d(3,4) diff_card_le_card_Diff[of "page_nums (k_mem s1) L" "free_pages s"] by (simp add: page_nums_def)
  ultimately show thesis using that d(1) p by blast
qed

text \<open>\<open>process_setup\<close>, read off the state in which the process is live already.\<close>

lemma process_setup_revived:
  assumes "duplicate_pagetable (sym_kernel_pagetables syms) pid (upd_proc pid (process_init 0) s) = Inr (L, s1)"
    and "program_load syms images pid prog (revive pid (upd_proc pid (\<lambda>p. p\<lparr>p_pagetable := L\<rparr>) s1)) = Inr (0, g)"
    and "u = upd_regs pid (\<lambda>r. r\<lparr>reg_rsp := MEMSIZE_VIRTUAL\<rparr>) g"
    and "sys_page_alloc_find_free (ptab u pid) pid (MEMSIZE_VIRTUAL - PAGESIZE) u = Inr (r, t)"
  shows "process_setup syms images pid prog s = Inr t"
proof -
  let ?f = "upd_regs pid (\<lambda>r. r\<lparr>reg_rsp := MEMSIZE_VIRTUAL\<rparr>)"
  obtain s3 where s3: "program_load syms images pid prog (upd_proc pid (\<lambda>p. p\<lparr>p_pagetable := L\<rparr>) s1) = Inr (0, s3)" "revive pid s3 = g"
    using map_state_Inr[OF assms(2)[unfolded program_load_revive]] by blast
  have u: "u = revive pid (?f s3)" unfolding assms(3) s3(2)[symmetric] by (rule revive_upd(4))
  obtain s4 where s4: "sys_page_alloc_find_free (ptab (?f s3) pid) pid (MEMSIZE_VIRTUAL - PAGESIZE) (?f s3) = Inr (r, s4)" "revive pid s4 = t"
    using map_state_Inr[OF assms(4)[unfolded u page_alloc_revive revive_simps]] by blast
  have sp: "reg_rsp (p_registers (k_processes (?f s3) pid)) = MEMSIZE_VIRTUAL" by (simp add: upd_regs_def)
  show ?thesis
    unfolding process_setup_def assms(1) bindR_simps prod.case s3(1) Let_def sp s4(1) using s4(2) by (simp add: revive_def)
qed

lemma setup_frame:
  assumes "healthy syms t1" "u = upd_regs pid f (upd_regs pid g t1)"
  shows "healthy syms u" "kinv syms u" "slots (k_mem u) (ptab u q) = slot_of t1 q" "view_at u q x = view_at t1 q x"
    "free_pages u = free_pages t1" "live u q \<longleftrightarrow> live t1 q" "keeps_images t1 u"
proof -
  show h: "healthy syms u" unfolding assms(2) by (intro framed_healthy[OF framed_healthy[OF assms(1) framed_upd(5)] framed_upd(5)])
  then show "kinv syms u" by (simp add: healthy_def)
  show "view_at u q x = view_at t1 q x" "keeps_images t1 u" unfolding assms(2) by (rule view_upd keeps_images_upd; simp)+
qed (simp_all add: assms(2) free_pages_def live_def)

lemma stack_view:
  assumes "kinv syms t" "live t pid" "PTE_FLAGS (slot_of t pid 767) = 7" "MEMSIZE_VIRTUAL - PAGESIZE \<le> va" "va < MEMSIZE_VIRTUAL"
  shows "\<exists>b. view_at t pid va = Some (b, 7)"
proof -
  have v: "vpn va = 767" by (rule stack_page[OF assms(4,5)])
  have "slot_of t pid 767 AND PTE_P \<noteq> 0" using assms(3) PTE_FLAGS_flag[of 1 "slot_of t pid 767"] by auto
  then show ?thesis using view_at_slot[OF assms(1,2), of va] v assms(3) by simp
qed

lemma process_setup_ok:
  assumes ok: "syms_ok syms" and h: "healthy syms s" and c: "1 \<le> pid" "pid < NPROC" "p_state (k_processes s pid) = P_FREE"
    and n: "0 \<le> prog" "prog < 7" and p: "program_at s (images prog)"
    and room: "6 + card (all_pages (program_segments (k_mem s) (images prog))) \<le> card (free_pages s)"
  shows "\<exists>t. process_setup syms images pid prog s = Inr t \<and> healthy syms t \<and> started (k_mem s) (images prog) t pid \<and>
    others_kept {pid} s t \<and> card (free_pages s) \<le> card (free_pages t) + 6 + card (all_pages (program_segments (k_mem s) (images prog)))"
proof -
  let ?e = "images prog" and ?S = "program_segments (k_mem s) (images prog)"
  let ?entry = "e_entry (read_elf_header (k_mem s) ?e)"
  have inv: "kinv syms s" and acc: "accounted s" using h by (simp_all add: healthy_def)
  obtain L s1 where d: "duplicate_pagetable (sym_kernel_pagetables syms) pid (upd_proc pid (process_init 0) s) = Inr (L, s1)"
    "joined syms pid s (revive pid (upd_proc pid (\<lambda>p. p\<lparr>p_pagetable := L\<rparr>) s1))"
    "card (free_pages s) \<le> card (free_pages s1) + 5" "k_current s1 = k_current s"
    "k_processes s1 = (k_processes s)(pid := process_init 0 (k_processes s pid))"
    by (rule setup_table[OF h c]) (use room in simp_all)
  define g where "g = revive pid (upd_proc pid (\<lambda>p. p\<lparr>p_pagetable := L\<rparr>) s1)"
  have j: "joined syms pid s g" using d(2) by (simp add: g_def)
  have hg: "healthy syms g" using joined_kinv[OF inv j] joined_accounted[OF inv j acc] by (simp add: healthy_def)
  then have ig: "kinv syms g" by (simp add: healthy_def)
  have lg: "live g pid" using joined_live[OF j] by simp
  have fg: "free_pages g = free_pages s1" by (simp add: g_def free_pages_def)
  note k = program_kept[OF keeps_images_joined[OF j] p]
  have z: "slot_of g pid v = 0" if "256 \<le> v" for v using j that by (simp add: joined_def)
  have ab: "slot_of g pid v AND PTE_P = 0" if "v \<in> all_pages ?S" for v using z program_pages_range[OF p that] by simp
  have rg: "card (all_pages ?S) \<le> card (free_pages g)" using room d(3) fg by simp
  obtain t1 where t1: "program_load syms images pid prog g = Inr (0, upd_regs pid (\<lambda>r. r\<lparr>reg_rip := ?entry\<rparr>) t1)"
    "extends syms pid (all_pages ?S) g t1" "\<forall>h \<in> set ?S. rounded_segment t1 pid h (\<lambda>i. k_mem g (?e + p_offset h + of_nat i))"
    using program_load_ok[where images = images, OF ok hg lg n k(1), unfolded k(2,3), OF ab rg] by blast
  note e1 = extendsD[OF t1(2)]
  define u where "u = upd_regs pid (\<lambda>r. r\<lparr>reg_rsp := MEMSIZE_VIRTUAL\<rparr>) (upd_regs pid (\<lambda>r. r\<lparr>reg_rip := ?entry\<rparr>) t1)"
  note fu = setup_frame[OF e1(1) u_def]
  have lu: "live u q \<longleftrightarrow> live s q \<or> q = pid" for q using fu(6) e1(10) joined_live[OF j] by simp
  then have lup: "live u pid" by blast
  have "767 \<notin> all_pages ?S" using program_pages_range[OF p] by fastforce
  then have z7: "slot_of u pid 767 AND PTE_P = 0" unfolding fu(3) using e1(4) z by simp
  have "1 \<le> card (free_pages u)" using e1(7) room d(3) unfolding fu(5) fg by linarith
  then have "free_pages u \<noteq> {}" by auto
  from page_alloc_grown[OF fu(1) lup this z7]
  obtain t where t: "sys_page_alloc_find_free (ptab u pid) pid (MEMSIZE_VIRTUAL - PAGESIZE) u = Inr (0, t)" "grown syms pid {767} u t" by blast
  note ex = conjunct1[OF t(2)[unfolded grown_def]]
  note e = extendsD[OF ex]
  have run: "process_setup syms images pid prog s = Inr t"
    by (rule process_setup_revived[OF d(1) t1(1)[unfolded g_def] u_def t(1)])
  have pr: "k_processes t = (k_processes s)(pid := (k_processes s pid)\<lparr>p_pagetable := L, p_state := P_RUNNABLE, p_registers := start_registers ?entry\<rparr>)"
    unfolding e(2) by (simp add: u_def upd_regs_def e1(2) g_def revive_def d(5) process_init_def start_registers_def Let_def)
  have cr: "k_current t = k_current s" using e(3) e1(3) d(4) by (simp add: u_def g_def)
  have kim: "keeps_images s t"
    by (rule keeps_images_trans[OF keeps_images_trans[OF keeps_images_joined[OF j] keeps_images_extends[OF ig lg t1(2)]]
        keeps_images_trans[OF fu(7) keeps_images_extends[OF fu(2) lup ex]]])
  have segs: "holds_segment t pid h (\<lambda>i. k_mem s (?e + p_offset h + of_nat i))" if hs: "h \<in> set ?S" for h
  proof -
    have sg: "seg_ok h" "page_aligned (p_va h)" using p hs by (simp_all add: program_in_def Let_def loadable_def list_all_iff)
    have "rounded_segment t1 pid h (\<lambda>i. k_mem s (?e + p_offset h + of_nat i))"
      using t1(3) hs k(4)[OF hs] seg_aligned(2)[OF sg(2)] by (auto simp: rounded_segment_def)
    then have "rounded_segment u pid h (\<lambda>i. k_mem s (?e + p_offset h + of_nat i))" by (rule rounded_segment_view[OF fu(4) sg(1)])
    moreover have "seg_pages h \<inter> {767} = {}" using seg_pages_range[OF sg(1)] by fastforce
    ultimately show ?thesis using segment_at_va[OF sg] rounded_segment_extends[OF fu(2) lup ex sg(1)] by blast
  qed
  have ov: "view_at t q x = view_at s q x" if "live s q" "q \<noteq> pid" "256 \<le> vpn x" "vpn x < 1024" for q x
  proof -
    have "live g q" "live u q" using that joined_live[OF j] lu by simp_all
    then show ?thesis
      using view_joined[OF inv j that(1,3,4)] view_extends_other[OF ig lg t1(2) _ that(2-4)] view_extends_other[OF fu(2) lup ex _ that(2-4)] fu(4) by simp
  qed
  have "card (free_pages s) \<le> card (free_pages t) + 6 + card (all_pages ?S)"
    using d(3) e1(7) e(7) unfolding fg fu(5) by simp
  moreover have "started (k_mem s) ?e t pid"
  proof -
    have it: "kinv syms t" "live t pid" "PTE_FLAGS (slot_of t pid 767) = 7" using e(1,10) lup t(2) by (simp_all add: healthy_def grown_def)
    have "\<exists>b. maps_byte t pid va b 7" if va: "MEMSIZE_VIRTUAL - PAGESIZE \<le> va" "va < MEMSIZE_VIRTUAL" for va
    proof -
      obtain b where "view_at t pid va = Some (b, 7)" using stack_view[OF it va] by blast
      then have "maps_byte t pid va b 7" by (simp add: maps_byte_def)
      then show ?thesis ..
    qed
    then show ?thesis unfolding started_def using pr segs by simp
  qed
  moreover have "others_kept {pid} s t" using cr pr kim ov by (simp add: others_kept_def)
  ultimately show ?thesis using run e(1) by blast
qed


lemma others_kept_trans:
  assumes "others_kept A s t" "others_kept B t u"
  shows "others_kept (A \<union> B) s u"
proof -
  note a = assms(1)[unfolded others_kept_def] and b = assms(2)[unfolded others_kept_def]
  have "view_at u q x = view_at s q x" if h: "live s q" "q \<notin> A \<union> B" "256 \<le> vpn x" "vpn x < 1024" for q x
  proof -
    have "live t q" using a h(1,2) by (simp add: live_def)
    then show ?thesis using a b h by simp
  qed
  moreover have "keeps_images s u" using a b keeps_images_trans by blast
  ultimately show ?thesis using a b by (simp add: others_kept_def)
qed

lemma started_kept:
  assumes "started m eh s pid" "live s pid" "others_kept A s t" "pid \<notin> A" "program_in I m eh"
  shows "started m eh t pid"
proof -
  note o = assms(3)[unfolded others_kept_def] and st = assms(1)[unfolded started_def]
  have v: "view_at t pid x = view_at s pid x" if "256 \<le> vpn x" "vpn x < 1024" for x using o assms(2,4) that by blast
  have "holds_segment t pid h (\<lambda>i. m (eh + p_offset h + of_nat i))" if "h \<in> set (program_segments m eh)" for h
  proof -
    have "seg_ok h" using assms(5) that by (simp add: program_in_def Let_def loadable_def list_all_iff)
    moreover have "holds_segment s pid h (\<lambda>i. m (eh + p_offset h + of_nat i))" using st that by blast
    ultimately show ?thesis unfolding holds_segment_def maps_byte_def using v seg_va_vpn(1,2) by simp
  qed
  moreover have "\<exists>b. maps_byte t pid va b 7" if "MEMSIZE_VIRTUAL - PAGESIZE \<le> va" "va < MEMSIZE_VIRTUAL" for va
    using st that v stack_page[OF that] by (simp add: maps_byte_def)
  moreover have "k_processes t pid = k_processes s pid" using o assms(4) by blast
  ultimately show ?thesis using st unfolding started_def by simp
qed

lemma started_cong:
  assumes "keeps_ranges I m J m'" "program_in I m eh"
  shows "started m' eh t pid \<longleftrightarrow> started m eh t pid"
  using program_kept[OF assms] unfolding started_def holds_segment_def by simp

definition setup_cost :: "memory \<Rightarrow> (int \<Rightarrow> 64 word) \<Rightarrow> int \<times> int \<Rightarrow> nat" where
  "setup_cost m images = (\<lambda>(pid, prog). 6 + card (all_pages (program_segments m (images prog))))"

definition can_setup :: "(int \<Rightarrow> 64 word) \<Rightarrow> kernel_state \<Rightarrow> int \<times> int \<Rightarrow> bool" where
  "can_setup images s = (\<lambda>(pid, prog). 1 \<le> pid \<and> pid < NPROC \<and> p_state (k_processes s pid) = P_FREE \<and>
     0 \<le> prog \<and> prog < 7 \<and> program_at s (images prog))"

lemma setup_kept:
  assumes "others_kept {q} s t" "can_setup images s x" "fst x \<noteq> q"
  shows "can_setup images t x" "setup_cost (k_mem t) images x = setup_cost (k_mem s) images x"
  using assms program_kept[of "image s" "k_mem s" "image t" "k_mem t"]
  by (auto simp: can_setup_def setup_cost_def others_kept_def split: prod.splits)

lemma setups_ok:
  assumes "syms_ok syms" "healthy syms s" "distinct (map fst ps)" "\<forall>x \<in> set ps. can_setup images s x"
    and "sum_list (map (setup_cost (k_mem s) images) ps) \<le> card (free_pages s)"
  shows "\<exists>t. foldR (\<lambda>(pid, prog). process_setup syms images pid prog) ps s = Inr t \<and> healthy syms t \<and>
    others_kept (fst ` set ps) s t \<and> (\<forall>(pid, prog) \<in> set ps. started (k_mem s) (images prog) t pid)"
  using assms(2-)
proof (induction ps arbitrary: s)
  case Nil
  then show ?case by (simp add: others_kept_def keeps_ranges_def)
next
  case (Cons x ps)
  obtain pid prog where x: "x = (pid, prog)" by fastforce
  have c: "1 \<le> pid" "pid < NPROC" "p_state (k_processes s pid) = P_FREE" "0 \<le> prog" "prog < 7" "program_at s (images prog)"
    using Cons.prems(3) by (simp_all add: x can_setup_def)
  have room: "6 + card (all_pages (program_segments (k_mem s) (images prog))) \<le> card (free_pages s)"
    using Cons.prems(4) by (simp add: x setup_cost_def)
  obtain t where t: "process_setup syms images pid prog s = Inr t" "healthy syms t" "started (k_mem s) (images prog) t pid"
    "others_kept {pid} s t" "card (free_pages s) \<le> card (free_pages t) + setup_cost (k_mem s) images x"
    using process_setup_ok[where images = images, OF assms(1) Cons.prems(1) c room] by (auto simp: setup_cost_def x)
  have ne: "fst y \<noteq> pid" if "y \<in> set ps" for y using Cons.prems(2) that by (auto simp: x)
  have k: "can_setup images t y" "setup_cost (k_mem t) images y = setup_cost (k_mem s) images y" if "y \<in> set ps" for y
    using setup_kept[OF t(4)] Cons.prems(3) ne that by simp_all
  then have "map (setup_cost (k_mem t) images) ps = map (setup_cost (k_mem s) images) ps" by simp
  then have "sum_list (map (setup_cost (k_mem t) images) ps) = sum_list (map (setup_cost (k_mem s) images) ps)" by (rule arg_cong)
  then have "sum_list (map (setup_cost (k_mem t) images) ps) \<le> card (free_pages t)" using Cons.prems(4) t(5) by simp
  with Cons.IH[OF t(2)] k(1) Cons.prems(2)
  obtain u where u: "foldR (\<lambda>(pid, prog). process_setup syms images pid prog) ps t = Inr u" "healthy syms u"
    "others_kept (fst ` set ps) t u" "\<forall>(pid, prog) \<in> set ps. started (k_mem t) (images prog) u pid" by auto
  have np: "pid \<notin> fst ` set ps" using ne by blast
  have "live t pid" using c t(3) by (simp add: live_def started_def)
  then have "started (k_mem s) (images prog) u pid" by (rule started_kept[OF t(3) _ u(3) np c(6)])
  moreover have "started (k_mem s) (images prog') u pid'" if m: "(pid', prog') \<in> set ps" for pid' prog'
  proof -
    have "program_at s (images prog')" using Cons.prems(3) m by (auto simp: can_setup_def)
    moreover have "keeps_images s t" using t(4) by (simp add: others_kept_def)
    ultimately show ?thesis using started_cong u(4) m by blast
  qed
  moreover have "others_kept (fst ` set (x # ps)) s u" using others_kept_trans[OF t(4) u(3)] by (simp add: x)
  ultimately show ?case using t(1) u(1,2) by (auto simp: x)
qed

section \<open>The start of the kernel\<close>

text \<open>A range in the kernel's image but outside its page tables: where the linker puts the programs.\<close>

definition kernel_data :: "link_symbols \<Rightarrow> 64 word \<Rightarrow> nat \<Rightarrow> bool" where
  "kernel_data syms a n \<longleftrightarrow>
     0x40000 \<le> unat a \<and> unat a + n \<le> unat (sym_end syms) \<and>
     (\<forall>i < n. PTE_ADDR (a + of_nat i) \<notin> set (kernel_tables syms))"

lemma boot_info:
  assumes "boot_kernel syms s = Inr t"
  shows "k_pageinfo t = k_pageinfo (pageinfo_init syms s)"
  using assms by (auto simp: boot_kernel_def kernel_setup_def Let_def bindR_eq_Inr console_clear_def pageinfo_init_def)

lemma kernel_page_info:
  assumes "syms_ok syms" "0x40000 \<le> unat x" "unat x < unat (sym_end syms)"
  shows "k_pageinfo (pageinfo_init syms s) (PAGENUMBER (PTE_ADDR x)) = \<lparr>pi_owner = -2, pi_refcount = 1\<rparr>" "PTE_ADDR x \<noteq> CONSOLE_ADDR"
proof -
  have e: "unat (sym_end syms) \<le> 0x7F000" using assms(1) by (simp add: syms_ok_def)
  have p: "unat (PTE_ADDR x) = 4096 * (unat x div 4096)" by (simp add: PTE_ADDR_nat minus_mod_eq_mult_div)
  have le: "4096 * (unat x div 4096) \<le> unat x" by simp
  have n: "PAGENUMBER (PTE_ADDR x) = int (unat x div 4096)" using p le e assms(3) by (subst PAGENUMBER_nat) simp_all
  have lo: "0x40 \<le> unat x div 4096" using assms(2) by (simp add: less_eq_div_iff_mult_less_eq)
  have hi: "unat x div 4096 < 0x7F" using e assms(3) by (simp add: div_less_iff_less_mult)
  have "4096 * int (unat x div 4096) < uint (sym_end syms)" using le assms(3) unfolding uint_nat by linarith
  then show "k_pageinfo (pageinfo_init syms s) (PAGENUMBER (PTE_ADDR x)) = \<lparr>pi_owner = -2, pi_refcount = 1\<rparr>"
    unfolding n using lo hi by (subst pageinfo_init_at) (auto simp: init_owner_page)
  show "PTE_ADDR x \<noteq> CONSOLE_ADDR"
  proof
    assume "PTE_ADDR x = CONSOLE_ADDR"
    then have "unat (PTE_ADDR x) = 0xB8000" by simp
    with p le e assms(3) show False by simp
  qed
qed

lemma boot_keeps:
  assumes ok: "syms_ok syms" and b: "boot_kernel syms s = Inr t"
    and same: "\<And>Q. Q \<notin> set (kernel_tables syms) \<Longrightarrow> Q \<noteq> CONSOLE_ADDR \<Longrightarrow> same_page (k_mem s) (k_mem t) Q"
  shows "keeps_ranges (kernel_data syms) (k_mem s) (image t) (k_mem t)"
  unfolding keeps_ranges_def
proof (intro allI impI)
  fix a n assume d: "kernel_data syms a n"
  have e: "unat (sym_end syms) \<le> 0x7F000" using ok by (simp add: syms_ok_def)
  have i: "k_pageinfo t (PAGENUMBER (PTE_ADDR (a + of_nat i))) = \<lparr>pi_owner = -2, pi_refcount = 1\<rparr>"
    "k_mem t (a + of_nat i) = k_mem s (a + of_nat i)" if i: "i < n" for i
  proof -
    let ?x = "a + of_nat i"
    have "unat ?x = unat a + i" using d e i by (intro unat_range[of a n]) (simp_all add: kernel_data_def)
    then have x: "0x40000 \<le> unat ?x" "unat ?x < unat (sym_end syms)" using d i by (simp_all add: kernel_data_def)
    note k = kernel_page_info[OF ok x]
    show "k_pageinfo t (PAGENUMBER (PTE_ADDR ?x)) = \<lparr>pi_owner = -2, pi_refcount = 1\<rparr>" unfolding boot_info[OF b] by (rule k(1))
    have "PTE_ADDR ?x \<notin> set (kernel_tables syms)" using d i by (simp add: kernel_data_def)
    from same[OF this k(2)] have "k_mem t (PTE_ADDR ?x + PAGEOFFSET ?x) = k_mem s (PTE_ADDR ?x + PAGEOFFSET ?x)"
      using same_page_at[OF _ PTE_ADDR_aligned PAGEOFFSET_less] by blast
    moreover have "PTE_ADDR ?x + PAGEOFFSET ?x = ?x" unfolding PTE_ADDR_def PAGEOFFSET_def by (rule addr_plus_off)
    ultimately show "k_mem t ?x = k_mem s ?x" by simp
  qed
  then show "image t a n \<and> (\<forall>i < n. k_mem t (a + of_nat i) = k_mem s (a + of_nat i))"
    using d e by (simp add: image_def kernel_data_def)
qed

lemma setup_list_facts:
  "distinct (map fst (setup_list command))" "(pid, prog) \<in> set (setup_list command) \<Longrightarrow> 1 \<le> pid \<and> pid \<le> 4 \<and> 0 \<le> prog \<and> prog < 7"
  "1 \<in> fst ` set (setup_list command)"
  by (auto simp: setup_list_def split: if_splits)

lemma kernel_ready:
  assumes "syms_ok syms" "\<And>pid prog. (pid, prog) \<in> set (setup_list command) \<Longrightarrow> program_in (kernel_data syms) (k_mem s) (images prog)"
    and "sum_list (map (setup_cost (k_mem s) images) (setup_list command)) \<le> 256"
  shows "\<exists>t. kernel syms images command s = Inr (Resumed t) \<and> ready syms t \<and> k_current t = 1 \<and>
    (\<forall>q. live t q \<longleftrightarrow> q \<in> fst ` set (setup_list command)) \<and>
    (\<forall>(pid, prog) \<in> set (setup_list command). started (k_mem s) (images prog) t pid)"
proof -
  let ?ps = "setup_list command"
  obtain b where b: "boot_kernel syms s = Inr b" "healthy syms b" "\<And>pid. \<not> live b pid"
    "\<And>pid. 0 \<le> pid \<Longrightarrow> pid < NPROC \<Longrightarrow> k_processes b pid = free_process pid"
    "{0x100..<NPAGES} \<subseteq> free_pages b" "\<And>Q. Q \<notin> set (kernel_tables syms) \<Longrightarrow> Q \<noteq> CONSOLE_ADDR \<Longrightarrow> same_page (k_mem s) (k_mem b) Q"
    using boot_kernel_lemma[OF assms(1), of s] by metis
  note kr = boot_keeps[OF assms(1) b(1,6)]
  note pk = program_kept[OF kr assms(2)]
  have "can_setup images b x" if "x \<in> set ?ps" for x
    using pk(1)[of "fst x" "snd x"] setup_list_facts(2)[of "fst x" "snd x" command] that b(4)[of "fst x"]
    by (auto simp: can_setup_def free_process_def split: prod.splits)
  moreover have "map (setup_cost (k_mem b) images) ?ps = map (setup_cost (k_mem s) images) ?ps"
    using pk(3) by (auto simp: setup_cost_def)
  then have "sum_list (map (setup_cost (k_mem b) images) ?ps) = sum_list (map (setup_cost (k_mem s) images) ?ps)" by (rule arg_cong)
  then have "sum_list (map (setup_cost (k_mem b) images) ?ps) \<le> card (free_pages b)"
    using assms(3) card_mono[OF free_pages_finite b(5)] by simp
  ultimately obtain t where t: "foldR (\<lambda>(pid, prog). process_setup syms images pid prog) ?ps b = Inr t" "healthy syms t"
    "others_kept (fst ` set ?ps) b t" "\<forall>(pid, prog) \<in> set ?ps. started (k_mem b) (images prog) t pid"
    using setups_ok[OF assms(1) b(2) setup_list_facts(1)] by blast
  have st: "started (k_mem s) (images prog) t pid" if "(pid, prog) \<in> set ?ps" for pid prog
    using t(4) that started_cong[OF kr assms(2)[OF that]] by blast
  have lv: "live t q \<longleftrightarrow> q \<in> fst ` set ?ps" for q
  proof (cases "q \<in> fst ` set ?ps")
    case True
    then obtain prog where m: "(q, prog) \<in> set ?ps" by force
    then show ?thesis using st[OF m] setup_list_facts(2)[OF m] True by (simp add: live_def started_def)
  next
    case False
    then have "k_processes t q = k_processes b q" using t(3) by (simp add: others_kept_def)
    then show ?thesis using b(3)[of q] False by (simp add: live_def)
  qed
  obtain prog where one: "(1, prog) \<in> set ?ps" using setup_list_facts(3)[of command] by force
  have r: "p_state (k_processes t 1) = P_RUNNABLE" using st[OF one] by (simp add: started_def)
  have "kinv syms t" using t(2) by (simp add: healthy_def)
  from run_ok[OF assms(1) this _ _ r]
  have run: "run syms 1 t = Inr (Resumed (t\<lparr>k_current := 1, k_cr3 := ptab t 1\<rparr>))" by simp
  let ?t = "t\<lparr>k_current := 1, k_cr3 := ptab t 1\<rparr>"
  have "healthy syms ?t" by (rule framed_healthy[OF t(2) framed_upd(1)])
  then have "ready syms ?t" using r by (simp add: ready_def running_def)
  moreover have "started m eh ?t q \<longleftrightarrow> started m eh t q" "live ?t q \<longleftrightarrow> live t q" for m eh q
    by (simp_all add: started_def holds_segment_def maps_byte_def live_def view_at_def Let_def)
  moreover have "kernel syms images command s = Inr (Resumed ?t)" unfolding kernel_def b(1) using t(1) run by simp
  ultimately show ?thesis using lv st by (intro exI[of _ ?t]) auto
qed

text \<open>C6: the kernel starts. Whatever memory and descriptors hold before, if the images of the
  programs that the command line selects are ELF files in the kernel's image whose segments start at page boundaries and fit the
  user area without overlapping, and 256 pages are enough for them, then \<open>kernel\<close> returns to process 1: the state is one from which
  the machine runs (\<open>ready\<close>), exactly the selected processes are live, and each of them has its
  program's bytes at the segments' addresses (read-only where the segment is), zeros where the
  segment has no file contents, a writable stack page, and the registers of a fresh process with \<open>rip\<close> at the entry point and
  \<open>rsp\<close> at \<open>MEMSIZE_VIRTUAL\<close>.\<close>

theorem kernel_starts:
  assumes "syms_ok syms" "\<And>pid prog. (pid, prog) \<in> set (setup_list command) \<Longrightarrow> program_in (kernel_data syms) (k_mem s) (images prog)"
    and "sum_list (map (setup_cost (k_mem s) images) (setup_list command)) \<le> 256"
  shows "\<exists>t. kernel syms images command s = Inr (Resumed t) \<and> ready syms t \<and> k_current t = 1 \<and>
    (\<forall>q. live t q \<longleftrightarrow> q \<in> fst ` set (setup_list command)) \<and>
    (\<forall>(pid, prog) \<in> set (setup_list command). started (k_mem s) (images prog) t pid)"
  by (rule kernel_ready[OF assms])

text \<open>A program of one segment: two instructions and 12 bytes of zeros at \<open>PROC_START_ADDR\<close>.\<close>

definition example_elf :: "8 word list" where
  "example_elf =
     [0x7F, 0x45, 0x4C, 0x46, 2, 1, 1, 0, 0, 0, 0, 0, 0, 0, 0, 0, 2, 0, 0x3E, 0, 1, 0, 0, 0,
      0, 0, 0x10, 0, 0, 0, 0, 0, 64, 0, 0, 0, 0, 0, 0, 0, 0, 0, 0, 0, 0, 0, 0, 0,
      0, 0, 0, 0, 64, 0, 56, 0, 1, 0, 0, 0, 0, 0, 0, 0] @
     [1, 0, 0, 0, 5, 0, 0, 0, 120, 0, 0, 0, 0, 0, 0, 0, 0, 0, 0x10, 0, 0, 0, 0, 0,
      0, 0, 0x10, 0, 0, 0, 0, 0, 4, 0, 0, 0, 0, 0, 0, 0, 16, 0, 0, 0, 0, 0, 0, 0, 0, 0x10, 0, 0, 0, 0, 0, 0] @
     [0xCD, 0x32, 0xEB, 0xFC]"

definition example_image :: memory where
  "example_image a = (if 0x46000 \<le> a \<and> a < 0x4607C then example_elf ! unat (a - 0x46000) else 0)"

definition example_segment :: elf_program where
  "example_segment = \<lparr>p_type = 1, p_flags = 5, p_offset = 120, p_va = 0x100000, p_pa = 0x100000, p_filesz = 4, p_memsz = 16, p_align = 0x1000\<rparr>"

lemma example_header:
  "e_magic (read_elf_header example_image 0x46000) = 0x464C457F" "e_entry (read_elf_header example_image 0x46000) = 0x100000"
  "e_phoff (read_elf_header example_image 0x46000) = 64" "e_phnum (read_elf_header example_image 0x46000) = 1"
  by code_simp+

lemma example_program: "read_elf_program example_image 0x46040 = example_segment"
  by code_simp

lemma example_segments: "program_segments example_image 0x46000 = [example_segment]"
  by (simp add: program_segments_def example_header segments_at_def Let_def example_program) (simp add: example_segment_def)

lemma example_data:
  assumes "0x46000 \<le> unat a" "unat a + n \<le> 0x47000"
  shows "kernel_data example_syms a n"
  unfolding kernel_data_def
proof (intro conjI allI impI)
  fix i assume "i < n"
  then have "unat (a + of_nat i) = unat a + i" using assms by (intro unat_range[of a n]) simp_all
  then have "unat (PTE_ADDR (a + of_nat i)) < 0x52000" using \<open>i < n\<close> assms by (simp add: PTE_ADDR_nat)
  moreover have "0x52000 \<le> unat P" if "P \<in> set (kernel_tables example_syms)" for P
    using that by (auto simp: kernel_tables_def example_syms_def upt_rec)
  ultimately show "PTE_ADDR (a + of_nat i) \<notin> set (kernel_tables example_syms)" by fastforce
qed (use assms in \<open>simp_all add: example_syms_def\<close>)

lemma example_segment_facts:
  "seg_ok example_segment" "page_aligned (p_va example_segment)" "unat (p_filesz example_segment) = 4" "seg_pages example_segment = {256}"
proof -
  have "vpn 0x100000 = 256" by (simp add: vpn_def)
  then show "seg_ok example_segment" "page_aligned (p_va example_segment)" "unat (p_filesz example_segment) = 4" "seg_pages example_segment = {256}"
    by (auto simp: seg_ok_def page_aligned_nat seg_pages_def seg_base_def seg_file_end_def seg_mem_end_def page_end_def example_segment_def)
qed

lemma example_program_in: "program_in (kernel_data example_syms) example_image 0x46000"
  unfolding program_in_def Let_def example_segments
  using example_data example_segment_facts
  by (simp add: example_header loadable_def all_pages_def) (simp add: example_segment_def)

theorem kernel_starts_witness:
  "\<exists>t. kernel example_syms (\<lambda>_. 0x46000) (Some ''fork'') (example_state\<lparr>k_mem := example_image\<rparr>) = Inr (Resumed t) \<and>
     ready example_syms t \<and> p_registers (k_processes t 1) = start_registers 0x100000"
proof -
  have "sum_list (map (setup_cost example_image (\<lambda>_. 0x46000)) (setup_list (Some ''fork''))) \<le> 256"
    by (simp add: setup_list_def setup_cost_def example_segments all_pages_def example_segment_facts)
  then show ?thesis
    using kernel_starts[OF example_syms_ok, of "Some ''fork''" "example_state\<lparr>k_mem := example_image\<rparr>" "\<lambda>_. 0x46000"]
    by (auto simp: example_program_in setup_list_def started_def example_header)
qed


section \<open>Program text stays as loaded\<close>

lemma astep_readonly:
  assumes "astep p A A'" "A q = Some as" "A' q = Some as'" "as va = Some (b, f)" "word_of_int f AND PTE_W = (0 :: 64 word)"
  shows "as' va = Some (b, f)"
  using assms
proof cases
  case (a_write as1 as2)
  then show ?thesis using assms(2-) by (cases "q = p") (auto simp: own_write_def dest: spec[of _ va])
next
  case (a_alloc as1 page as2)
  then show ?thesis using assms(2-) by (cases "q = p") (auto simp: own_page_def dest: spec[of _ va] split: if_splits)
qed (auto split: if_splits)

lemma readonly_kept:
  assumes "syms_ok syms" "ready syms s" "live s q" "address_space s q va = Some (b, f)" "word_of_int f AND PTE_W = (0 :: 64 word)"
    and "(\<lambda>u u'. kstep syms u u' \<and> live u' q)\<^sup>*\<^sup>* s s'"
  shows "ready syms s' \<and> live s' q \<and> address_space s' q va = Some (b, f)"
  using assms(6)
proof (induction rule: rtranclp_induct)
  case base
  then show ?case using assms(2-4) by simp
next
  case (step u u')
  then have k: "ready syms u'" "astep (k_current u) (abs_state u) (abs_state u')" using kstep_lemma[OF assms(1), of u u'] by auto
  have "abs_state u q = Some (address_space u q)" "abs_state u' q = Some (address_space u' q)"
    using step by (simp_all add: abs_state_def)
  with astep_readonly[OF k(2) _ _ _ assms(5)] step k(1) show ?case by blast
qed

lemma flags_readonly:
  fixes f :: int
  assumes "f AND 7 = 5"
  shows "word_of_int f AND PTE_W = (0 :: 64 word)"
proof -
  have "f AND 2 = (f AND 7) AND 2" by (simp add: and.assoc)
  also have "\<dots> = 0" unfolding assms by simp
  finally have "(word_of_int (f AND 2) :: 64 word) = 0" by simp
  then show ?thesis by (simp add: of_int_and_eq)
qed

text \<open>C7: program text stays as loaded, from the boot on. After \<open>kernel\<close> has started the system, in every execution of user stores and permitted exceptions in which a process
  stays live, each byte of a segment that its ELF header does not make writable is present for user code, not writable,
  and the byte that the program's image in the kernel held when the kernel started, at the address that the ELF header gives.
  Among the exceptions that are not permitted is \<open>sys_page_alloc\<close> of a page that the process has mapped already: the kernel serves it with a fresh
  writable page, so that a process can replace its own text.\<close>

theorem program_text_intact:
  assumes "syms_ok syms" "\<And>pid prog. (pid, prog) \<in> set (setup_list command) \<Longrightarrow> program_in (kernel_data syms) (k_mem s) (images prog)"
    and "sum_list (map (setup_cost (k_mem s) images) (setup_list command)) \<le> 256"
    and "kernel syms images command s = Inr (Resumed t)" "(\<lambda>u u'. kstep syms u u' \<and> live u' pid)\<^sup>*\<^sup>* t t'"
    and "(pid, prog) \<in> set (setup_list command)" "h \<in> set (program_segments (k_mem s) (images prog))"
    and "p_flags h AND 2 = 0" "i < unat (p_filesz h)"
  shows "maps_byte t' pid (p_va h + of_nat i) (k_mem s (images prog + p_offset h + of_nat i)) 5"
proof -
  let ?a = "p_va h + of_nat i"
  have t: "ready syms t" "live t pid" "started (k_mem s) (images prog) t pid"
    using kernel_ready[where images = images, OF assms(1-3)] assms(4,6) by force+
  have sg: "seg_ok h" using assms(2)[OF assms(6)] assms(7) by (simp add: program_in_def Let_def loadable_def list_all_iff)
  then have i: "i < unat (p_memsz h)" using assms(9) by (simp add: seg_ok_def word_le_nat_alt)
  have "holds_segment t pid h (\<lambda>i. k_mem s (images prog + p_offset h + of_nat i))" using t(3) assms(7) by (simp add: started_def)
  then have "maps_byte t pid ?a (k_mem s (images prog + p_offset h + of_nat i)) 5"
    using i assms(8,9) by (auto simp: holds_segment_def seg_perm_def)
  then obtain f where f: "view_at t pid ?a = Some (k_mem s (images prog + p_offset h + of_nat i), f)" "f AND 7 = 5" by (auto simp: maps_byte_def)
  note low = seg_va_vpn[OF sg i]
  have "address_space t pid ?a = Some (k_mem s (images prog + p_offset h + of_nat i), f)"
    using f(1) low by (simp add: address_space_def address_space_vpn)
  from readonly_kept[OF assms(1) t(1,2) this flags_readonly[OF f(2)] assms(5)] show ?thesis
    using low f(2) by (auto simp: address_space_def address_space_vpn maps_byte_def)
qed

theorem program_text_intact_witness:
  "\<exists>t. kernel example_syms (\<lambda>_. 0x46000) (Some ''fork'') (example_state\<lparr>k_mem := example_image\<rparr>) = Inr (Resumed t) \<and>
     maps_byte t 1 0x100001 0x32 5"
proof -
  let ?s = "example_state\<lparr>k_mem := example_image\<rparr>"
  have c: "sum_list (map (setup_cost (k_mem ?s) (\<lambda>_. 0x46000)) (setup_list (Some ''fork''))) \<le> 256"
    by (simp add: setup_list_def setup_cost_def example_segments all_pages_def example_segment_facts)
  have p: "program_in (kernel_data example_syms) (k_mem ?s) 0x46000" by (simp add: example_program_in)
  obtain t where t: "kernel example_syms (\<lambda>_. 0x46000) (Some ''fork'') ?s = Inr (Resumed t)"
    using kernel_ready[where images = "\<lambda>_. 0x46000", OF example_syms_ok p c] by blast
  have "maps_byte t 1 (p_va example_segment + of_nat 1) (k_mem ?s (0x46000 + p_offset example_segment + of_nat 1)) 5"
    by (rule program_text_intact[where images = "\<lambda>_. 0x46000", OF example_syms_ok p c t rtranclp.rtrancl_refl])
       (simp_all add: setup_list_def example_segments, simp_all add: example_segment_def)
  moreover have "example_image 0x46079 = 0x32" by code_simp
  ultimately show ?thesis using t by (simp add: example_segment_def)
qed

end
