(* ===== verification/Devices.thy ===== *)
theory Devices
  imports Hardware Printer
begin

text \<open>
  The devices, from \<open>k-hardware.c\<close>: the segment and interrupt descriptor tables that \<open>segments_init\<close> builds,
  the interrupt controller, the timer, the hardware cursor, the log on the parallel port, and the ways
  in which the kernel stops (\<open>panic\<close>, \<open>assert_fail\<close>, \<open>default_exception\<close>, \<open>fail\<close>).

  Port input and output is a history of events: \<open>outb\<close> adds one, and \<open>inb\<close> reads what the parameter
  \<open>dev\<close> answers at this point of the history. Nothing is assumed about \<open>dev\<close>. (\<open>Insl\<close> is the block read of the boot loader.)
\<close>

unbundle bit_operations_syntax

section \<open>Ports\<close>

datatype io_event = Outb "16 word" "8 word" | Inb "16 word" "8 word" | Insl "16 word" nat

type_synonym io_log = "io_event list"
type_synonym device = "io_log \<Rightarrow> 16 word \<Rightarrow> 8 word"

definition outb :: "16 word \<Rightarrow> 8 word \<Rightarrow> io_log \<Rightarrow> io_log" where
  "outb port data io = io @ [Outb port data]"

definition inb :: "device \<Rightarrow> 16 word \<Rightarrow> io_log \<Rightarrow> 8 word \<times> io_log" where
  "inb dev port io = (let data = dev io port in (data, io @ [Inb port data]))"

section \<open>Segments and gates\<close>

text \<open>
  The addresses that the linker gives to the interrupt handlers of \<open>k-exception.S\<close> and to the tables. The state
  holds the tables and what \<open>lgdt\<close>, \<open>ltr\<close>, \<open>lidt\<close> and \<open>lcr0\<close> load: limit and base of the tables, the selector
  of the task state segment, and CR0.
\<close>

record handlers =
  default_int_handler :: "64 word"
  gpf_int_handler :: "64 word"
  pagefault_int_handler :: "64 word"
  timer_int_handler :: "64 word"
  sys_int_handlers :: "nat \<Rightarrow> 64 word"
  kernel_task_descriptor :: "64 word"
  segments_addr :: "64 word"
  interrupt_descriptors_addr :: "64 word"

type_synonym gate = "64 word \<times> 64 word"

record segment_state =
  segments :: "64 word list"
  ts_rsp0 :: "64 word"               \<comment> \<open>\<open>kernel_task_descriptor.ts_rsp[0]\<close>, the rest is zero\<close>
  interrupt_descriptors :: "gate list"
  seg_gdtr :: "16 word \<times> 64 word"
  seg_tr :: "16 word"
  seg_idtr :: "16 word \<times> 64 word"
  seg_cr0 :: "32 word"

abbreviation (input) X86SEG_W :: "64 word" where "X86SEG_W \<equiv> push_bit 40 2"
abbreviation (input) X86SEG_X :: "64 word" where "X86SEG_X \<equiv> push_bit 40 8"
abbreviation (input) X86SEG_L :: "64 word" where "X86SEG_L \<equiv> push_bit 53 1"
abbreviation (input) X86SEG_TSS :: "64 word" where "X86SEG_TSS \<equiv> push_bit 40 9"
abbreviation (input) X86GATE_INTERRUPT :: "64 word" where "X86GATE_INTERRUPT \<equiv> push_bit 40 0xE"

primrec set_gates :: "nat \<Rightarrow> nat \<Rightarrow> int \<Rightarrow> (nat \<Rightarrow> 64 word) \<Rightarrow> gate list \<Rightarrow> gate list" where
  "set_gates 0 i dpl fn idt = idt"
| "set_gates (Suc n) i dpl fn idt = set_gates n (Suc i) dpl fn (idt[i := set_gate X86GATE_INTERRUPT dpl (fn i)])"

definition segments_init :: "handlers \<Rightarrow> 32 word \<Rightarrow> segment_state" where
  "segments_init h cr0 =
     (let tss = set_sys_segment X86SEG_TSS 0 (kernel_task_descriptor h) 96;
          idt0 = replicate 256 (0, 0);
          idt1 = set_gates (256 - 16) 16 0 (\<lambda>i. default_int_handler h) idt0;
          idt2 = idt1[32 := set_gate X86GATE_INTERRUPT 0 (timer_int_handler h)];
          idt3 = idt2[13 := set_gate X86GATE_INTERRUPT 0 (gpf_int_handler h)];
          idt4 = idt3[14 := set_gate X86GATE_INTERRUPT 0 (pagefault_int_handler h)];
          idt5 = set_gates 16 48 3 (\<lambda>i. sys_int_handlers h (i - 48)) idt4
      in \<lparr>segments =
            [0, set_app_segment (X86SEG_X OR X86SEG_L) 0, set_app_segment (X86SEG_X OR X86SEG_L) 3,
             set_app_segment X86SEG_W 0, set_app_segment X86SEG_W 3, fst tss, snd tss],
          ts_rsp0 = KERNEL_STACK_TOP,
          interrupt_descriptors = idt5,
          seg_gdtr = (7 * 8 - 1, segments_addr h), seg_tr = 0x28,
          seg_idtr = (256 * 16 - 1, interrupt_descriptors_addr h),
          seg_cr0 = cr0 OR 0x1 OR 0x80000000 OR 0x10000 OR 0x40000 OR 0x2 OR 0x20\<rparr>)"

section \<open>The interrupt controller and the timer\<close>

definition interrupt_mask :: "16 word \<Rightarrow> io_log \<Rightarrow> io_log" where
  "interrupt_mask interrupts_enabled io =
     (let masked = NOT interrupts_enabled in
      outb 0xA1 (ucast (drop_bit 8 masked AND 0xFF)) (outb 0x21 (ucast (masked AND 0xFF)) io))"

definition interrupt_init :: "io_log \<Rightarrow> 16 word \<times> io_log" where
  "interrupt_init io =
     (let interrupts_enabled = 0;
          io = interrupt_mask interrupts_enabled io;
          io = outb 0x20 0x11 io; io = outb 0x21 32 io; io = outb 0x21 (push_bit 2 1) io; io = outb 0x21 0x3 io;
          io = outb 0xA0 0x11 io; io = outb 0xA1 (32 + 8) io; io = outb 0xA1 2 io; io = outb 0xA1 0x01 io;
          io = outb 0x20 0x68 io; io = outb 0x20 0x0a io; io = outb 0xA0 0x68 io; io = outb 0xA0 0x0a io
      in (interrupts_enabled, interrupt_mask interrupts_enabled io))"

definition TIMER_DIV :: "int \<Rightarrow> int" where
  "TIMER_DIV x = (1193182 + x div 2) div x"

definition timer_init :: "int \<Rightarrow> 16 word \<times> io_log \<Rightarrow> 16 word \<times> io_log" where
  "timer_init rate = (\<lambda>(interrupts_enabled, io).
     if rate > 0 then
       let io = outb 0x43 (0x00 OR 0x04 OR 0x30) io;
           io = outb 0x40 (word_of_int (TIMER_DIV rate mod 256)) io;
           io = outb 0x40 (word_of_int (TIMER_DIV rate div 256)) io;
           interrupts_enabled = interrupts_enabled OR push_bit 0 1
       in (interrupts_enabled, interrupt_mask interrupts_enabled io)
     else
       let interrupts_enabled = interrupts_enabled AND NOT (push_bit 0 1)
       in (interrupts_enabled, interrupt_mask interrupts_enabled io))"

section \<open>The hardware cursor\<close>

definition console_show_cursor :: "int \<Rightarrow> io_log \<Rightarrow> io_log" where
  "console_show_cursor cpos io =
     (let cpos = (if cpos < 0 \<or> cpos > 25 * 80 then 0 else cpos);
          io = outb 0x3D4 14 io; io = outb 0x3D5 (word_of_int (cpos div 256)) io; io = outb 0x3D4 15 io
      in outb 0x3D5 (word_of_int (cpos mod 256)) io)"

section \<open>The log on the parallel port\<close>

record parallel_port =
  pp_initialized :: bool     \<comment> \<open>static of \<open>parallel_port_putc\<close>\<close>
  pp_io :: io_log

definition delay :: "device \<Rightarrow> io_log \<Rightarrow> io_log" where
  "delay dev io =
     (let io = snd (inb dev 0x84 io); io = snd (inb dev 0x84 io); io = snd (inb dev 0x84 io) in snd (inb dev 0x84 io))"

text \<open>The wait loop, over the turns left of its 12800.\<close>

primrec parallel_wait :: "device \<Rightarrow> nat \<Rightarrow> io_log \<Rightarrow> io_log" where
  "parallel_wait dev 0 io = io"
| "parallel_wait dev (Suc n) io =
     (let (status, io) = inb dev 0x379 io in
      if status AND 0x80 = 0 then parallel_wait dev n (delay dev io) else io)"

definition parallel_port_putc :: "device \<Rightarrow> char \<Rightarrow> int \<Rightarrow> parallel_port \<Rightarrow> parallel_port" where
  "parallel_port_putc dev c color p =
     (let io = (if pp_initialized p then pp_io p else outb 0x37A 0 (pp_io p));
          io = parallel_wait dev 12800 io;
          io = outb 0x378 (of_char c) io;
          io = outb 0x37A (0x08 OR 0x04 OR 0x01) io;
          io = outb 0x37A (0x08 OR 0x04) io
      in \<lparr>pp_initialized = True, pp_io = io\<rparr>)"

definition log_vprintf :: "device \<Rightarrow> string \<Rightarrow> va_list \<Rightarrow> parallel_port \<Rightarrow> parallel_port option" where
  "log_vprintf dev format val p = printer_vprintf (parallel_port_putc dev) 0 format val p"

definition log_printf :: "device \<Rightarrow> string \<Rightarrow> va_list \<Rightarrow> parallel_port \<Rightarrow> parallel_port option" where
  "log_printf dev format val p = log_vprintf dev format val p"

section \<open>Messages of the kernel and the end\<close>

text \<open>The console memory and the parallel port together.\<close>

type_synonym message_state = "memory \<times> parallel_port"

definition error_vprintf :: "device \<Rightarrow> int \<Rightarrow> int \<Rightarrow> string \<Rightarrow> va_list \<Rightarrow> message_state \<Rightarrow> (int \<times> message_state) option" where
  "error_vprintf dev cpos color format val = (\<lambda>(m, p).
     do { p' \<leftarrow> log_vprintf dev format val p;
          (cpos', m') \<leftarrow> console_vprintf cpos color format val m;
          Some (cpos', (m', p')) })"

definition error_printf :: "device \<Rightarrow> int \<Rightarrow> int \<Rightarrow> string \<Rightarrow> va_list \<Rightarrow> message_state \<Rightarrow> (int \<times> message_state) option" where
  "error_printf dev cpos color format val st = error_vprintf dev cpos color format val st"

text \<open>
  \<open>panic\<close> up to its call of \<open>fail\<close>; \<open>None\<close> for the format is the null pointer. \<open>fail\<close> polls the keyboard for
  ever: \<open>keys\<close> are the characters it reads, and \<open>None\<close> says that it still waits after them.
\<close>

definition panic_message :: "device \<Rightarrow> string option \<Rightarrow> va_list \<Rightarrow> message_state \<Rightarrow> message_state option" where
  "panic_message dev format val st =
     (case format of
        Some f \<Rightarrow>
          do { (cpos, st) \<leftarrow> error_printf dev (CPOS 23 0) 0xC000 ''PANIC: '' [] st;
               (cpos, st) \<leftarrow> error_vprintf dev cpos 0xC000 f val st;
               if cpos mod 80 \<noteq> 0
               then do { (_, st) \<leftarrow> error_printf dev cpos 0xC000 ''\<newline>'' [] st; Some st }
               else Some st }
      | None \<Rightarrow> do { (_, st) \<leftarrow> error_printf dev (CPOS 23 0) 0xC000 ''PANIC'' [] st; Some st })"

primrec fail :: "int list \<Rightarrow> kernel_state \<Rightarrow> (keyboard_action \<times> kernel_state) option" where
  "fail [] s = None"
| "fail (c # keys) s =
     (case check_keyboard c s of (No_action, s') \<Rightarrow> fail keys s' | (act, s') \<Rightarrow> Some (act, s'))"

definition panic ::
  "device \<Rightarrow> int list \<Rightarrow> string option \<Rightarrow> va_list \<Rightarrow> parallel_port \<Rightarrow> kernel_state \<Rightarrow>
     (parallel_port \<times> (keyboard_action \<times> kernel_state) option) option" where
  "panic dev keys format val p s =
     do { (m, p') \<leftarrow> panic_message dev format val (k_mem s, p); Some (p', fail keys (s\<lparr>k_mem := m\<rparr>)) }"

definition assert_fail ::
  "device \<Rightarrow> int list \<Rightarrow> string \<Rightarrow> int \<Rightarrow> string \<Rightarrow> parallel_port \<Rightarrow> kernel_state \<Rightarrow>
     (parallel_port \<times> (keyboard_action \<times> kernel_state) option) option" where
  "assert_fail dev keys file line msg =
     panic dev keys (Some ''%s:%d: assertion '%s' failed\<newline>'') [VStr file, VNum (word_of_int line), VStr msg]"

definition default_exception ::
  "device \<Rightarrow> int list \<Rightarrow> proc \<Rightarrow> parallel_port \<Rightarrow> kernel_state \<Rightarrow>
     (parallel_port \<times> (keyboard_action \<times> kernel_state) option) option" where
  "default_exception dev keys p =
     panic dev keys (Some ''Unexpected exception %d!\<newline>'') [VNum (reg_intno (p_registers p))]"


section \<open>What the processor reads in a gate\<close>

text \<open>
  The fields of a gate descriptor and the delivery of interrupts and exceptions, as the processor defines
  them: a software interrupt needs a gate whose privilege level admits the caller, or it is a general
  protection fault (13); a gate that is not present is a segment-not-present fault (11), a fault while a
  contributory exception or a page fault is delivered is a double fault (8), and one while a double
  fault is delivered shuts the processor down.
\<close>

definition gate_offset :: "gate \<Rightarrow> 64 word" where
  "gate_offset g = (fst g AND mask 16) OR push_bit 16 (drop_bit 48 (fst g)) OR push_bit 32 (snd g)"

definition gate_dpl :: "gate \<Rightarrow> nat" where
  "gate_dpl g = unat (drop_bit 45 (fst g) AND 3)"

definition gate_present :: "gate \<Rightarrow> bool" where
  "gate_present g = bit (fst g) 47"

datatype delivery = Enter "64 word" | Shutdown

definition deliver :: "gate list \<Rightarrow> nat \<Rightarrow> delivery" where
  "deliver idt v =
     (let double = (if gate_present (idt ! 8) then Enter (gate_offset (idt ! 8)) else Shutdown) in
      if gate_present (idt ! v) then Enter (gate_offset (idt ! v))
      else if v \<in> {0, 8, 10, 11, 12, 13, 14} then double
      else if gate_present (idt ! 11) then Enter (gate_offset (idt ! 11))
      else double)"

definition soft_int :: "gate list \<Rightarrow> nat \<Rightarrow> nat \<Rightarrow> delivery" where
  "soft_int idt cpl n = (if gate_dpl (idt ! n) < cpl then deliver idt 13 else deliver idt n)"

lemma low_masks:
  "(0xFFFF :: 64 word) = mask 16" "(0xFFFF0000 :: 64 word) = push_bit 16 (mask 16)" "(0xF0000 :: 64 word) = push_bit 16 (mask 4)"
  "(0xFFFFFF :: 64 word) = mask 24" "(0xFF000000 :: 64 word) = push_bit 24 (mask 8)"
  by (simp_all add: mask_numeral)

lemma set_gate_low:
  "fst (set_gate X86GATE_INTERRUPT dpl fn) =
     (fn AND mask 16) OR push_bit 48 (drop_bit 16 fn AND mask 16) OR push_bit 16 8 OR push_bit 40 0xE OR push_bit 45 (word_of_int dpl) OR push_bit 47 1"
proof -
  have "push_bit 32 (fn AND push_bit 16 (mask 16)) = push_bit 48 (drop_bit 16 fn AND mask 16)"
    by (rule bit_word_eqI) (auto simp: bit_simps)
  then show ?thesis unfolding set_gate_def low_masks fst_conv by (simp only: or.assoc or.commute or.left_commute)
qed

lemma set_gate_zero: "set_gate X86GATE_INTERRUPT dpl fn = (fst (set_gate X86GATE_INTERRUPT dpl fn), drop_bit 32 fn)"
  by (simp add: set_gate_def)

lemma gate_constant:
  assumes "dpl = 0 \<or> dpl = 3"
  obtains K :: "64 word" where "fst (set_gate X86GATE_INTERRUPT dpl fn) = (fn AND mask 16) OR push_bit 48 (drop_bit 16 fn AND mask 16) OR K"
    "K AND mask 16 = 0" "drop_bit 48 K = 0" "bit K 47" "drop_bit 45 K AND 3 = word_of_int dpl"
proof -
  let ?K = "push_bit 16 8 OR push_bit 40 0xE OR push_bit 45 (word_of_int dpl) OR push_bit 47 1 :: 64 word"
  have "?K AND mask 16 = 0" "drop_bit 48 ?K = 0" "bit ?K 47" "drop_bit 45 ?K AND 3 = word_of_int dpl"
    using assms by (elim disjE; simp add: mask_numeral)+
  with that[of ?K] set_gate_low[of dpl fn] show thesis by (simp only: or.assoc)
qed

lemma gate_fields:
  assumes "dpl = 0 \<or> dpl = 3"
  shows "gate_offset (set_gate X86GATE_INTERRUPT dpl fn) = fn" "gate_dpl (set_gate X86GATE_INTERRUPT dpl fn) = nat dpl"
    "gate_present (set_gate X86GATE_INTERRUPT dpl fn)"
proof -
  obtain K :: "64 word" where K: "fst (set_gate X86GATE_INTERRUPT dpl fn) = (fn AND mask 16) OR push_bit 48 (drop_bit 16 fn AND mask 16) OR K"
    "K AND mask 16 = 0" "drop_bit 48 K = 0" "bit K 47" "drop_bit 45 K AND 3 = word_of_int dpl"
    using gate_constant[OF assms] by blast
  let ?A = "fn AND mask 16 :: 64 word" and ?B = "push_bit 48 (drop_bit 16 fn AND mask 16) :: 64 word"
  have sn: "snd (set_gate X86GATE_INTERRUPT dpl fn) = drop_bit 32 fn" by (simp add: set_gate_def)
  have a: "(?A OR ?B OR K) AND mask 16 = ?A"
  proof -
    have "?B AND mask 16 = 0" by (rule bit_word_eqI) (auto simp: bit_simps)
    moreover have "?A AND mask 16 = ?A" by (simp add: and.assoc)
    ultimately show ?thesis using K(2) by (simp only: bit.conj_disj_distrib2 or.right_neutral)
  qed
  have b: "drop_bit 48 (?A OR ?B OR K) = drop_bit 16 fn AND mask 16"
  proof -
    have "drop_bit 48 ?A = 0" "drop_bit 48 ?B = drop_bit 16 fn AND mask 16" by (rule bit_word_eqI; auto simp: bit_simps)+
    then show ?thesis using K(3) by (simp only: drop_bit_or or.right_neutral or.left_neutral)
  qed
  have "?A OR push_bit 16 (drop_bit 16 fn AND mask 16) OR push_bit 32 (drop_bit 32 fn) = fn"
  proof (rule bit_word_eqI)
    fix n show "bit (?A OR push_bit 16 (drop_bit 16 fn AND mask 16) OR push_bit 32 (drop_bit 32 fn)) n = bit fn n" if "n < LENGTH(64)"
      using that by (cases "n < 32") (auto simp: bit_simps)
  qed
  then show "gate_offset (set_gate X86GATE_INTERRUPT dpl fn) = fn" unfolding gate_offset_def K(1) sn a b by simp
  show "gate_present (set_gate X86GATE_INTERRUPT dpl fn)" unfolding gate_present_def K(1) using K(4) by (simp add: bit_simps)
  have three: "(3 :: 64 word) = mask 2" by (simp add: mask_numeral)
  have "drop_bit 45 ?A = 0" "drop_bit 45 ?B AND 3 = 0"
    unfolding three by (rule bit_word_eqI; auto simp: bit_simps)+
  then have "drop_bit 45 (?A OR ?B OR K) AND 3 = word_of_int dpl"
    using K(5) by (simp only: drop_bit_or bit.conj_disj_distrib2 or.left_neutral and_zero_eq zero_and_eq)
  then show "gate_dpl (set_gate X86GATE_INTERRUPT dpl fn) = nat dpl"
    unfolding gate_dpl_def K(1) using assms by auto
qed

lemma set_gates_length [simp]: "length (set_gates n i dpl fn idt) = length idt"
  by (induction n arbitrary: i idt) simp_all

lemma set_gates_nth:
  "j < length idt \<Longrightarrow> set_gates n i dpl fn idt ! j =
     (if i \<le> j \<and> j < i + n then set_gate X86GATE_INTERRUPT dpl (fn j) else idt ! j)"
proof (induction n arbitrary: i idt)
  case (Suc n)
  then show ?case by (cases "i = j") (auto simp: nth_list_update)
qed auto

lemma idt_nth:
  assumes "n < 256"
  shows "interrupt_descriptors (segments_init h cr0) ! n =
    (if 48 \<le> n \<and> n < 64 then set_gate X86GATE_INTERRUPT 3 (sys_int_handlers h (n - 48))
     else if n = 14 then set_gate X86GATE_INTERRUPT 0 (pagefault_int_handler h)
     else if n = 13 then set_gate X86GATE_INTERRUPT 0 (gpf_int_handler h)
     else if n = 32 then set_gate X86GATE_INTERRUPT 0 (timer_int_handler h)
     else if 16 \<le> n then set_gate X86GATE_INTERRUPT 0 (default_int_handler h) else (0, 0))"
  using assms by (simp add: segments_init_def Let_def set_gates_nth nth_list_update)

lemmas app_gate = gate_fields[of 3, simplified] and kernel_gate = gate_fields[of 0, simplified]

lemma zero_gate: "gate_dpl (0, 0) = 0" "\<not> gate_present (0, 0)"
  by (simp_all add: gate_dpl_def gate_present_def)

text \<open>C31: the ways into the kernel. With the descriptor tables that \<open>segments_init\<close> builds, a user program (privilege
  level 3) that executes a software interrupt \<open>n\<close> enters the kernel at the system call handler for
  \<open>n\<close> if \<open>n\<close> is one of the 16 system calls, and at the handler of general protection faults otherwise; the page
  fault, protection fault and timer handlers are reached by their own vectors 14, 13 and 32.\<close>

theorem kernel_entries:
  fixes h :: handlers and cr0 :: "32 word"
  defines "idt \<equiv> interrupt_descriptors (segments_init h cr0)"
  shows "(\<forall>n < 256. soft_int idt 3 n = Enter (if 48 \<le> n \<and> n < 64 then sys_int_handlers h (n - 48) else gpf_int_handler h)) \<and>
    deliver idt 14 = Enter (pagefault_int_handler h) \<and> deliver idt 13 = Enter (gpf_int_handler h) \<and>
    deliver idt 32 = Enter (timer_int_handler h)"
proof -
  have d: "deliver idt n = Enter (gate_offset (idt ! n))" if "gate_present (idt ! n)" for n using that by (simp add: deliver_def)
  have x: "idt ! 13 = set_gate X86GATE_INTERRUPT 0 (gpf_int_handler h)" "idt ! 14 = set_gate X86GATE_INTERRUPT 0 (pagefault_int_handler h)"
    "idt ! 32 = set_gate X86GATE_INTERRUPT 0 (timer_int_handler h)"
    by (simp_all add: idt_def idt_nth)
  have f: "deliver idt 13 = Enter (gpf_int_handler h)" "deliver idt 14 = Enter (pagefault_int_handler h)" "deliver idt 32 = Enter (timer_int_handler h)"
    using d[of 13] d[of 14] d[of 32] by (simp_all add: x kernel_gate)
  have "soft_int idt 3 n = Enter (if 48 \<le> n \<and> n < 64 then sys_int_handlers h (n - 48) else gpf_int_handler h)" if "n < 256" for n
  proof (cases "48 \<le> n \<and> n < 64")
    case True
    then have "idt ! n = set_gate X86GATE_INTERRUPT 3 (sys_int_handlers h (n - 48))" by (simp add: idt_def idt_nth)
    with True d[of n] show ?thesis by (simp add: soft_int_def app_gate)
  next
    case False
    have "gate_dpl (idt ! n) = 0" unfolding idt_def idt_nth[OF that] if_not_P[OF False] by (simp add: kernel_gate zero_gate)
    then show ?thesis unfolding if_not_P[OF False] using f(1) by (simp add: soft_int_def)
  qed
  with f show ?thesis by simp
qed


definition example_handlers :: handlers where
  "example_handlers = \<lparr>default_int_handler = 0x4009C, gpf_int_handler = 0x4000A, pagefault_int_handler = 0x40013,
     timer_int_handler = 0x4001C, sys_int_handlers = (\<lambda>i. 0x40025 + 9 * of_nat i), kernel_task_descriptor = 0x51000,
     segments_addr = 0x51080, interrupt_descriptors_addr = 0x51100\<rparr>"

theorem kernel_entries_witness:
  "soft_int (interrupt_descriptors (segments_init example_handlers 0x11)) 3 49 = Enter 0x4002E \<and>
   soft_int (interrupt_descriptors (segments_init example_handlers 0x11)) 3 14 = Enter 0x4000A"
  using kernel_entries[of example_handlers "0x11"] by (simp add: example_handlers_def)


section \<open>The task state segment\<close>

text \<open>The base and the limit that the processor reads in a system segment descriptor.\<close>

definition sys_base :: "64 word \<times> 64 word \<Rightarrow> 64 word" where
  "sys_base d = (drop_bit 16 (fst d) AND mask 24) OR push_bit 24 (drop_bit 56 (fst d)) OR push_bit 32 (snd d)"

definition sys_limit :: "64 word \<times> 64 word \<Rightarrow> 64 word" where
  "sys_limit d = (fst d AND mask 16) OR push_bit 16 (drop_bit 48 (fst d) AND mask 4)"

lemma sys_segment_low:
  assumes "dpl = 0 \<or> dpl = 3"
  obtains K :: "64 word" where "fst (set_sys_segment X86SEG_TSS dpl addr sz) =
      push_bit 16 (addr AND mask 24) OR push_bit 56 (drop_bit 24 addr AND mask 8) OR ((sz - 1) AND mask 16) OR K"
    "K AND mask 16 = 0" "drop_bit 16 K AND mask 24 = 0" "drop_bit 48 K = 0"
proof -
  let ?K = "push_bit 40 9 OR push_bit 45 (word_of_int dpl) OR push_bit 47 1 :: 64 word"
  have a: "push_bit 32 (addr AND push_bit 24 (mask 8)) = push_bit 56 (drop_bit 24 addr AND mask 8)"
    "push_bit 48 ((sz - 1) AND push_bit 16 (mask 4)) = 0"
    by (rule bit_word_eqI; auto simp: bit_simps)+
  have e: "fst (set_sys_segment X86SEG_TSS dpl addr sz) =
      push_bit 16 (addr AND mask 24) OR push_bit 56 (drop_bit 24 addr AND mask 8) OR ((sz - 1) AND mask 16) OR ?K"
    unfolding set_sys_segment_def fst_conv low_masks a by (simp only: or.assoc or.left_neutral)
  have "?K AND mask 16 = 0" "drop_bit 16 ?K AND mask 24 = 0" "drop_bit 48 ?K = 0"
    using assms by (elim disjE; simp add: mask_numeral)+
  with e that show thesis by blast
qed

text \<open>The task state segment. The processor finds the address that was given to \<open>set_sys_segment\<close>, but only the low 16 bits of the limit: bits 16 to
  19 are shifted out of the word (by 48 instead of 32), so the limit is right exactly for segments of at most 64 KB, of which the
  task state is one.\<close>

theorem set_sys_segment_fields:
  assumes "dpl = 0 \<or> dpl = 3"
  shows "sys_base (set_sys_segment X86SEG_TSS dpl addr sz) = addr \<and>
    sys_limit (set_sys_segment X86SEG_TSS dpl addr sz) = (sz - 1) AND 0xFFFF"
proof -
  obtain K :: "64 word" where K: "fst (set_sys_segment X86SEG_TSS dpl addr sz) =
      push_bit 16 (addr AND mask 24) OR push_bit 56 (drop_bit 24 addr AND mask 8) OR ((sz - 1) AND mask 16) OR K"
    "K AND mask 16 = 0" "drop_bit 16 K AND mask 24 = 0" "drop_bit 48 K = 0"
    using sys_segment_low[OF assms] by blast
  let ?A = "push_bit 16 (addr AND mask 24) :: 64 word" and ?B = "push_bit 56 (drop_bit 24 addr AND mask 8) :: 64 word" and ?C = "(sz - 1) AND mask 16 :: 64 word"
  have "drop_bit 16 ?A AND mask 24 = addr AND mask 24" "drop_bit 16 ?B AND mask 24 = 0" "drop_bit 16 ?C AND mask 24 = 0"
    "drop_bit 48 ?A AND mask 4 = 0" "drop_bit 48 ?B AND mask 4 = 0" "drop_bit 48 ?C AND mask 4 = 0"
    "?A AND mask 16 = 0" "?B AND mask 16 = 0" "?C AND mask 16 = ?C"
    "drop_bit 56 ?A = 0" "drop_bit 56 ?B = drop_bit 24 addr AND mask 8" "drop_bit 56 ?C = 0"
    by (rule bit_word_eqI; auto simp: bit_simps)+
  note f = this and z = or.left_neutral or.right_neutral zero_and_eq
  have "drop_bit 56 K = drop_bit 8 (drop_bit 48 K)" by (simp add: drop_bit_drop_bit)
  then have k: "drop_bit 56 K = 0" using K(4) by simp
  have "(addr AND mask 24) OR push_bit 24 (drop_bit 24 addr AND mask 8) OR push_bit 32 (drop_bit 32 addr) = addr"
  proof (rule bit_word_eqI)
    fix n show "bit ((addr AND mask 24) OR push_bit 24 (drop_bit 24 addr AND mask 8) OR push_bit 32 (drop_bit 32 addr)) n = bit addr n" if "n < LENGTH(64)"
      using that by (cases "n < 32") (auto simp: bit_simps)
  qed
  then have "sys_base (set_sys_segment X86SEG_TSS dpl addr sz) = addr"
    unfolding sys_base_def K(1) drop_bit_or bit.conj_disj_distrib2 f K(3) k z by (simp add: set_sys_segment_def)
  moreover have "sys_limit (set_sys_segment X86SEG_TSS dpl addr sz) = (sz - 1) AND mask 16"
    unfolding sys_limit_def K(1) drop_bit_or bit.conj_disj_distrib2 f K(2,4) z by simp
  ultimately show ?thesis by (simp only: low_masks)
qed

theorem set_sys_segment_fields_witness:
  "sys_limit (set_sys_segment X86SEG_TSS 0 0x51000 96) = 95 \<and> sys_limit (set_sys_segment X86SEG_TSS 0 0x51000 0x10001) = 0"
  using set_sys_segment_fields[of 0 "0x51000" 96] set_sys_segment_fields[of 0 "0x51000" "0x10001"] by simp

section \<open>The timer\<close>

lemma rounding:
  fixes x y f r h :: int
  assumes "x = f + h - y" "0 \<le> y" "y < r" "2 * h \<le> r" "r \<le> 2 * h + 1"
  shows "2 * \<bar>f - x\<bar> \<le> r"
  using assms by (simp add: abs_if)

lemma timer_div_round:
  assumes "0 < rate"
  shows "2 * \<bar>1193182 - rate * TIMER_DIV rate\<bar> \<le> rate"
proof (rule rounding)
  show "rate * TIMER_DIV rate = 1193182 + rate div 2 - (1193182 + rate div 2) mod rate"
    unfolding TIMER_DIV_def by (simp add: minus_mod_eq_mult_div)
  show "2 * (rate div 2) \<le> rate" "rate \<le> 2 * (rate div 2) + 1" by presburger+
qed (use assms in simp_all)

lemma divisor_fits:
  fixes x r :: int
  assumes "2 * \<bar>1193182 - x\<bar> \<le> r" "19 \<le> r"
  shows "x < r * 65536"
  using assms by (simp add: abs_if split: if_splits)

text \<open>The timer. For a rate of at least 19 interrupts per second (for less the divisor does not fit the 16 bits of the
  counter) \<open>timer_init\<close> after \<open>interrupt_init\<close> selects the rate generator of counter 0, sends the divisor low byte first, unmasks interrupt line
  0 only, and the divisor is the rounded quotient: the frequency times the divisor misses the clock by at most half the rate.\<close>

theorem timer_init_rate:
  assumes "19 \<le> rate"
  shows "\<exists>lo hi. snd (timer_init rate (interrupt_init io)) =
      snd (interrupt_init io) @ [Outb 0x43 0x34, Outb 0x40 lo, Outb 0x40 hi, Outb 0x21 0xFE, Outb 0xA1 0xFF] \<and>
    2 * \<bar>1193182 - rate * (uint lo + 256 * uint hi)\<bar> \<le> rate"
proof -
  define q where "q = TIMER_DIV rate"
  have q: "0 \<le> q" using assms by (simp add: q_def TIMER_DIV_def pos_imp_zdiv_nonneg_iff)
  have r: "2 * \<bar>1193182 - rate * q\<bar> \<le> rate" unfolding q_def using assms by (intro timer_div_round) simp
  have "rate * q < rate * 65536" by (rule divisor_fits[OF r assms])
  then have "q < 65536" using assms by simp
  then have hi: "0 \<le> q div 256" "q div 256 < 256" using q by (simp_all add: pos_imp_zdiv_nonneg_iff)
  let ?lo = "word_of_int (q mod 256) :: 8 word" and ?hi = "word_of_int (q div 256) :: 8 word"
  have u: "uint ?hi = q div 256" using hi by (simp add: unsigned_of_int take_bit_int_eq_self)
  have l: "uint ?lo = q mod 256" by (simp add: unsigned_of_int take_bit_eq_mod)
  have "uint ?lo + 256 * uint ?hi = q" unfolding u l by simp
  moreover have "snd (timer_init rate (interrupt_init io)) =
      snd (interrupt_init io) @ [Outb 0x43 0x34, Outb 0x40 ?lo, Outb 0x40 ?hi, Outb 0x21 0xFE, Outb 0xA1 0xFF]"
    using assms by (simp add: timer_init_def interrupt_init_def Let_def interrupt_mask_def outb_def q_def mask_numeral)
  ultimately show ?thesis using r by (intro exI[of _ ?lo] exI[of _ ?hi]) (simp only: simp_thms)
qed

theorem timer_init_rate_witness:
  "\<exists>lo hi. snd (timer_init 100 (interrupt_init [])) =
      snd (interrupt_init []) @ [Outb 0x43 0x34, Outb 0x40 lo, Outb 0x40 hi, Outb 0x21 0xFE, Outb 0xA1 0xFF] \<and>
    \<bar>1193182 - 100 * (uint lo + 256 * uint hi)\<bar> \<le> 50"
proof -
  obtain lo hi where "snd (timer_init 100 (interrupt_init [])) =
      snd (interrupt_init []) @ [Outb 0x43 0x34, Outb 0x40 lo, Outb 0x40 hi, Outb 0x21 0xFE, Outb 0xA1 0xFF]"
    "2 * \<bar>1193182 - 100 * (uint lo + 256 * uint hi)\<bar> \<le> 100"
    using timer_init_rate[of 100 "[]"] by auto
  then show ?thesis by (intro exI[of _ lo] exI[of _ hi]) simp
qed

section \<open>The log\<close>

text \<open>The bytes that a history of port events sends to the data register of the parallel port.\<close>

fun logged :: "io_log \<Rightarrow> 8 word list" where
  "logged [] = []"
| "logged (Outb port data # io) = (if port = 0x378 then data # logged io else logged io)"
| "logged (Inb port data # io) = logged io"
| "logged (Insl port cnt # io) = logged io"

lemma logged_append [simp]: "logged (a @ b) = logged a @ logged b"
  by (induction a rule: logged.induct) simp_all

lemma delay_events: "\<exists>evs. delay dev io = io @ evs \<and> length evs = 4 \<and> logged evs = []"
  by (auto simp: delay_def inb_def Let_def)

lemma parallel_wait_events: "\<exists>evs. parallel_wait dev n io = io @ evs \<and> length evs \<le> 5 * n \<and> logged evs = []"
proof (induction n arbitrary: io)
  case (Suc n)
  let ?io = "io @ [Inb 0x379 (dev io 0x379)]"
  show ?case
  proof (cases "dev io 0x379 AND 0x80 = 0")
    case True
    obtain d where d: "delay dev ?io = ?io @ d" "length d = 4" "logged d = []" using delay_events by blast
    obtain e where e: "parallel_wait dev n (?io @ d) = (?io @ d) @ e" "length e \<le> 5 * n" "logged e = []" using Suc.IH by blast
    then show ?thesis using True d
      by (intro exI[of _ "Inb 0x379 (dev io 0x379) # d @ e"]) (simp add: inb_def Let_def)
  next
    case False
    then show ?thesis by (auto simp: inb_def Let_def)
  qed
qed simp

lemma parallel_port_events:
  "\<exists>evs. pp_io (parallel_port_putc dev c color p) =
      pp_io p @ evs @ [Outb 0x378 (of_char c), Outb 0x37A 0xD, Outb 0x37A 0xC] \<and> length evs \<le> 64001 \<and> logged evs = []"
proof -
  define io where "io = (if pp_initialized p then pp_io p else outb 0x37A 0 (pp_io p))"
  obtain e where e: "parallel_wait dev 12800 io = io @ e" "length e \<le> 64000" "logged e = []"
    using parallel_wait_events[of dev 12800 io] by auto
  have "pp_io (parallel_port_putc dev c color p) = (io @ e) @ [Outb 0x378 (of_char c), Outb 0x37A 0xD, Outb 0x37A 0xC]"
    by (simp add: parallel_port_putc_def Let_def io_def[symmetric] e(1) outb_def)
  then show ?thesis
    using e(2,3) by (intro exI[of _ "(if pp_initialized p then [] else [Outb 0x37A 0]) @ e"]) (simp add: io_def outb_def)
qed

text \<open>C33: the log never hangs the kernel. Whatever the parallel port answers, even if it stays busy for ever, \<open>parallel_port_putc\<close> ends after at most
  12800 polls (64,004 port accesses in all), and its last three accesses put the character into the data
  register and strobe it.\<close>

theorem parallel_port_putc_ends:
  "\<exists>evs. pp_io (parallel_port_putc dev c color p) = pp_io p @ evs \<and> length evs \<le> 64004 \<and>
     drop (length evs - 3) evs = [Outb 0x378 (of_char c), Outb 0x37A 0xD, Outb 0x37A 0xC] \<and> logged evs = [of_char c]"
proof -
  obtain evs where e: "pp_io (parallel_port_putc dev c color p) =
      pp_io p @ evs @ [Outb 0x378 (of_char c), Outb 0x37A 0xD, Outb 0x37A 0xC]" "length evs \<le> 64001" "logged evs = []"
    using parallel_port_events by blast
  then show ?thesis by (intro exI[of _ "evs @ [Outb 0x378 (of_char c), Outb 0x37A 0xD, Outb 0x37A 0xC]"]) simp
qed

text \<open>The characters of a formatted print do not depend on the initial color.\<close>

definition plain_putc :: "char \<Rightarrow> int \<Rightarrow> string \<Rightarrow> string" where
  "plain_putc c color out = out @ [c]"

lemma plain_put_times: "put_times plain_putc n c color p = put_times plain_putc n c color' p"
  by (induction n arbitrary: p) (simp_all add: plain_putc_def)

lemma plain_put_string: "put_string plain_putc cs color p = put_string plain_putc cs color' p"
  by (induction cs arbitrary: p) (simp_all add: plain_putc_def)

lemma plain_put_field:
  "put_field plain_putc color width precision base num flags data p = put_field plain_putc color' width precision base num flags data p"
  unfolding put_field_def Let_def plain_put_times[of _ _ color _ color'] plain_put_string[of _ color _ color'] by (rule refl)

lemma plain_printf: "printer_vprintf plain_putc color fmt val p = printer_vprintf plain_putc color' fmt val p"
proof (induction fmt arbitrary: color color' val p rule: measure_induct_rule[where f = length])
  case (less fmt)
  show ?case
  proof (cases fmt)
    case (Cons c cs)
    have pc: "plain_putc c color p = plain_putc c color' p" by (simp add: plain_putc_def)
    show ?thesis
    proof (cases "c = CHR ''%''")
      case True
      have "printer_vprintf plain_putc a cs' val' q = printer_vprintf plain_putc b cs' val' q"
        if "parse_directive cs val = Some (d, cs', val')" for a b cs' val' q d
        using less.IH[of cs'] parse_directive_length[OF that] Cons by (simp add: less_Suc_eq_le)
      then show ?thesis
        using True Cons plain_put_field[of color _ _ _ _ _ _ p color']
        by (auto split: option.splits directive.splits)
    qed (use less.IH[of cs] Cons pc in simp)
  qed simp
qed

lemma replay_plain: "replay plain_putc out p = p @ map fst out"
  by (induction out arbitrary: p) (auto simp: replay_def plain_putc_def split: prod.splits)

lemma printf_chars:
  "map_option (map fst) (printf_output color fmt val) = map_option (map fst) (printf_output color' fmt val)"
proof -
  have "printer_vprintf plain_putc c fmt val [] = map_option (map fst) (printf_output c fmt val)" for c
    using printf_replay_from[of plain_putc c fmt val "[]" "[]"] by (simp add: printf_output_def replay_plain)
  then show ?thesis using plain_printf[of color fmt val "[]" color'] by simp
qed

lemma replay_logged: "logged (pp_io (replay (parallel_port_putc dev) out p)) = logged (pp_io p) @ map (of_char \<circ> fst) out"
proof (induction out arbitrary: p)
  case (Cons x out)
  obtain evs where "pp_io (parallel_port_putc dev (fst x) (snd x) p) =
      pp_io p @ evs @ [Outb 0x378 (of_char (fst x)), Outb 0x37A 0xD, Outb 0x37A 0xC]" "logged evs = []"
    using parallel_port_events by blast
  then show ?case using Cons by (simp add: replay_def split_beta)
qed simp

text \<open>C34: the log and the screen say the same. Whenever \<open>error_vprintf\<close> prints, the console shows, and the parallel port is
  given, the same characters in the same order: those that the format and its arguments determine.\<close>

theorem error_vprintf_copies:
  assumes "error_vprintf dev cpos color fmt val (m, p) = Some (cpos', m', p')"
  shows "\<exists>out. printf_output color fmt val = Some out \<and> logged (pp_io p') = logged (pp_io p) @ map (of_char \<circ> fst) out \<and>
    \<lparr>cp_mem = m', cp_cursor = cpos'\<rparr> = replay console_putc out \<lparr>cp_mem = m, cp_cursor = if cpos < 0 \<or> cpos \<ge> 2000 then 0 else cpos\<rparr>"
proof -
  note r = printf_replay_from[of _ _ _ _ "[]", folded printf_output_def, unfolded replay_Nil]
  obtain out where out: "printf_output color fmt val = Some out"
    "\<lparr>cp_mem = m', cp_cursor = cpos'\<rparr> = replay console_putc out \<lparr>cp_mem = m, cp_cursor = if cpos < 0 \<or> cpos \<ge> 2000 then 0 else cpos\<rparr>"
    using assms by (auto simp: error_vprintf_def console_vprintf_def Let_def r split: Option.bind_splits)
  obtain out0 where o0: "printf_output 0 fmt val = Some out0" "p' = replay (parallel_port_putc dev) out0 p"
    using assms by (auto simp: error_vprintf_def log_vprintf_def r split: Option.bind_splits)
  have "map fst out0 = map fst out" using printf_chars[of 0 fmt val color] out(1) o0(1) by simp
  then have "map (of_char \<circ> fst) out0 = (map (of_char \<circ> fst) out :: 8 word list)" by (metis map_map)
  then show ?thesis using out o0(2) replay_logged by metis
qed

theorem error_vprintf_copies_witness:
  "\<exists>r out. error_vprintf (\<lambda>_ _. 0x80) 0 0x700 ''hi'' [] (\<lambda>_. 0, \<lparr>pp_initialized = True, pp_io = []\<rparr>) = Some r \<and>
     printf_output 0x700 ''hi'' [] = Some out \<and> logged (pp_io (snd (snd r))) = map (of_char \<circ> fst) out"
proof -
  obtain a b c where "error_vprintf (\<lambda>_ _. 0x80) 0 0x700 ''hi'' [] (\<lambda>_. 0, \<lparr>pp_initialized = True, pp_io = []\<rparr>) = Some (a, b, c)"
    by (simp add: error_vprintf_def log_vprintf_def console_vprintf_def)
  from error_vprintf_copies[OF this] this show ?thesis by auto
qed

section \<open>The keyboard\<close>

lemma keymap_codes: "list_all (\<lambda>k. 0 \<le> k \<and> k < 150 \<or> 192 \<le> k \<and> k \<le> 201 \<or> 250 \<le> k \<and> k \<le> 255) keymap" "length keymap = 256"
  by code_simp+

lemma complex_keymap_codes: "list_all (\<lambda>ks. length ks = 4 \<and> list_all (\<lambda>k. 0 \<le> k \<and> k < 128) ks) complex_keymap" "length complex_keymap = 22"
  by code_simp+

lemma keymap_nth: "i < 256 \<Longrightarrow> 0 \<le> keymap ! i \<and> keymap ! i < 150 \<or> 192 \<le> keymap ! i \<and> keymap ! i \<le> 201 \<or> 250 \<le> keymap ! i \<and> keymap ! i \<le> 255"
  using keymap_codes by (simp add: list_all_length)

lemma complex_nth:
  assumes "128 \<le> k" "k \<le> 149" "j < 4"
  shows "0 \<le> complex_keymap ! nat (k - 128) ! j" "complex_keymap ! nat (k - 128) ! j < 128"
proof -
  have i: "nat (k - 128) < 22" using assms by linarith
  have "length (complex_keymap ! nat (k - 128)) = 4 \<and> list_all (\<lambda>k. 0 \<le> k \<and> k < 128) (complex_keymap ! nat (k - 128))"
    using complex_keymap_codes i by (simp add: list_all_length)
  then show "0 \<le> complex_keymap ! nat (k - 128) ! j" "complex_keymap ! nat (k - 128) ! j < 128"
    using assms(3) by (simp_all add: list_all_length)
qed

text \<open>C35: what \<open>keyboard_readc\<close> returns. For every byte of the controller and every state of the modifiers it is -1 exactly when there is no byte; otherwise 0, an ASCII code, or one
  of the cursor keys of \<open>kernel.h\<close>, never the code of a modifier or an index into \<open>complex_keymap\<close>; and the escape state
  stays 0 or 0x80.\<close>

theorem keyboard_readc_type:
  fixes inp :: "8 word option"
  assumes "kb_last_escape kb \<in> {0, 0x80}"
  defines "ch \<equiv> fst (keyboard_readc inp kb)"
  shows "(ch = -1 \<longleftrightarrow> inp = None) \<and> (inp \<noteq> None \<longrightarrow> 0 \<le> ch \<and> ch < 128 \<or> 192 \<le> ch \<and> ch \<le> 201) \<and>
    kb_last_escape (snd (keyboard_readc inp kb)) \<in> {0, 0x80}"
proof (cases inp)
  case None
  then show ?thesis using assms by (simp add: keyboard_readc_def)
next
  case (Some data)
  have u: "unat (data OR kb_last_escape kb) < 256" "unat (kb_modifiers kb AND 3) < 4"
    using unsigned_less[of "data OR kb_last_escape kb"] and_mask_less'[of 2 "kb_modifiers kb"]
    by (simp_all add: word_less_nat_alt mask_numeral)
  note k = keymap_nth[OF u(1)]
  show ?thesis
    using k complex_nth[OF _ _ u(2), of "keymap ! unat (data OR kb_last_escape kb)"]
    unfolding ch_def Some keyboard_readc_def by (auto simp: Let_def)
qed

theorem keyboard_readc_type_witness:
  "fst (keyboard_readc (Some 0x1E) \<lparr>kb_modifiers = 1, kb_last_escape = 0\<rparr>) = 65 \<and>
   kb_last_escape (snd (keyboard_readc (Some 0x1E) \<lparr>kb_modifiers = 1, kb_last_escape = 0\<rparr>)) \<in> {0, 0x80}"
proof -
  have "fst (keyboard_readc (Some 0x1E) \<lparr>kb_modifiers = 1, kb_last_escape = 0\<rparr>) = 65" by code_simp
  then show ?thesis using keyboard_readc_type[of "\<lparr>kb_modifiers = 1, kb_last_escape = 0\<rparr>" "Some 0x1E"] by simp
qed

end
