(* ===== verification/Boot.thy ===== *)
theory Boot
  imports Devices Loader
begin

text \<open>
  The boot loader, from \<open>boot.c\<close>: it reads the first page of the kernel's ELF file from sector 1 of the disk
  to 0x10000, then every segment to its address, and jumps to the entry point.

  The disk is a parameter: \<open>dev\<close> answers reads of its status register, and \<open>ata\<close> is the block of 512 bytes that
  it delivers to \<open>insl\<close> at a point of the history of port accesses. \<open>None\<close> is a loop that does not end.
  Memory is the identity-mapped physical memory of the boot page table.
\<close>

unbundle bit_operations_syntax

section \<open>Reading a sector\<close>

type_synonym ata = "io_log \<Rightarrow> 8 word list"

partial_function (option) boot_waitdisk :: "device \<Rightarrow> io_log \<Rightarrow> io_log option" where
  "boot_waitdisk dev io =
     (let (status, io') = inb dev 0x1F7 io in
      if status AND 0xC0 \<noteq> 0x40 then boot_waitdisk dev io' else Some io')"

definition insl :: "ata \<Rightarrow> 16 word \<Rightarrow> 64 word \<Rightarrow> nat \<Rightarrow> memory \<times> io_log \<Rightarrow> memory \<times> io_log" where
  "insl ata port addr cnt = (\<lambda>(m, io). (store_bytes (take (4 * cnt) (ata io)) addr m, io @ [Insl port cnt]))"

definition boot_readsect :: "device \<Rightarrow> ata \<Rightarrow> 64 word \<Rightarrow> 32 word \<Rightarrow> memory \<times> io_log \<Rightarrow> (memory \<times> io_log) option" where
  "boot_readsect dev ata dst src_sect = (\<lambda>(m, io).
     do { io \<leftarrow> boot_waitdisk dev io;
          let io = outb 0x1F2 1 io;
          let io = outb 0x1F3 (ucast src_sect) io;
          let io = outb 0x1F4 (ucast (drop_bit 8 src_sect)) io;
          let io = outb 0x1F5 (ucast (drop_bit 16 src_sect)) io;
          let io = outb 0x1F6 (ucast (drop_bit 24 src_sect OR 0xE0)) io;
          let io = outb 0x1F7 0x20 io;
          io \<leftarrow> boot_waitdisk dev io;
          Some (insl ata 0x1F0 dst (512 div 4) (m, io)) })"

section \<open>Reading a segment\<close>

partial_function (option) boot_read_loop ::
  "device \<Rightarrow> ata \<Rightarrow> 64 word \<Rightarrow> 64 word \<Rightarrow> 32 word \<Rightarrow> memory \<times> io_log \<Rightarrow> (memory \<times> io_log) option" where
  "boot_read_loop dev ata ptr end_ptr src_sect st =
     (if ptr < end_ptr then
        do { st \<leftarrow> boot_readsect dev ata ptr src_sect st;
             boot_read_loop dev ata (ptr + 512) end_ptr (src_sect + 1) st }
      else Some st)"

text \<open>The loop that clears the rest of the segment, over the bytes left.\<close>

primrec boot_clear :: "nat \<Rightarrow> 64 word \<Rightarrow> memory \<Rightarrow> memory" where
  "boot_clear 0 end_ptr m = m"
| "boot_clear (Suc n) end_ptr m = boot_clear n (end_ptr + 1) (m(end_ptr := 0))"

definition boot_readseg ::
  "device \<Rightarrow> ata \<Rightarrow> 64 word \<Rightarrow> 32 word \<Rightarrow> 64 word \<Rightarrow> 64 word \<Rightarrow> memory \<times> io_log \<Rightarrow> (memory \<times> io_log) option" where
  "boot_readseg dev ata ptr src_sect filesz memsz st =
     (let end_ptr = ptr + filesz; memsz = memsz + ptr; ptr = ptr AND NOT (512 - 1) in
      do { (m, io) \<leftarrow> boot_read_loop dev ata ptr end_ptr src_sect st;
           Some (boot_clear (unat memsz - unat end_ptr) end_ptr m, io) })"

section \<open>Loading the kernel\<close>

text \<open>The loop over the program headers, over the headers left; the headers are read as it goes.\<close>

primrec boot_segments :: "device \<Rightarrow> ata \<Rightarrow> nat \<Rightarrow> 64 word \<Rightarrow> memory \<times> io_log \<Rightarrow> (memory \<times> io_log) option" where
  "boot_segments dev ata 0 ph st = Some st"
| "boot_segments dev ata (Suc n) ph st =
     (let h = read_elf_program (fst st) ph in
      do { st \<leftarrow> boot_readseg dev ata (p_va h) (ucast (p_offset h div 512 + 1)) (p_filesz h) (p_memsz h) st;
           boot_segments dev ata n (ph + 56) st })"

text \<open>The result is the address that \<open>boot\<close> jumps to. Without the ELF magic number it waits for ever.\<close>

definition boot :: "device \<Rightarrow> ata \<Rightarrow> memory \<times> io_log \<Rightarrow> (64 word \<times> memory \<times> io_log) option" where
  "boot dev ata st =
     do { st \<leftarrow> boot_readseg dev ata 0x10000 1 PAGESIZE PAGESIZE st;
          let hdr = read_elf_header (fst st) 0x10000;
          if e_magic hdr \<noteq> 0x464C457F then None
          else do { st \<leftarrow> boot_segments dev ata (unat (e_phnum hdr)) (0x10000 + e_phoff hdr) st;
                    Some (e_entry (read_elf_header (fst st) 0x10000), st) } }"


section \<open>The disk\<close>

text \<open>
  What the loader relies on. \<open>responsive\<close>: from every point of the history the status register becomes ready after
  finitely many polls. \<open>ata_reads disk\<close>: after a read command for one sector the drive delivers the sector whose
  28-bit number was written to its registers.
\<close>

primrec polled :: "device \<Rightarrow> nat \<Rightarrow> io_log \<Rightarrow> io_log" where
  "polled dev 0 io = io"
| "polled dev (Suc n) io = polled dev n (snd (inb dev 0x1F7 io))"

definition responsive :: "device \<Rightarrow> bool" where
  "responsive dev \<longleftrightarrow> (\<forall>io. \<exists>n. dev (polled dev n io) 0x1F7 AND 0xC0 = 0x40)"

definition last_out :: "16 word \<Rightarrow> io_log \<Rightarrow> 8 word" where
  "last_out port io = fold (\<lambda>e v. case e of Outb p d \<Rightarrow> if p = port then d else v | _ \<Rightarrow> v) io 0"

definition ata_request :: "io_log \<Rightarrow> nat" where
  "ata_request io =
     unat (last_out 0x1F3 io) + 256 * unat (last_out 0x1F4 io) + 65536 * unat (last_out 0x1F5 io) +
     16777216 * (unat (last_out 0x1F6 io) mod 16)"

definition ata_reads :: "(nat \<Rightarrow> 8 word list) \<Rightarrow> ata \<Rightarrow> bool" where
  "ata_reads disk ata \<longleftrightarrow>
     (\<forall>k. length (disk k) = 512) \<and>
     (\<forall>io. last_out 0x1F7 io = 0x20 \<longrightarrow> last_out 0x1F2 io = 1 \<longrightarrow> ata io = disk (ata_request io))"

definition disk_byte :: "(nat \<Rightarrow> 8 word list) \<Rightarrow> nat \<Rightarrow> 8 word" where
  "disk_byte disk i = disk (i div 512) ! (i mod 512)"

lemma last_out_simps [simp]:
  "last_out port (io @ [Outb p d]) = (if p = port then d else last_out port io)"
  "last_out port (io @ [Inb p d]) = last_out port io" "last_out port (io @ [Insl p n]) = last_out port io"
  by (simp_all add: last_out_def)

lemma waitdisk_polled:
  "dev (polled dev n io) 0x1F7 AND 0xC0 = 0x40 \<Longrightarrow> \<exists>io'. boot_waitdisk dev io = Some io' \<and> last_out port io' = last_out port io"
proof (induction n arbitrary: io)
  case 0
  then show ?case by (subst boot_waitdisk.simps) (simp add: inb_def Let_def)
next
  case (Suc n)
  show ?case
  proof (cases "dev io 0x1F7 AND 0xC0 = 0x40")
    case True
    then show ?thesis by (subst boot_waitdisk.simps) (simp add: inb_def Let_def)
  next
    case False
    then have "boot_waitdisk dev io = boot_waitdisk dev (snd (inb dev 0x1F7 io))"
      by (subst boot_waitdisk.simps) (simp add: inb_def Let_def)
    then show ?thesis using Suc.IH[of "io @ [Inb 0x1F7 (dev io 0x1F7)]"] Suc.prems by (simp add: inb_def Let_def)
  qed
qed

lemma waitdisk_returns:
  assumes "responsive dev"
  obtains io' where "boot_waitdisk dev io = Some io'" "\<And>port. last_out port io' = last_out port io"
proof -
  obtain n where n: "dev (polled dev n io) 0x1F7 AND 0xC0 = 0x40" using assms unfolding responsive_def by blast
  from waitdisk_polled[of dev n io, OF n] that show thesis by (metis option.inject)
qed

lemma sector_registers:
  fixes s :: "32 word"
  assumes "unat s < 2 ^ 28"
  shows "unat (ucast s :: 8 word) + 256 * unat (ucast (drop_bit 8 s) :: 8 word) + 65536 * unat (ucast (drop_bit 16 s) :: 8 word) +
    16777216 * (unat (ucast (drop_bit 24 s OR 0xE0) :: 8 word) mod 16) = unat s"
proof -
  have u: "unat s < 4294967296" using unsigned_less[of s] by simp
  have lo: "unat (ucast (drop_bit k s) :: 8 word) = unat s div 2 ^ k mod 256" for k
    unfolding unsigned_ucast_eq unsigned_drop_bit_eq using u by (simp add: drop_bit_eq_div[where 'a = nat] take_bit_eq_mod[where 'a = nat])
  have "unat (ucast (drop_bit 24 s OR 0xE0) :: 8 word) mod 16 = unat s div 2 ^ 24 mod 16"
  proof -
    have e: "(0xE0 :: 32 word) = push_bit 5 (mask 3)" by (simp add: mask_numeral)
    have "take_bit 4 (ucast (drop_bit 24 s OR 0xE0) :: 8 word) = take_bit 4 (ucast (drop_bit 24 s))"
      unfolding e by (rule bit_word_eqI) (auto simp: bit_simps)
    from arg_cong[OF this, of unat] have "take_bit 4 (unat (ucast (drop_bit 24 s OR 0xE0) :: 8 word)) = take_bit 4 (unat (ucast (drop_bit 24 s) :: 8 word))"
      by (simp only: unsigned_take_bit_eq)
    then show ?thesis using mod_mod_cancel[of 16 256 "unat s div 2 ^ 24"] by (simp add: take_bit_eq_mod lo)
  qed
  moreover have "unat s div 2 ^ 24 mod 16 = unat s div 2 ^ 24" using assms by (simp add: div_less_iff_less_mult)
  moreover have "x mod 256 + 256 * (x div 256 mod 256) + 65536 * (x div 65536 mod 256) + 16777216 * (x div 16777216) = x" for x :: nat
  proof -
    have d: "x div 65536 = x div 256 div 256" "x div 16777216 = x div 256 div 256 div 256" by (simp_all add: div_mult2_eq[symmetric])
    have e: "y mod 256 + 256 * (y div 256) = y" for y :: nat by simp
    show ?thesis unfolding d using e[of x] e[of "x div 256"] e[of "x div 256 div 256"] by linarith
  qed
  ultimately show ?thesis using lo[of 0] lo[of 8] lo[of 16] by simp
qed

section \<open>What the loops read\<close>

lemma readsect_ok:
  assumes "responsive dev" "ata_reads disk ata" "unat s < 2 ^ 28"
  shows "\<exists>io'. boot_readsect dev ata dst s (m, io) = Some (store_bytes (disk (unat s)) dst m, io')"
proof -
  obtain io1 where io1: "boot_waitdisk dev io = Some io1" by (rule waitdisk_returns[OF assms(1)])
  let ?o = "io1 @ [Outb 0x1F2 1] @ [Outb 0x1F3 (ucast s)] @ [Outb 0x1F4 (ucast (drop_bit 8 s))] @ [Outb 0x1F5 (ucast (drop_bit 16 s))] @
    [Outb 0x1F6 (ucast (drop_bit 24 s OR 0xE0))] @ [Outb 0x1F7 0x20]"
  obtain io2 where io2: "boot_waitdisk dev ?o = Some io2" "\<And>port. last_out port io2 = last_out port ?o"
    by (rule waitdisk_returns[OF assms(1)]) blast
  have r: "last_out port ?o = (if port = 0x1F7 then 0x20 else if port = 0x1F6 then ucast (drop_bit 24 s OR 0xE0)
      else if port = 0x1F5 then ucast (drop_bit 16 s) else if port = 0x1F4 then ucast (drop_bit 8 s)
      else if port = 0x1F3 then ucast s else if port = 0x1F2 then 1 else last_out port io1)" for port
    unfolding append_assoc[symmetric] last_out_simps by auto
  have "ata_request io2 = unat s" unfolding ata_request_def io2(2) r using sector_registers[OF assms(3)] by simp
  moreover have "last_out 0x1F7 io2 = 0x20" "last_out 0x1F2 io2 = 1" unfolding io2(2) r by simp_all
  ultimately have "ata io2 = disk (unat s)" "length (disk (unat s)) = 512" using assms(2) by (simp_all add: ata_reads_def)
  then show ?thesis using io1 io2(1) by (simp add: boot_readsect_def outb_def insl_def)
qed

text \<open>The sectors that hold the bytes from \<open>lo\<close> up to \<open>hi\<close>, for a sector boundary \<open>lo\<close>.\<close>

definition sectors :: "nat \<Rightarrow> nat \<Rightarrow> nat" where
  "sectors lo hi = (hi - lo + 511) div 512"

lemma read_loop_ok:
  assumes "responsive dev" "ata_reads disk ata" "unat e \<le> 2 ^ 63"
    and "unat s + sectors (unat p) (unat e) \<le> 2 ^ 28"
  shows "\<exists>m' io'. boot_read_loop dev ata p e s (m, io) = Some (m', io') \<and>
    (\<forall>x. m' x = (if unat p \<le> unat x \<and> unat x < unat p + 512 * sectors (unat p) (unat e)
                  then disk_byte disk (512 * unat s + (unat x - unat p)) else m x))"
  using assms(4)
proof (induction "sectors (unat p) (unat e)" arbitrary: p s m io)
  case 0
  then have "\<not> p < e" by (simp add: sectors_def word_less_nat_alt div_eq_0_iff)
  moreover have "512 * sectors (unat p) (unat e) = 0" using 0(1) by simp
  ultimately show ?case by (subst boot_read_loop.simps) (auto simp del: mult_eq_0_iff)
next
  case (Suc n)
  have lt: "unat p < unat e"
  proof (rule ccontr)
    assume "\<not> unat p < unat e"
    then have "sectors (unat p) (unat e) = 0" by (simp add: sectors_def)
    with Suc.hyps(2) show False by simp
  qed
  have s: "unat s < 2 ^ 28" using Suc.prems Suc.hyps(2) by simp
  have s1: "unat (s + 1) = unat s + 1" using s by (simp add: unat_word_ariths)
  have p1: "unat (p + 512) = unat p + 512" using lt assms(3) by (simp add: unat_word_ariths)
  have k: "sectors (unat p) (unat e) = Suc (sectors (unat (p + 512)) (unat e))"
    unfolding sectors_def p1 using lt by (cases "unat e \<le> unat p + 512") (auto simp: div_nat_eqI le_div_geq[of 512 "unat e - unat p + 511"])
  then have n: "n = sectors (unat (p + 512)) (unat e)" using Suc.hyps(2) by simp
  obtain io1 where r: "boot_readsect dev ata p s (m, io) = Some (store_bytes (disk (unat s)) p m, io1)"
    using readsect_ok[OF assms(1,2) s] by blast
  let ?m = "store_bytes (disk (unat s)) p m"
  obtain m' io' where l: "boot_read_loop dev ata (p + 512) e (s + 1) (?m, io1) = Some (m', io')"
    "\<And>x. m' x = (if unat (p + 512) \<le> unat x \<and> unat x < unat (p + 512) + 512 * n
        then disk_byte disk (512 * unat (s + 1) + (unat x - unat (p + 512))) else ?m x)"
    using Suc.hyps(1)[OF n, of "s + 1" ?m io1] Suc.prems k s1 n by auto
  have len: "length (disk (unat s)) = 512" using assms(2) by (simp add: ata_reads_def)
  have mx: "?m x = (if unat p \<le> unat x \<and> unat x < unat p + 512 then disk_byte disk (512 * unat s + (unat x - unat p)) else m x)" for x
  proof (cases "unat p \<le> unat x")
    case True
    then have d: "unat (x - p) = unat x - unat p" by (simp add: unat_sub word_le_nat_alt)
    have "(512 * unat s + i) div 512 = unat s \<and> (512 * unat s + i) mod 512 = i" if "i < 512" for i using that by simp
    then have "disk_byte disk (512 * unat s + i) = disk (unat s) ! i" if "i < 512" for i using that by (simp add: disk_byte_def)
    from this[of "unat x - unat p"] show ?thesis using True by (auto simp: store_bytes_at len d)
  next
    case False
    have "512 \<le> unat (x - p)"
    proof -
      have "unat (x - p) = unat x + 2 ^ 64 - unat p" using False by (simp add: unat_sub_if' word_le_nat_alt)
      then show ?thesis using lt assms(3) by simp
    qed
    then show ?thesis using False by (simp add: store_bytes_at len)
  qed
  have "m' x = (if unat p \<le> unat x \<and> unat x < unat p + 512 * Suc n then disk_byte disk (512 * unat s + (unat x - unat p)) else m x)" for x
  proof (cases "unat p + 512 \<le> unat x")
    case True
    then have "512 * (unat s + 1) + (unat x - (unat p + 512)) = 512 * unat s + (unat x - unat p)" by simp
    with True show ?thesis unfolding l(2) mx p1 s1 by auto
  next
    case False
    then show ?thesis unfolding l(2) mx p1 by auto
  qed
  moreover have "boot_read_loop dev ata p e s (m, io) = Some (m', io')"
    using lt r l(1) by (subst boot_read_loop.simps) (simp add: word_less_nat_alt)
  ultimately show ?case unfolding Suc.hyps(2)[symmetric] by blast
qed

lemma sector_base: "unat (a AND NOT (512 - 1)) = 512 * (unat a div 512)" for a :: "64 word"
proof -
  have m: "(512 - 1 :: 64 word) = mask 9" by (simp add: mask_numeral)
  have "(a AND NOT (mask 9)) OR (a AND mask 9) = a" "(a AND NOT (mask 9)) AND (a AND mask 9) = 0"
    by (rule bit_word_eqI; auto simp: bit_simps)+
  then have "a = (a AND NOT (mask 9)) + (a AND mask 9)" using disjunctive_add_eq_or by metis
  then have "a AND NOT (mask 9) = a - (a AND mask 9)" by (metis add_diff_cancel_right')
  moreover have "unat (a AND mask 9) = unat a mod 512" by (simp add: take_bit_eq_mask[symmetric] take_bit_eq_mod unat_mod)
  moreover have "a AND mask 9 \<le> a" by (simp add: word_le_nat_alt take_bit_eq_mask[symmetric] take_bit_eq_mod unat_mod)
  ultimately have "unat (a AND NOT (mask 9)) = unat a - unat a mod 512" by (simp add: unat_sub)
  then show ?thesis unfolding m by (simp add: minus_mod_eq_mult_div)
qed

lemma boot_clear_store: "boot_clear n e m = store_bytes (replicate n 0) e m"
  by (induction n arbitrary: e m) simp_all

text \<open>The bytes of memory that \<open>boot_readseg\<close> writes, from \<open>lo\<close> up to \<open>hi\<close>.\<close>

definition seg_lo :: "64 word \<Rightarrow> nat" where
  "seg_lo p = 512 * (unat p div 512)"

definition seg_hi :: "64 word \<Rightarrow> 64 word \<Rightarrow> nat" where
  "seg_hi p fs = seg_lo p + 512 * sectors (seg_lo p) (unat p + unat fs)"

lemma readseg_ok:
  assumes "responsive dev" "ata_reads disk ata" "unat p + unat ms \<le> 2 ^ 63" "fs \<le> ms"
    and "unat s + sectors (seg_lo p) (unat p + unat fs) \<le> 2 ^ 28"
  shows "\<exists>m' io'. boot_readseg dev ata p s fs ms (m, io) = Some (m', io') \<and>
    (\<forall>x. m' x = (if unat p + unat fs \<le> unat x \<and> unat x < unat p + unat ms then 0
                  else if seg_lo p \<le> unat x \<and> unat x < seg_hi p fs then disk_byte disk (512 * unat s + (unat x - seg_lo p)) else m x))"
proof -
  have fm: "unat fs \<le> unat ms" using assms(4) by (simp add: word_le_nat_alt)
  have e: "unat (p + fs) = unat p + unat fs" using assms(3) fm by (simp add: unat_word_ariths)
  have e2: "unat (ms + p) = unat p + unat ms" using assms(3) by (simp add: unat_word_ariths)
  let ?b = "p AND NOT (512 - 1)"
  have b: "unat ?b = seg_lo p" by (simp only: sector_base seg_lo_def)
  obtain m1 io1 where l: "boot_read_loop dev ata ?b (p + fs) s (m, io) = Some (m1, io1)"
    "\<And>x. m1 x = (if seg_lo p \<le> unat x \<and> unat x < seg_hi p fs then disk_byte disk (512 * unat s + (unat x - seg_lo p)) else m x)"
    using read_loop_ok[OF assms(1,2), of "p + fs" s ?b m io] assms(3,5) fm unfolding b e seg_hi_def by auto
  have c: "boot_clear (unat (ms + p) - unat (p + fs)) (p + fs) m1 x =
      (if unat p + unat fs \<le> unat x \<and> unat x < unat p + unat ms then 0 else m1 x)" for x
  proof -
    have n: "length (replicate (unat ms - unat fs) (0 :: 8 word)) < 2 ^ 64" using assms(3) by simp
    show ?thesis
    proof (cases "unat p + unat fs \<le> unat x")
      case True
      then have "unat (x - (p + fs)) = unat x - (unat p + unat fs)" using e by (simp add: unat_sub word_le_nat_alt)
      with True show ?thesis unfolding boot_clear_store e e2 by (auto simp: store_bytes_at[OF n])
    next
      case False
      have "unat (x - (p + fs)) = unat x + 2 ^ 64 - (unat p + unat fs)" using False e by (simp add: unat_sub_if' word_le_nat_alt)
      then have "\<not> unat (x - (p + fs)) < unat ms - unat fs" using assms(3) fm by simp
      with False show ?thesis unfolding boot_clear_store e e2 by (auto simp: store_bytes_at[OF n])
    qed
  qed
  show ?thesis unfolding boot_readseg_def Let_def l(1) using c l(2) by simp
qed

section \<open>The boot loader\<close>

text \<open>
  The kernel's file is on the disk from sector 1 on: its ELF headers as if the whole file were loaded at 0x10000.
  \<open>bootable\<close>: the program headers are in the first page; each segment has its address and its offset in the file in
  step with the sectors, and the sectors of the segments do not overlap each other or the page of the headers.
\<close>

definition disk_file :: "(nat \<Rightarrow> 8 word list) \<Rightarrow> nat \<Rightarrow> 8 word" where
  "disk_file disk i = disk_byte disk (512 + i)"

definition boot_image :: "(nat \<Rightarrow> 8 word list) \<Rightarrow> memory" where
  "boot_image disk x = disk_file disk (unat x - 0x10000)"

definition boot_headers :: "memory \<Rightarrow> elf_program list" where
  "boot_headers img =
     (let hdr = read_elf_header img 0x10000 in
      map (\<lambda>j. read_elf_program img (0x10000 + e_phoff hdr + of_nat (56 * j))) [0..<unat (e_phnum hdr)])"

definition boot_extent :: "elf_program \<Rightarrow> nat set" where
  "boot_extent h = {seg_lo (p_va h)..<max (seg_hi (p_va h) (p_filesz h)) (unat (p_va h) + unat (p_memsz h))}"

definition boot_seg_ok :: "elf_program \<Rightarrow> bool" where
  "boot_seg_ok h \<longleftrightarrow>
     unat (p_va h) + unat (p_memsz h) \<le> 2 ^ 63 \<and> p_filesz h \<le> p_memsz h \<and> unat (p_offset h) + unat (p_filesz h) \<le> 2 ^ 36 \<and>
     unat (p_offset h) mod 512 = unat (p_va h) mod 512 \<and> boot_extent h \<inter> {0x10000..<0x11000} = {}"

primrec boot_apart :: "elf_program list \<Rightarrow> bool" where
  "boot_apart [] = True"
| "boot_apart (h # hs) = ((\<forall>g \<in> set hs. boot_extent h \<inter> boot_extent g = {}) \<and> boot_apart hs)"

definition bootable :: "memory \<Rightarrow> bool" where
  "bootable img \<longleftrightarrow>
     (let hdr = read_elf_header img 0x10000 in
      e_magic hdr = 0x464C457F \<and> unat (e_phoff hdr) + 56 * unat (e_phnum hdr) \<le> 4096 \<and>
      list_all boot_seg_ok (boot_headers img) \<and> boot_apart (boot_headers img))"

text \<open>A segment in memory.\<close>

definition boot_loaded :: "(nat \<Rightarrow> 8 word) \<Rightarrow> memory \<Rightarrow> elf_program \<Rightarrow> bool" where
  "boot_loaded file m h \<longleftrightarrow>
     (\<forall>i < unat (p_filesz h). m (p_va h + of_nat i) = file (unat (p_offset h) + i)) \<and>
     (\<forall>i. unat (p_filesz h) \<le> i \<longrightarrow> i < unat (p_memsz h) \<longrightarrow> m (p_va h + of_nat i) = 0)"

lemma boot_address:
  assumes "boot_seg_ok h" "i < unat (p_memsz h)"
  shows "unat (p_va h + of_nat i) = unat (p_va h) + i" "unat (p_va h + of_nat i) \<in> boot_extent h"
proof -
  have "unat (p_va h) + i < 2 ^ 64" using assms by (simp add: boot_seg_ok_def)
  then show u: "unat (p_va h + of_nat i) = unat (p_va h) + i" by (simp add: unat_word_ariths unat_of_nat)
  have "seg_lo (p_va h) \<le> unat (p_va h)" by (simp add: seg_lo_def)
  then show "unat (p_va h + of_nat i) \<in> boot_extent h" unfolding u using assms(2) by (simp add: boot_extent_def)
qed

lemma readseg_segment:
  assumes "responsive dev" "ata_reads disk ata" "boot_seg_ok h"
  shows "\<exists>m' io'. boot_readseg dev ata (p_va h) (ucast (p_offset h div 512 + 1)) (p_filesz h) (p_memsz h) (m, io) = Some (m', io') \<and>
    boot_loaded (disk_file disk) m' h \<and> (\<forall>x. unat x \<notin> boot_extent h \<longrightarrow> m' x = m x)"
proof -
  note o = assms(3)[unfolded boot_seg_ok_def]
  let ?s = "ucast (p_offset h div 512 + 1) :: 32 word" and ?lo = "seg_lo (p_va h)"
  have d: "unat (p_offset h) div 512 < 2 ^ 27 + 1" using o by (simp add: div_less_iff_less_mult)
  have "unat (p_offset h div 512 + 1) = unat (p_offset h) div 512 + 1" using d by (simp add: unat_word_ariths unat_div)
  then have s: "unat ?s = unat (p_offset h) div 512 + 1" using d by (simp add: unsigned_ucast_eq take_bit_eq_mod)
  have lo: "?lo \<le> unat (p_va h)" by (simp add: seg_lo_def)
  have vm: "unat (p_va h) - ?lo = unat (p_offset h) mod 512" using o by (simp add: seg_lo_def minus_mult_div_eq_mod)
  have "unat ?s + sectors ?lo (unat (p_va h) + unat (p_filesz h)) = (unat (p_offset h) + unat (p_filesz h) + 511) div 512 + 1"
  proof -
    define a b where "a = unat (p_offset h) div 512" and "b = unat (p_offset h) mod 512"
    have ab: "unat (p_offset h) = 512 * a + b" by (simp add: a_def b_def)
    have "unat (p_va h) + unat (p_filesz h) - ?lo = b + unat (p_filesz h)" using vm lo by (simp add: b_def)
    then have "sectors ?lo (unat (p_va h) + unat (p_filesz h)) = (b + unat (p_filesz h) + 511) div 512" by (simp add: sectors_def)
    moreover have "(512 * a + b + unat (p_filesz h) + 511) div 512 = a + (b + unat (p_filesz h) + 511) div 512" by (simp add: add.assoc)
    ultimately show ?thesis unfolding s ab by (simp add: a_def[symmetric] ab[symmetric])
  qed
  moreover have "(unat (p_offset h) + unat (p_filesz h) + 511) div 512 \<le> (2 ^ 36 + 511) div 512" using o by (intro div_le_mono) simp
  ultimately have "unat ?s + sectors ?lo (unat (p_va h) + unat (p_filesz h)) \<le> 2 ^ 28" by simp
  then obtain m' io' where r: "boot_readseg dev ata (p_va h) ?s (p_filesz h) (p_memsz h) (m, io) = Some (m', io')"
    "\<And>x. m' x = (if unat (p_va h) + unat (p_filesz h) \<le> unat x \<and> unat x < unat (p_va h) + unat (p_memsz h) then 0
        else if ?lo \<le> unat x \<and> unat x < seg_hi (p_va h) (p_filesz h) then disk_byte disk (512 * unat ?s + (unat x - ?lo)) else m x)"
    using readseg_ok[OF assms(1,2), of "p_va h" "p_memsz h" "p_filesz h" ?s m io] o by auto
  have hi: "unat (p_va h) + unat (p_filesz h) \<le> seg_hi (p_va h) (p_filesz h)"
  proof -
    have "n \<le> 512 * ((n + 511) div 512)" for n :: nat using mult_div_mod_eq[of 512 "n + 511"] mod_less_divisor[of 512 "n + 511"] by linarith
    from this[of "unat (p_va h) + unat (p_filesz h) - ?lo"] show ?thesis using lo by (simp add: seg_hi_def sectors_def)
  qed
  have fm: "unat (p_filesz h) \<le> unat (p_memsz h)" using o by (simp add: word_le_nat_alt)
  have "m' (p_va h + of_nat i) = disk_file disk (unat (p_offset h) + i)" if i: "i < unat (p_filesz h)" for i
  proof -
    have u: "unat (p_va h + of_nat i) = unat (p_va h) + i" using boot_address(1)[OF assms(3)] i fm by simp
    have "512 * unat ?s + (unat (p_va h) + i - ?lo) = 512 + (512 * (unat (p_offset h) div 512) + unat (p_offset h) mod 512) + i"
      unfolding s vm[symmetric] using lo by simp
    then have "512 * unat ?s + (unat (p_va h) + i - ?lo) = 512 + unat (p_offset h) + i" by (simp only: mult_div_mod_eq)
    then show ?thesis unfolding r(2) u disk_file_def using i lo hi by (simp add: add.assoc)
  qed
  moreover have "m' (p_va h + of_nat i) = 0" if "unat (p_filesz h) \<le> i" "i < unat (p_memsz h)" for i
    unfolding r(2) boot_address(1)[OF assms(3) that(2)] using that by simp
  ultimately have "boot_loaded (disk_file disk) m' h" by (simp add: boot_loaded_def)
  moreover have "m' x = m x" if "unat x \<notin> boot_extent h" for x using that lo unfolding r(2) by (auto simp: boot_extent_def)
  ultimately show ?thesis using r(1) by blast
qed

definition headers_at :: "memory \<Rightarrow> 64 word \<Rightarrow> nat \<Rightarrow> elf_program list" where
  "headers_at m ph n = map (\<lambda>j. read_elf_program m (ph + of_nat (56 * j))) [0..<n]"

lemma headers_at_Suc: "headers_at m ph (Suc n) = read_elf_program m ph # headers_at m (ph + 56) n"
  unfolding headers_at_def upt_conv_Cons[OF zero_less_Suc] map_Suc_upt[symmetric] by (simp add: algebra_simps)

lemma headers_at_cong:
  assumes "\<And>i. i < 56 * n \<Longrightarrow> m' (ph + of_nat i) = m (ph + of_nat i)"
  shows "headers_at m' ph n = headers_at m ph n"
  unfolding headers_at_def
proof (rule map_cong[OF refl], rule read_elf_program_cong)
  fix j i assume j: "j \<in> set [0..<n]" and i: "i < (56 :: nat)"
  then have "56 * j + i < 56 * n" by simp
  from assms[OF this] show "m' (ph + of_nat (56 * j) + of_nat i) = m (ph + of_nat (56 * j) + of_nat i)" by (simp add: add.assoc)
qed

lemma header_page:
  fixes ph :: "64 word"
  assumes "0x10000 \<le> unat ph" "unat ph + k \<le> 0x11000" "i < k"
  shows "unat (ph + of_nat i) \<in> {0x10000..<0x11000}"
proof -
  have "unat (ph + of_nat i) = unat ph + i" using assms by (simp add: unat_word_ariths unat_of_nat)
  then show ?thesis using assms by simp
qed

lemma boot_loaded_cong:
  assumes "boot_seg_ok h" "\<And>x. unat x \<in> boot_extent h \<Longrightarrow> m' x = m x" "boot_loaded (disk_file disk) m h"
  shows "boot_loaded (disk_file disk) m' h"
proof -
  have fm: "unat (p_filesz h) \<le> unat (p_memsz h)" using assms(1) by (simp add: boot_seg_ok_def word_le_nat_alt)
  have "m' (p_va h + of_nat i) = m (p_va h + of_nat i)" if "i < unat (p_memsz h)" for i using boot_address(2)[OF assms(1) that] assms(2) by blast
  then show ?thesis using assms(3) fm by (simp add: boot_loaded_def)
qed

lemma boot_segments_ok:
  assumes "responsive dev" "ata_reads disk ata" "0x10000 \<le> unat ph" "unat ph + 56 * n \<le> 0x11000"
    and "list_all boot_seg_ok (headers_at m ph n)" "boot_apart (headers_at m ph n)"
  shows "\<exists>m' io'. boot_segments dev ata n ph (m, io) = Some (m', io') \<and>
    (\<forall>h \<in> set (headers_at m ph n). boot_loaded (disk_file disk) m' h) \<and>
    (\<forall>x. (\<forall>h \<in> set (headers_at m ph n). unat x \<notin> boot_extent h) \<longrightarrow> m' x = m x)"
  using assms(3-)
proof (induction n arbitrary: ph m io)
  case 0
  then show ?case by (simp add: headers_at_def)
next
  case (Suc n)
  let ?h = "read_elf_program m ph" and ?hs = "headers_at m (ph + 56) n"
  have ok: "boot_seg_ok ?h" "list_all boot_seg_ok ?hs" and ap: "\<forall>g \<in> set ?hs. boot_extent ?h \<inter> boot_extent g = {}" "boot_apart ?hs"
    using Suc.prems(3,4) by (simp_all add: headers_at_Suc)
  obtain m1 io1 where r: "boot_readseg dev ata (p_va ?h) (ucast (p_offset ?h div 512 + 1)) (p_filesz ?h) (p_memsz ?h) (m, io) = Some (m1, io1)"
    "boot_loaded (disk_file disk) m1 ?h" "\<And>x. unat x \<notin> boot_extent ?h \<Longrightarrow> m1 x = m x"
    using readseg_segment[OF assms(1,2) ok(1), of m io] by blast
  have pg: "unat (ph + 56) = unat ph + 56" using Suc.prems(2) by (simp add: unat_word_ariths)
  have p: "0x10000 \<le> unat (ph + 56)" "unat (ph + 56) + 56 * n \<le> 0x11000" unfolding pg using Suc.prems(1,2) by simp_all
  have "m1 (ph + 56 + of_nat i) = m (ph + 56 + of_nat i)" if "i < 56 * n" for i
    using header_page[OF p that] ok(1) by (intro r(3)) (auto simp: boot_seg_ok_def)
  then have hs: "headers_at m1 (ph + 56) n = ?hs" by (rule headers_at_cong)
  obtain m' io' where t: "boot_segments dev ata n (ph + 56) (m1, io1) = Some (m', io')" "\<forall>h \<in> set ?hs. boot_loaded (disk_file disk) m' h"
    "\<And>x. \<forall>h \<in> set ?hs. unat x \<notin> boot_extent h \<Longrightarrow> m' x = m1 x"
    using Suc.IH[OF p, of m1 io1] ok(2) ap(2) unfolding hs by blast
  have "boot_loaded (disk_file disk) m' ?h" by (rule boot_loaded_cong[OF ok(1) t(3) r(2)]) (use ap(1) in blast)
  moreover have "boot_segments dev ata (Suc n) ph (m, io) = Some (m', io')" using r(1) t(1) by (simp add: Let_def)
  ultimately show ?case using t(2,3) r(3) by (auto simp: headers_at_Suc)
qed

text \<open>The boot loader loads the kernel. If the disk answers its registers as an ATA drive does and the file from sector 1 on is a kernel
  that can be booted, then \<open>boot\<close> ends, whatever memory held: it jumps to the entry point of the ELF header, and every segment is
  in memory at its address, byte for byte as in the file, with zeros up to its size in memory.\<close>

lemma boot_ok:
  assumes "responsive dev" "ata_reads disk ata" "bootable (boot_image disk)"
  shows "\<exists>m' io'. boot dev ata (m, io) = Some (e_entry (read_elf_header (boot_image disk) 0x10000), m', io') \<and>
    (\<forall>h \<in> set (boot_headers (boot_image disk)). boot_loaded (disk_file disk) m' h)"
proof -
  define hdr where "hdr = read_elf_header (boot_image disk) 0x10000"
  have b: "e_magic hdr = 0x464C457F" "unat (e_phoff hdr) + 56 * unat (e_phnum hdr) \<le> 4096"
    "list_all boot_seg_ok (boot_headers (boot_image disk))" "boot_apart (boot_headers (boot_image disk))"
    using assms(3) by (simp_all add: bootable_def hdr_def Let_def)
  have lo: "seg_lo 0x10000 = 0x10000" "seg_hi 0x10000 PAGESIZE = 0x11000" by (simp_all add: seg_lo_def seg_hi_def sectors_def)
  obtain m1 io1 where r: "boot_readseg dev ata 0x10000 1 PAGESIZE PAGESIZE (m, io) = Some (m1, io1)"
    "\<And>x. unat x \<in> {0x10000..<0x11000} \<Longrightarrow> m1 x = boot_image disk x"
    using readseg_ok[OF assms(1,2), of "0x10000" PAGESIZE PAGESIZE 1 m io] lo by (auto simp: sectors_def boot_image_def disk_file_def)
  let ?ph = "0x10000 + e_phoff hdr" and ?n = "unat (e_phnum hdr)"
  have up: "unat ?ph = 0x10000 + unat (e_phoff hdr)" using b(2) by (simp add: unat_word_ariths)
  have p: "0x10000 \<le> unat ?ph" "unat ?ph + 56 * ?n \<le> 0x11000" unfolding up using b(2) by simp_all
  have he: "read_elf_header m1 0x10000 = hdr"
    unfolding hdr_def by (rule read_elf_header_cong, rule r(2), rule header_page) simp_all
  have hs: "headers_at m1 ?ph ?n = boot_headers (boot_image disk)"
  proof -
    have "headers_at m1 ?ph ?n = headers_at (boot_image disk) ?ph ?n"
      by (rule headers_at_cong, rule r(2), rule header_page[OF p])
    then show ?thesis by (simp add: headers_at_def boot_headers_def hdr_def Let_def)
  qed
  obtain m' io' where t: "boot_segments dev ata ?n ?ph (m1, io1) = Some (m', io')" "\<forall>h \<in> set (boot_headers (boot_image disk)). boot_loaded (disk_file disk) m' h"
    "\<And>x. \<forall>h \<in> set (boot_headers (boot_image disk)). unat x \<notin> boot_extent h \<Longrightarrow> m' x = m1 x"
    using boot_segments_ok[OF assms(1,2) p, of m1 io1] b(3,4) unfolding hs by blast
  have "read_elf_header m' 0x10000 = read_elf_header m1 0x10000"
  proof (rule read_elf_header_cong, rule t(3), rule ballI)
    fix i h assume i: "i < (64 :: nat)" and h: "h \<in> set (boot_headers (boot_image disk))"
    have "boot_extent h \<inter> {0x10000..<0x11000} = {}" using b(3) h by (simp add: list_all_iff boot_seg_ok_def)
    moreover have "unat (0x10000 + of_nat i :: 64 word) \<in> {0x10000..<0x11000}" using i by (intro header_page[of _ 64]) simp_all
    ultimately show "unat (0x10000 + of_nat i :: 64 word) \<notin> boot_extent h" by blast
  qed
  then show ?thesis
    using r(1) t(1,2) b(1) he by (intro exI[of _ m'] exI[of _ io']) (simp add: boot_def hdr_def[symmetric])
qed

end
