(* ===== verification/Mkbootdisk.thy ===== *)
theory Mkbootdisk
  imports Boot
begin

text \<open>
  The tool that makes the boot disk, from \<open>build/mkbootdisk.c\<close>: \<open>diskwrite\<close> over the system call \<open>write\<close>, \<open>main\<close> with its three ways of
  use, the search for a partition, and the multiboot header.

  The operating system is a parameter: the file system is a partial function from names to contents, and the
  results of successive calls of \<open>write\<close> are a list, of which each call takes the first. \<open>None\<close> says that the list was too
  short, that is, the program has not ended yet. \<open>Inl\<close> is a call of \<open>usage\<close>, which ends the program with status 1; it carries the disk as the
  program leaves it.
\<close>

unbundle bit_operations_syntax

type_synonym bytes = "8 word list"

section \<open>Writing\<close>

datatype disk_error =
    Usage
  | No_such_file string
  | More_data_than_allowed
  | Write_error
  | Write_hit_eof
  | Boot_block_too_large nat
  | Cant_skip nat nat
  | No_partition
  | Cannot_seek
  | Read_error
  | Not_elf
  | Header_too_large

datatype write_result = Wrote nat | Write_interrupted | Write_failed

text \<open>The open disk with its file offset, and the file-level variables \<open>maxoff\<close> and \<open>curoff\<close>.\<close>

record disk_state =
  d_disk :: bytes
  d_pos :: nat
  d_writes :: "write_result list"
  maxoff :: nat
  curoff :: nat

type_synonym disk_outcome = "(disk_error \<times> disk_state + disk_state) option"

definition bindD :: "disk_outcome \<Rightarrow> (disk_state \<Rightarrow> disk_outcome) \<Rightarrow> disk_outcome" where
  "bindD r f = (case r of Some (Inr d) \<Rightarrow> f d | _ \<Rightarrow> r)"

lemma bindD_simps [simp]: "bindD (Some (Inr d)) f = f d" "bindD (Some (Inl e)) f = Some (Inl e)" "bindD None f = None"
  by (simp_all add: bindD_def)

text \<open>Bytes written at the file offset replace those that are there; a gap before them is filled with zeros.\<close>

definition put_bytes :: "bytes \<Rightarrow> disk_state \<Rightarrow> disk_state" where
  "put_bytes data d =
     (let b = d_disk d @ replicate (d_pos d - length (d_disk d)) 0
      in d\<lparr>d_disk := take (d_pos d) b @ data @ drop (d_pos d + length data) b,
           d_pos := d_pos d + length data, curoff := curoff d + length data\<rparr>)"

text \<open>The loop of \<open>diskwrite\<close>, over the results of \<open>write\<close>; at most the bytes asked for are written.\<close>

fun write_loop :: "write_result list \<Rightarrow> bytes \<Rightarrow> disk_state \<Rightarrow> disk_outcome" where
  "write_loop ws [] d = Some (Inr (d\<lparr>d_writes := ws\<rparr>))"
| "write_loop [] data d = None"
| "write_loop (Write_failed # ws) data d = Some (Inl (Write_error, d))"
| "write_loop (Write_interrupted # ws) data d = write_loop ws data d"
| "write_loop (Wrote w # ws) data d =
     (if w = 0 then Some (Inl (Write_hit_eof, d)) else write_loop ws (drop w data) (put_bytes (take w data) d))"

definition diskwrite :: "bytes \<Rightarrow> disk_state \<Rightarrow> disk_outcome" where
  "diskwrite data d =
     (if maxoff d \<noteq> 0 \<and> curoff d + length data > maxoff d then Some (Inl (More_data_than_allowed, d))
      else write_loop (d_writes d) data d)"

section \<open>Reading sectors and partitions\<close>

definition readsect :: "bytes \<Rightarrow> nat \<Rightarrow> disk_error + bytes" where
  "readsect disk sectno =
     (let off = (sectno mod 2 ^ 32) * 512
      in if off + 512 \<le> length disk then Inr (take 512 (drop off disk)) else Inl Read_error)"

record partitiondesc =
  pt_type :: "8 word"
  pt_lba_start :: nat
  pt_lba_length :: nat

definition le32 :: "bytes \<Rightarrow> nat \<Rightarrow> nat" where
  "le32 buf i = unat (buf ! i) + 256 * unat (buf ! (i + 1)) + 65536 * unat (buf ! (i + 2)) + 16777216 * unat (buf ! (i + 3))"

definition partition_entry :: "bytes \<Rightarrow> nat \<Rightarrow> partitiondesc" where
  "partition_entry buf i =
     (let off = 446 + 16 * i
      in \<lparr>pt_type = buf ! (off + 4), pt_lba_start = le32 buf (off + 8), pt_lba_length = le32 buf (off + 12)\<rparr>)"

text \<open>
  \<open>find_partition\<close> and its loop over the entries \<open>i\<close>, \<open>i + 1\<close>, ... of the sector \<open>buf\<close>. The result is 0, or 1 with the
  start of the partition in bytes (where the file offset is left) and its length (the new \<open>maxoff\<close>). \<open>None\<close> is a recursion
  that does not end.
\<close>

partial_function (option) find_partition_from ::
  "bytes \<Rightarrow> bytes option \<Rightarrow> nat \<Rightarrow> nat \<Rightarrow> nat \<Rightarrow> nat \<Rightarrow> (disk_error + (nat \<times> nat) option) option" where
  "find_partition_from disk sector i partition_sect extended_sect partoff =
     (case sector of
        None \<Rightarrow>
          (case readsect disk partition_sect of
             Inl e \<Rightarrow> Some (Inl e)
           | Inr buf \<Rightarrow>
               if buf ! 510 \<noteq> 0x55 \<or> buf ! 511 \<noteq> 0xAA then Some (Inr None)
               else find_partition_from disk (Some buf) 0 partition_sect extended_sect partoff)
      | Some buf \<Rightarrow>
          if i < 4 then
            let e = partition_entry buf i in
            if pt_lba_length e = 0 then find_partition_from disk sector (i + 1) partition_sect extended_sect partoff
            else if pt_type e = 0x27 then
              Some (Inr (Some ((partition_sect + pt_lba_start e) * 512, pt_lba_length e * 512)))
            else if pt_type e = 0x05 \<or> pt_type e = 0x0F \<or> pt_type e = 0x85 then
              Option.bind
                (find_partition_from disk None 0 (pt_lba_start e + extended_sect)
                   (if extended_sect = 0 then pt_lba_start e else extended_sect)
                   (if partoff \<noteq> 0 then partoff + 1 else 4))
                (\<lambda>r. case r of
                   Inl err \<Rightarrow> Some (Inl err)
                 | Inr (Some p) \<Rightarrow> Some (Inr (Some p))
                 | Inr None \<Rightarrow> find_partition_from disk sector (i + 1) partition_sect extended_sect partoff)
            else find_partition_from disk sector (i + 1) partition_sect extended_sect partoff
          else Some (Inr None))"

definition find_partition :: "bytes \<Rightarrow> nat \<Rightarrow> nat \<Rightarrow> nat \<Rightarrow> (disk_error + (nat \<times> nat) option) option" where
  "find_partition disk partition_sect extended_sect partoff = find_partition_from disk None 0 partition_sect extended_sect partoff"

section \<open>Multiboot\<close>

text \<open>\<open>limit\<close> is the value of \<open>maxoff\<close>, which a preceding \<open>-p\<close> has set.\<close>

definition multiboot_header :: bytes where
  "multiboot_header = [0x02, 0xB0, 0xAD, 0x1B, 0, 0, 0, 0, 0xFE, 0x4F, 0x52, 0xE4]"

definition file_memory :: "bytes \<Rightarrow> memory" where
  "file_memory f x = (if unat x < length f then f ! unat x else 0)"

definition do_multiboot :: "nat \<Rightarrow> bytes \<Rightarrow> write_result list \<Rightarrow> disk_outcome" where
  "do_multiboot limit file ws =
     (let d = \<lparr>d_disk = file, d_pos = 0, d_writes = ws, maxoff = limit, curoff = 0\<rparr> in
      case readsect file 0 of
        Inl e \<Rightarrow> Some (Inl (e, d))
      | Inr buf \<Rightarrow>
          let elfh = read_elf_header (file_memory buf) 0; off = e_phoff elfh + 56 * ucast (e_phnum elfh) in
          if e_magic elfh \<noteq> 0x464C457F then Some (Inl (Not_elf, d))
          else if off \<ge> 4096 - 12 then Some (Inl (Header_too_large, d))
          else diskwrite multiboot_header (d\<lparr>d_pos := unat off\<rparr>))"

section \<open>The main program\<close>

text \<open>\<open>strtoul\<close> with base 0 on a string that starts with a digit: the value and the rest.\<close>

definition digit_value :: "char \<Rightarrow> nat" where
  "digit_value c =
     (let n = of_char c :: nat in
      if 48 \<le> n \<and> n \<le> 57 then n - 48
      else if 97 \<le> n \<and> n \<le> 122 then n - 87
      else if 65 \<le> n \<and> n \<le> 90 then n - 55 else 99)"

fun strtoul_digits :: "nat \<Rightarrow> nat \<Rightarrow> string \<Rightarrow> nat \<times> string" where
  "strtoul_digits base a [] = (min a (2 ^ 64 - 1), [])"
| "strtoul_digits base a (c # cs) =
     (if digit_value c < base then strtoul_digits base (a * base + digit_value c) cs else (min a (2 ^ 64 - 1), c # cs))"

definition strtoul0 :: "string \<Rightarrow> nat \<times> string" where
  "strtoul0 s =
     (case s of
        c # d # e # cs \<Rightarrow>
          if c = CHR ''0'' \<and> (d = CHR ''x'' \<or> d = CHR ''X'') \<and> digit_value e < 16 then strtoul_digits 16 0 (e # cs)
          else strtoul_digits (if c = CHR ''0'' then 8 else 10) 0 s
      | c # _ \<Rightarrow> strtoul_digits (if c = CHR ''0'' then 8 else 10) 0 s
      | [] \<Rightarrow> (0, []))"

fun skip_sector :: "string \<Rightarrow> nat option" where
  "skip_sector (c # d # cs) =
     (if c = CHR ''@'' \<and> digit_value d < 10 \<and> snd (strtoul0 (d # cs)) = [] then Some (fst (strtoul0 (d # cs))) else None)"
| "skip_sector _ = None"

text \<open>\<open>n\<close> sectors of zeros.\<close>

primrec write_zeros :: "nat \<Rightarrow> disk_state \<Rightarrow> disk_outcome" where
  "write_zeros 0 d = Some (Inr d)"
| "write_zeros (Suc n) d = bindD (diskwrite (replicate 512 0) d) (write_zeros n)"

text \<open>The loop that copies a file in blocks of 4096 bytes.\<close>

function write_file :: "bytes \<Rightarrow> disk_state \<Rightarrow> disk_outcome" where
  "write_file data d =
     (if data = [] then Some (Inr d) else bindD (diskwrite (take 4096 data) d) (write_file (drop 4096 data)))"
  by pat_completeness auto
termination
  by (relation "measure (\<lambda>(data, d). length data)") (auto simp: length_greater_0_conv)

declare write_file.simps [simp del]

type_synonym files = "string \<Rightarrow> bytes option"

text \<open>The loop over the arguments; the second component counts the sectors.\<close>

fun write_args :: "files \<Rightarrow> string list \<Rightarrow> nat \<Rightarrow> disk_state \<Rightarrow> (disk_error \<times> disk_state + nat \<times> disk_state) option" where
  "write_args fs [] nsectors d = Some (Inr (nsectors, d))"
| "write_args fs (arg # args) nsectors d =
     (case skip_sector arg of
        Some skipto \<Rightarrow>
          if nsectors > skipto then Some (Inl (Cant_skip skipto nsectors, d))
          else
            (case write_zeros (skipto - nsectors) d of
               Some (Inr d') \<Rightarrow> write_args fs args skipto d' | Some (Inl e) \<Rightarrow> Some (Inl e) | None \<Rightarrow> None)
      | None \<Rightarrow>
          (case fs arg of
             None \<Rightarrow> Some (Inl (No_such_file arg, d))
           | Some data \<Rightarrow>
               let pos = length data; pad = (if pos mod 512 \<noteq> 0 then 512 - pos mod 512 else 0) in
               (case bindD (write_file data d) (\<lambda>d. if pos mod 512 \<noteq> 0 then diskwrite (replicate pad 0) d else Some (Inr d)) of
                  Some (Inr d') \<Rightarrow> write_args fs args (nsectors + (pos + pad) div 512) d'
                | Some (Inl e) \<Rightarrow> Some (Inl e) | None \<Rightarrow> None)))"

text \<open>The part of \<open>main\<close> behind the options: \<open>args\<close> are the arguments that are left.\<close>

definition write_image :: "files \<Rightarrow> bool \<Rightarrow> string list \<Rightarrow> disk_state \<Rightarrow> disk_outcome" where
  "write_image fs bootsector_special args d =
     (case args of
        [] \<Rightarrow> Some (Inl (Usage, d))
      | bootfile # rest \<Rightarrow>
          (let start =
             (if bootsector_special then
                (case fs bootfile of
                   None \<Rightarrow> Some (Inl (No_such_file bootfile, d))
                 | Some data \<Rightarrow>
                     let n = min (length data) 4096 in
                     if n > 510 then Some (Inl (Boot_block_too_large n, d))
                     else diskwrite (take n data @ replicate (510 - n) 0 @ [0x55, 0xAA]) d)
              else Some (Inr d))
           in bindD start (\<lambda>d.
             case write_args fs (if bootsector_special then rest else args) (if bootsector_special then 1 else 0) d of
               Some (Inr (nsectors, d)) \<Rightarrow> write_zeros (1024 - nsectors) d
             | Some (Inl e) \<Rightarrow> Some (Inl e) | None \<Rightarrow> None)))"

text \<open>The part behind the option \<open>-p\<close>: the option \<open>-m\<close>, or the image.\<close>

definition multiboot_or_image :: "files \<Rightarrow> bool \<Rightarrow> string list \<Rightarrow> disk_state \<Rightarrow> disk_outcome" where
  "multiboot_or_image fs bootsector_special args d =
     (if args \<noteq> [] \<and> hd args = ''-m'' then
        (case tl args of
           [] \<Rightarrow> Some (Inl (Usage, d))
         | f # _ \<Rightarrow>
             (case fs f of None \<Rightarrow> Some (Inl (No_such_file f, d)) | Some c \<Rightarrow> do_multiboot (maxoff d) c (d_writes d)))
      else write_image fs bootsector_special args d)"

definition main :: "files \<Rightarrow> write_result list \<Rightarrow> string list \<Rightarrow> disk_outcome" where
  "main fs ws argv =
     (let out = \<lparr>d_disk = [], d_pos = 0, d_writes = ws, maxoff = 0, curoff = 0\<rparr> in
      if argv \<noteq> [] \<and> hd argv = ''-p'' then
        (case tl argv of
           [] \<Rightarrow> Some (Inl (Usage, out))
         | disk # args \<Rightarrow>
             (case fs disk of
                None \<Rightarrow> Some (Inl (No_such_file disk, out))
              | Some content \<Rightarrow>
                  let d = out\<lparr>d_disk := content\<rparr> in
                  (case find_partition content 0 0 0 of
                     None \<Rightarrow> None
                   | Some (Inl e) \<Rightarrow> Some (Inl (e, d))
                   | Some (Inr None) \<Rightarrow> Some (Inl (No_partition, d))
                   | Some (Inr (Some (start, len))) \<Rightarrow> multiboot_or_image fs False args (d\<lparr>d_pos := start, maxoff := len\<rparr>))))
      else multiboot_or_image fs True argv out)"

text \<open>The disk with which a run ends, with or without an error.\<close>

fun end_disk :: "disk_error \<times> disk_state + disk_state \<Rightarrow> bytes" where
  "end_disk (Inl (e, d)) = d_disk d"
| "end_disk (Inr d) = d_disk d"

section \<open>The boot image\<close>

text \<open>
  \<open>progress n ws\<close>: no call of \<open>write\<close> fails, and enough of them write something for \<open>n\<close> bytes, however little each of them
  writes and however often they are interrupted.
\<close>

definition progress :: "nat \<Rightarrow> write_result list \<Rightarrow> bool" where
  "progress n ws \<longleftrightarrow>
     list_all (\<lambda>w. case w of Wrote k \<Rightarrow> k \<noteq> 0 | Write_interrupted \<Rightarrow> True | Write_failed \<Rightarrow> False) ws \<and>
     n \<le> length (filter (\<lambda>w. w \<noteq> Write_interrupted) ws)"

definition appending :: "nat \<Rightarrow> disk_state \<Rightarrow> bool" where
  "appending n d \<longleftrightarrow> d_pos d = length (d_disk d) \<and> maxoff d = 0 \<and> progress n (d_writes d)"

lemma put_bytes_end:
  "d_pos d = length (d_disk d) \<Longrightarrow>
   put_bytes data d = d\<lparr>d_disk := d_disk d @ data, d_pos := d_pos d + length data, curoff := curoff d + length data\<rparr>"
  by (simp add: put_bytes_def Let_def)

lemma write_loop_appends:
  assumes "d_pos d = length (d_disk d)" "maxoff d = 0" "progress (length data + r) ws"
  shows "\<exists>d'. write_loop ws data d = Some (Inr d') \<and> appending r d' \<and> d_disk d' = d_disk d @ data"
  using assms
proof (induction ws data d rule: write_loop.induct)
  case (1 ws d)
  then show ?case by (simp add: appending_def)
next
  case (5 w ws v va d)
  let ?data = "v # va" and ?d = "put_bytes (take w (v # va)) d"
  have w: "w \<noteq> 0" "progress (length ?data - 1 + r) ws" using "5.prems"(3) by (simp_all add: progress_def)
  have d: "d_pos ?d = length (d_disk ?d)" "maxoff ?d = 0" "d_disk ?d = d_disk d @ take w ?data"
    using "5.prems"(1,2) by (simp_all add: put_bytes_end)
  have "length (drop w ?data) + r \<le> length ?data - 1 + r" using w(1) by simp
  then have "progress (length (drop w ?data) + r) ws" using w(2) unfolding progress_def by (meson le_trans)
  from "5.IH"[OF w(1) d(1,2) this] show ?case using w(1) d(3) by simp
qed (simp_all add: progress_def)

lemma diskwrite_appends:
  assumes "appending (length data + r) d"
  shows "\<exists>d'. diskwrite data d = Some (Inr d') \<and> appending r d' \<and> d_disk d' = d_disk d @ data"
  using write_loop_appends[of d data r "d_writes d"] assms by (simp add: appending_def diskwrite_def)

lemma write_zeros_appends:
  "appending (512 * n + r) d \<Longrightarrow> \<exists>d'. write_zeros n d = Some (Inr d') \<and> appending r d' \<and> d_disk d' = d_disk d @ replicate (512 * n) 0"
proof (induction n arbitrary: d)
  case (Suc n)
  then have "appending (length (replicate 512 (0 :: 8 word)) + (512 * n + r)) d" by (simp add: add.assoc)
  from diskwrite_appends[OF this]
  obtain d1 where d1: "diskwrite (replicate 512 0) d = Some (Inr d1)" "appending (512 * n + r) d1" "d_disk d1 = d_disk d @ replicate 512 0" by auto
  from Suc.IH[OF d1(2)] d1 show ?case by (auto simp: replicate_add)
qed simp

lemma write_file_appends:
  "appending (length data + r) d \<Longrightarrow> \<exists>d'. write_file data d = Some (Inr d') \<and> appending r d' \<and> d_disk d' = d_disk d @ data"
proof (induction data d rule: write_file.induct)
  case (1 data d)
  show ?case
  proof (cases "data = []")
    case True
    then show ?thesis using 1(2) by (subst write_file.simps) simp
  next
    case False
    have "appending (length (take 4096 data) + (length (drop 4096 data) + r)) d" using 1(2) by (auto simp: min_def)
    from diskwrite_appends[OF this]
    obtain d1 where d1: "diskwrite (take 4096 data) d = Some (Inr d1)" "appending (length (drop 4096 data) + r) d1"
      "d_disk d1 = d_disk d @ take 4096 data" by auto
    from 1(1)[OF False d1(2)] d1 False show ?thesis by (subst write_file.simps) auto
  qed
qed

text \<open>The layout of the disk: boot sector, kernel, zeros up to a sector boundary and up to 1024 sectors.\<close>

definition boot_sector :: "bytes \<Rightarrow> bytes" where
  "boot_sector data = data @ replicate (510 - length data) 0 @ [0x55, 0xAA]"

definition padding :: "nat \<Rightarrow> nat" where
  "padding n = (if n mod 512 \<noteq> 0 then 512 - n mod 512 else 0)"

definition image_layout :: "bytes \<Rightarrow> bytes \<Rightarrow> bytes" where
  "image_layout bootsector file =
     boot_sector bootsector @ file @ replicate (padding (length file)) 0 @
     replicate (512 * (1024 - (1 + (length file + padding (length file)) div 512))) 0"

lemma padded: "512 dvd n + padding n"
proof (cases "n mod 512 = 0")
  case False
  have "a + (512 - r) = 512 * (q + 1)" if "512 * q + r = a" "r < 512" for a q r :: nat using that by simp
  from this[of "n div 512" "n mod 512" n] have "n + (512 - n mod 512) = 512 * (n div 512 + 1)" by simp
  then have "512 dvd n + (512 - n mod 512)" by (simp only: dvd_triv_left)
  then show ?thesis using False by (simp add: padding_def)
qed (simp add: padding_def dvd_eq_mod_eq_0)

lemma boot_sector_length: "length data \<le> 510 \<Longrightarrow> length (boot_sector data) = 512"
  by (simp add: boot_sector_def)

lemma write_args_file:
  assumes "skip_sector name = None" "fs name = Some data" "appending (length data + padding (length data) + r) d"
  shows "\<exists>d'. write_args fs [name] n d = Some (Inr (n + (length data + padding (length data)) div 512, d')) \<and> appending r d' \<and>
    d_disk d' = d_disk d @ data @ replicate (padding (length data)) 0"
proof -
  let ?p = "padding (length data)"
  have "appending (length data + (?p + r)) d" using assms(3) by (simp add: add.assoc)
  from write_file_appends[OF this]
  obtain d1 where d1: "write_file data d = Some (Inr d1)" "appending (?p + r) d1" "d_disk d1 = d_disk d @ data" by blast
  show ?thesis
  proof (cases "length data mod 512 = 0")
    case True
    then show ?thesis using assms(1,2) d1 by (simp add: padding_def)
  next
    case False
    have "appending (length (replicate ?p (0 :: 8 word)) + r) d1" using d1(2) by simp
    from diskwrite_appends[OF this]
    obtain d2 where "diskwrite (replicate ?p 0) d1 = Some (Inr d2)" "appending r d2" "d_disk d2 = d_disk d1 @ replicate ?p 0" by blast
    then show ?thesis using assms(1,2) d1 False by (simp add: padding_def Let_def)
  qed
qed

lemma main_image:
  assumes "fs bootfile = Some bootsector" "length bootsector \<le> 510" "bootfile \<noteq> ''-p''" "bootfile \<noteq> ''-m''"
    and "fs kernelfile = Some kern" "skip_sector kernelfile = None"
    and "progress (length (image_layout bootsector kern)) ws"
  shows "\<exists>d. main fs ws [bootfile, kernelfile] = Some (Inr d) \<and> d_disk d = image_layout bootsector kern"
proof -
  let ?d = "\<lparr>d_disk = [], d_pos = 0, d_writes = ws, maxoff = 0, curoff = 0\<rparr>"
  let ?p = "padding (length kern)" and ?n = "1 + (length kern + padding (length kern)) div 512"
  have "appending (length (boot_sector bootsector) + (length kern + ?p + (512 * (1024 - ?n) + 0))) ?d"
    using assms(7) by (simp add: appending_def image_layout_def add.assoc)
  from diskwrite_appends[OF this]
  obtain d1 where d1: "diskwrite (boot_sector bootsector) ?d = Some (Inr d1)" "appending (length kern + ?p + (512 * (1024 - ?n) + 0)) d1"
    "d_disk d1 = boot_sector bootsector" by auto
  from write_args_file[where fs = fs and name = kernelfile and n = 1, OF assms(6,5) d1(2)]
  obtain d2 where d2: "write_args fs [kernelfile] 1 d1 = Some (Inr (?n, d2))" "appending (512 * (1024 - ?n) + 0) d2"
    "d_disk d2 = boot_sector bootsector @ kern @ replicate ?p 0" using d1(3) by auto
  from write_zeros_appends[OF d2(2)]
  obtain d3 where d3: "write_zeros (1024 - ?n) d2 = Some (Inr d3)" "d_disk d3 = d_disk d2 @ replicate (512 * (1024 - ?n)) 0" by blast
  have "main fs ws [bootfile, kernelfile] = Some (Inr d3)"
    using assms(1-4) d1(1) d2(1) d3(1) by (simp add: main_def multiboot_or_image_def write_image_def boot_sector_def Let_def)
  then show ?thesis using d3(2) d2(3) by (simp add: image_layout_def)
qed

section \<open>The image boots\<close>

definition image_sector :: "bytes \<Rightarrow> nat \<Rightarrow> bytes" where
  "image_sector img k = map (\<lambda>i. if 512 * k + i < length img then img ! (512 * k + i) else 0) [0..<512]"

lemma image_byte: "disk_byte (image_sector img) n = (if n < length img then img ! n else 0)"
  by (simp add: disk_byte_def image_sector_def)

definition file_byte :: "bytes \<Rightarrow> nat \<Rightarrow> 8 word" where
  "file_byte file i = (if i < length file then file ! i else 0)"

lemma image_file:
  assumes "length bootsector \<le> 510"
  shows "disk_file (image_sector (image_layout bootsector kern)) = file_byte kern"
proof
  fix i
  show "disk_file (image_sector (image_layout bootsector kern)) i = file_byte kern i"
    using boot_sector_length[OF assms] by (auto simp: disk_file_def image_byte file_byte_def image_layout_def nth_append)
qed

text \<open>The kernel's file as the boot loader sees it, loaded at 0x10000.\<close>

definition loaded_file :: "bytes \<Rightarrow> memory" where
  "loaded_file file x = file_byte file (unat x - 0x10000)"

lemma image_loads:
  assumes "fs bootfile = Some bootsector" "length bootsector \<le> 510" "bootfile \<noteq> ''-p''" "bootfile \<noteq> ''-m''"
    and "fs kernelfile = Some kern" "skip_sector kernelfile = None"
    and "progress (length (image_layout bootsector kern)) ws"
    and "bootable (loaded_file kern)" "responsive dev"
    and "\<And>d. main fs ws [bootfile, kernelfile] = Some (Inr d) \<Longrightarrow> ata_reads (image_sector (d_disk d)) ata"
  shows "\<exists>d m' io'. main fs ws [bootfile, kernelfile] = Some (Inr d) \<and> d_disk d = image_layout bootsector kern \<and>
    boot dev ata (m, io) = Some (e_entry (read_elf_header (loaded_file kern) 0x10000), m', io') \<and>
    (\<forall>h \<in> set (boot_headers (loaded_file kern)). boot_loaded (file_byte kern) m' h)"
proof -
  obtain d where d: "main fs ws [bootfile, kernelfile] = Some (Inr d)" "d_disk d = image_layout bootsector kern"
    using main_image[of fs bootfile bootsector kernelfile kern ws] assms(1-7) by blast
  note f = image_file[OF assms(2), of kern]
  have i: "boot_image (image_sector (d_disk d)) = loaded_file kern" by (simp add: fun_eq_iff boot_image_def loaded_file_def d(2) f)
  have f': "disk_file (image_sector (d_disk d)) = file_byte kern" by (simp add: d(2) f)
  have "bootable (boot_image (image_sector (d_disk d)))" unfolding i by (rule assms(8))
  from boot_ok[OF assms(9) assms(10)[OF d(1)] this, of m io] show ?thesis unfolding i f' using d by blast
qed

text \<open>C8: what \<open>mkbootdisk\<close> writes, the boot loader loads. Called with a boot sector of at most 510 bytes and a kernel, \<open>mkbootdisk\<close> writes an
  image of whole sectors with the signature 0x55 0xAA at the end of the first, even if \<open>write\<close> is interrupted or
  writes less than it was asked for; and if the kernel is an ELF file that can be booted, \<open>boot\<close> on a drive with that image ends, jumps to the entry
  point of the file, and every segment is in memory byte for byte as in the file, with zeros up to its size in memory.\<close>

theorem image_boots:
  assumes "fs bootfile = Some bootsector" "length bootsector \<le> 510" "bootfile \<noteq> ''-p''" "bootfile \<noteq> ''-m''"
    and "fs kernelfile = Some kern" "skip_sector kernelfile = None"
    and "progress (length (image_layout bootsector kern)) ws"
    and "bootable (loaded_file kern)" "responsive dev"
    and "\<And>d. main fs ws [bootfile, kernelfile] = Some (Inr d) \<Longrightarrow> ata_reads (image_sector (d_disk d)) ata"
  shows "\<exists>d m' io'. main fs ws [bootfile, kernelfile] = Some (Inr d) \<and> take 512 (d_disk d) = boot_sector bootsector \<and>
    512 dvd length (d_disk d) \<and>
    boot dev ata (m, io) = Some (e_entry (read_elf_header (loaded_file kern) 0x10000), m', io') \<and>
    (\<forall>h \<in> set (boot_headers (loaded_file kern)). boot_loaded (file_byte kern) m' h)"
proof -
  obtain d m' io' where d: "main fs ws [bootfile, kernelfile] = Some (Inr d)" "d_disk d = image_layout bootsector kern"
    "boot dev ata (m, io) = Some (e_entry (read_elf_header (loaded_file kern) 0x10000), m', io')"
    "\<forall>h \<in> set (boot_headers (loaded_file kern)). boot_loaded (file_byte kern) m' h"
    using image_loads[of fs bootfile bootsector kernelfile kern ws dev ata m io] assms by blast
  have "512 dvd length kern + padding (length kern)" by (rule padded)
  then have "512 dvd 512 + (length kern + padding (length kern)) + 512 * (1024 - (1 + (length kern + padding (length kern)) div 512))"
    by (intro dvd_add[OF dvd_add]) simp_all
  then have "512 dvd length (d_disk d)" using boot_sector_length[OF assms(2)] by (simp add: d(2) image_layout_def add.assoc)
  moreover have "take 512 (d_disk d) = boot_sector bootsector" using boot_sector_length[OF assms(2)] by (simp add: d(2) image_layout_def)
  ultimately show ?thesis using d(1,3,4) by blast
qed

text \<open>A kernel of one segment of 4 bytes at 0x40000, in a file whose data start at the second sector.\<close>

definition example_head :: bytes where
  "example_head =
     [0x7F, 0x45, 0x4C, 0x46, 2, 1, 1, 0, 0, 0, 0, 0, 0, 0, 0, 0, 2, 0, 0x3E, 0, 1, 0, 0, 0,
      0, 0, 4, 0, 0, 0, 0, 0, 64, 0, 0, 0, 0, 0, 0, 0, 0, 0, 0, 0, 0, 0, 0, 0,
      0, 0, 0, 0, 64, 0, 56, 0, 1, 0, 0, 0, 0, 0, 0, 0,
      1, 0, 0, 0, 7, 0, 0, 0, 0, 2, 0, 0, 0, 0, 0, 0, 0, 0, 4, 0, 0, 0, 0, 0,
      0, 0, 4, 0, 0, 0, 0, 0, 4, 0, 0, 0, 0, 0, 0, 0, 16, 0, 0, 0, 0, 0, 0, 0, 0, 0x10, 0, 0, 0, 0, 0, 0]"

text \<open>A file of a header page's first 120 bytes, zeros up to the second sector, and data.\<close>

definition sector_file :: "bytes \<Rightarrow> bytes \<Rightarrow> bytes" where
  "sector_file head data = head @ replicate 392 0 @ data"

definition head_memory :: "bytes \<Rightarrow> memory" where
  "head_memory head x = (if 0x10000 \<le> x \<and> x < 0x10078 then head ! unat (x - 0x10000) else 0)"

lemma sector_file_head:
  assumes "k + i < 120" "length head = 120"
  shows "loaded_file (sector_file head data) (0x10000 + of_nat k + of_nat i) = head_memory head (0x10000 + of_nat k + of_nat i)"
proof -
  let ?x = "0x10000 + of_nat k + of_nat i :: 64 word"
  have u: "unat ?x = 0x10000 + k + i" using assms by (simp add: unat_word_ariths unat_of_nat)
  have le: "0x10000 \<le> ?x" "?x < 0x10078" unfolding word_le_nat_alt word_less_nat_alt u using assms by simp_all
  have "unat (?x - 0x10000) = unat ?x - unat (0x10000 :: 64 word)" using le(1) by (simp only: unat_sub)
  then have "unat (?x - 0x10000) = k + i" unfolding u by simp
  then show ?thesis
    unfolding loaded_file_def head_memory_def u using assms le by (simp add: file_byte_def sector_file_def nth_append)
qed

lemma sector_file_header:
  assumes "length head = 120"
  shows "read_elf_header (loaded_file (sector_file head data)) 0x10000 = read_elf_header (head_memory head) 0x10000"
    "read_elf_program (loaded_file (sector_file head data)) 0x10040 = read_elf_program (head_memory head) 0x10040"
proof -
  show "read_elf_header (loaded_file (sector_file head data)) 0x10000 = read_elf_header (head_memory head) 0x10000"
    by (rule read_elf_header_cong) (use sector_file_head[OF _ assms, of 0] in simp)
  show "read_elf_program (loaded_file (sector_file head data)) 0x10040 = read_elf_program (head_memory head) 0x10040"
    by (rule read_elf_program_cong) (use sector_file_head[OF _ assms, of 64] in simp)
qed

definition example_kernel :: bytes where
  "example_kernel = sector_file example_head [0xFA, 0xF4, 0xEB, 0xFD]"

definition example_kernel_segment :: elf_program where
  "example_kernel_segment =
     \<lparr>p_type = 1, p_flags = 7, p_offset = 512, p_va = 0x40000, p_pa = 0x40000, p_filesz = 4, p_memsz = 16, p_align = 0x1000\<rparr>"

lemma example_head_length: "length example_head = 120"
  by (simp add: example_head_def)

lemma example_kernel_header:
  "read_elf_header (loaded_file example_kernel) 0x10000 = read_elf_header (head_memory example_head) 0x10000"
  "read_elf_program (loaded_file example_kernel) 0x10040 = example_kernel_segment"
proof -
  have "read_elf_program (head_memory example_head) 0x10040 = example_kernel_segment" by code_simp
  then show "read_elf_header (loaded_file example_kernel) 0x10000 = read_elf_header (head_memory example_head) 0x10000"
    "read_elf_program (loaded_file example_kernel) 0x10040 = example_kernel_segment"
    unfolding example_kernel_def by (simp_all add: sector_file_header example_head_length)
qed

lemma example_head_header:
  "e_magic (read_elf_header (head_memory example_head) 0x10000) = 0x464C457F"
  "e_entry (read_elf_header (head_memory example_head) 0x10000) = 0x40000"
  "e_phoff (read_elf_header (head_memory example_head) 0x10000) = 64"
  "e_phnum (read_elf_header (head_memory example_head) 0x10000) = 1"
  by code_simp+

lemmas example_kernel_simps = example_kernel_header example_head_header

lemma example_kernel_headers: "boot_headers (loaded_file example_kernel) = [example_kernel_segment]"
  by (simp add: boot_headers_def Let_def example_kernel_simps)

lemma example_kernel_bootable: "bootable (loaded_file example_kernel)"
proof -
  have "boot_seg_ok example_kernel_segment"
    by (auto simp: boot_seg_ok_def example_kernel_segment_def boot_extent_def seg_lo_def seg_hi_def sectors_def)
  then show ?thesis by (simp add: bootable_def Let_def example_kernel_headers) (simp add: example_kernel_simps)
qed

definition example_files :: files where
  "example_files name = (if name = ''bootsector'' then Some [0xFA, 0xFC] else if name = ''kernel'' then Some example_kernel else None)"

definition example_ata :: ata where
  "example_ata io = image_sector (image_layout [0xFA, 0xFC] example_kernel) (ata_request io)"

lemma progress_replicate: "progress n (replicate n (Wrote 1))"
  by (simp add: progress_def list_all_iff)

theorem image_boots_witness:
  "\<exists>d m' io'. main example_files (replicate (length (image_layout [0xFA, 0xFC] example_kernel)) (Wrote 1)) [''bootsector'', ''kernel''] = Some (Inr d) \<and>
     d_disk d ! 510 = 0x55 \<and> boot (\<lambda>_ _. 0x40) example_ata (\<lambda>_. 0xFF, []) = Some (0x40000, m', io') \<and> m' 0x40002 = 0xEB \<and> m' 0x40004 = 0"
proof -
  let ?ws = "replicate (length (image_layout [0xFA, 0xFC] example_kernel)) (Wrote 1)" and ?b = "[0xFA, 0xFC] :: bytes"
  have f: "example_files ''bootsector'' = Some ?b" "example_files ''kernel'' = Some example_kernel" by (simp_all add: example_files_def)
  have s: "skip_sector ''kernel'' = None" "length ?b \<le> 510" "''bootsector'' \<noteq> ''-p''" "''bootsector'' \<noteq> ''-m''" by simp_all
  have r: "responsive (\<lambda>_ _. 0x40)" by (simp add: responsive_def)
  have a: "ata_reads (image_sector (d_disk d)) example_ata" if "main example_files ?ws [''bootsector'', ''kernel''] = Some (Inr d)" for d
    using main_image[where fs = example_files, OF f(1) s(2-4) f(2) s(1) progress_replicate] that
    by (auto simp: ata_reads_def example_ata_def image_sector_def)
  obtain d m' io' where d: "main example_files ?ws [''bootsector'', ''kernel''] = Some (Inr d)" "take 512 (d_disk d) = boot_sector ?b"
    "boot (\<lambda>_ _. 0x40) example_ata (\<lambda>_. 0xFF, []) = Some (0x40000, m', io')" "boot_loaded (file_byte example_kernel) m' example_kernel_segment"
    using image_boots[where fs = example_files, OF f(1) s(2-4) f(2) s(1) progress_replicate example_kernel_bootable r a, of "\<lambda>_. 0xFF" "[]"]
    by (auto simp: example_kernel_headers example_kernel_simps)
  have "take 512 (d_disk d) ! 510 = 0x55" unfolding d(2) by (simp add: boot_sector_def nth_append)
  then have "d_disk d ! 510 = 0x55" by simp
  moreover have "file_byte example_kernel 514 = 0xEB" by (simp add: file_byte_def example_kernel_def sector_file_def nth_append example_head_length)
  moreover have "m' (0x40000 + of_nat 2) = file_byte example_kernel (512 + 2)" "m' (0x40000 + of_nat 4) = 0"
    using d(4)[unfolded boot_loaded_def, THEN conjunct1, rule_format, of 2] d(4)[unfolded boot_loaded_def, THEN conjunct2, rule_format, of 4]
    by (simp_all add: example_kernel_segment_def)
  ultimately show ?thesis using d(1,3) by auto
qed

section \<open>Partitions\<close>

text \<open>A partition sector in which the first entry is an extended partition that starts at sector 0.\<close>

definition cyclic_sector :: bytes where
  "cyclic_sector = replicate 446 0 @ [0, 0, 0, 0, 0x05, 0, 0, 0, 0, 0, 0, 0, 1, 0, 0, 0] @ replicate 48 0 @ [0x55, 0xAA]"

lemma cyclic_facts:
  "readsect cyclic_sector 0 = Inr cyclic_sector" "cyclic_sector ! 510 = 0x55" "cyclic_sector ! 511 = 0xAA"
  "partition_entry cyclic_sector 0 = \<lparr>pt_type = 0x05, pt_lba_start = 0, pt_lba_length = 1\<rparr>"
  by (simp_all add: readsect_def partition_entry_def le32_def cyclic_sector_def nth_append)

text \<open>C38: \<open>mkbootdisk -p\<close> does not end on every disk. On a disk whose extended partition refers back to sector 0, the recursion of
  \<open>find_partition\<close> never returns: nothing in it bounds the chain of extended partitions.\<close>

theorem find_partition_diverges: "find_partition cyclic_sector 0 0 partoff = None"
proof -
  let ?P = "\<lambda>disk sector i sect ext (off :: nat) r.
    \<not> (disk = cyclic_sector \<and> sect = 0 \<and> ext = 0 \<and> (sector = None \<or> sector = Some cyclic_sector \<and> i = 0))"
  have "?P disk sector i sect ext off r" if "find_partition_from disk sector i sect ext off = Some r" for disk sector i sect ext off r
  proof (rule find_partition_from.raw_induct[where P = ?P, OF _ that])
    fix f disk sector i sect ext off r
    assume IH: "\<And>disk sector i sect ext off r. f disk sector i sect ext off = Some r \<Longrightarrow> ?P disk sector i sect ext off r"
      and step: "(case sector of None \<Rightarrow> (case readsect disk sect of Inl e \<Rightarrow> Some (Inl e) | Inr buf \<Rightarrow>
            if buf ! 510 \<noteq> 0x55 \<or> buf ! 511 \<noteq> 0xAA then Some (Inr None) else f disk (Some buf) 0 sect ext off)
        | Some buf \<Rightarrow> if i < 4 then let e = partition_entry buf i in
            if pt_lba_length e = 0 then f disk sector (i + 1) sect ext off
            else if pt_type e = 0x27 then Some (Inr (Some ((sect + pt_lba_start e) * 512, pt_lba_length e * 512)))
            else if pt_type e = 0x05 \<or> pt_type e = 0x0F \<or> pt_type e = 0x85 then
              Option.bind (f disk None 0 (pt_lba_start e + ext) (if ext = 0 then pt_lba_start e else ext) (if off \<noteq> 0 then off + 1 else 4))
                (\<lambda>r. case r of Inl err \<Rightarrow> Some (Inl err) | Inr None \<Rightarrow> f disk sector (i + 1) sect ext off | Inr (Some p) \<Rightarrow> Some (Inr (Some p)))
            else f disk sector (i + 1) sect ext off else Some (Inr None)) = Some r"
    show "?P disk sector i sect ext off r"
    proof
      assume h: "disk = cyclic_sector \<and> sect = 0 \<and> ext = 0 \<and> (sector = None \<or> sector = Some cyclic_sector \<and> i = 0)"
      show False
      proof (cases sector)
        case None
        then have "f cyclic_sector (Some cyclic_sector) 0 0 0 off = Some r" using step h by (simp add: cyclic_facts)
        from IH[OF this] show False by simp
      next
        case (Some buf)
        then obtain r' where "f cyclic_sector None 0 0 0 (if off \<noteq> 0 then off + 1 else 4) = Some r'"
          using step h by (auto simp: cyclic_facts split: Option.bind_splits)
        from IH[OF this] show False by simp
      qed
    qed
  qed
  then show ?thesis unfolding find_partition_def by (metis not_None_eq)
qed

section \<open>Writes stay in the partition\<close>

text \<open>A property of the open disk that \<open>diskwrite\<close> keeps is kept by everything that writes.\<close>

definition ends :: "(disk_state \<Rightarrow> bool) \<Rightarrow> disk_outcome \<Rightarrow> bool" where
  "ends P r \<longleftrightarrow> (case r of None \<Rightarrow> True | Some (Inl (e, d)) \<Rightarrow> P d | Some (Inr d) \<Rightarrow> P d)"

lemma ends_simps [simp]: "ends P (Some (Inr d)) \<longleftrightarrow> P d" "ends P (Some (Inl e)) \<longleftrightarrow> P (snd e)" "ends P None"
  by (auto simp: ends_def split: prod.splits)

lemma ends_bindD: "ends P r \<Longrightarrow> (\<And>d. P d \<Longrightarrow> ends P (f d)) \<Longrightarrow> ends P (bindD r f)"
  by (auto simp: bindD_def split: option.splits sum.splits)

text \<open>The continuation of a loop that also counts sectors, as \<open>bindD\<close>.\<close>

lemma ends_count:
  "ends P r \<Longrightarrow> (\<And>d. P d \<Longrightarrow> ends P (f d)) \<Longrightarrow>
   ends P (case r of Some (Inr d) \<Rightarrow> f d | Some (Inl e) \<Rightarrow> Some (Inl e) | None \<Rightarrow> None)"
  by (auto split: option.splits sum.splits)

abbreviation forget :: "(disk_error \<times> disk_state + nat \<times> disk_state) option \<Rightarrow> disk_outcome" where
  "forget \<equiv> map_option (map_sum (\<lambda>e. e) snd)"

lemma forget_count:
  "forget (case r of Some (Inr d) \<Rightarrow> f d | Some (Inl e) \<Rightarrow> Some (Inl e) | None \<Rightarrow> None) =
   (case r of Some (Inr d) \<Rightarrow> forget (f d) | Some (Inl e) \<Rightarrow> Some (Inl e) | None \<Rightarrow> None)"
  by (auto split: option.splits sum.splits)

lemma ends_forget:
  "ends P (forget r) \<Longrightarrow> (\<And>n d. P d \<Longrightarrow> ends P (f n d)) \<Longrightarrow>
   ends P (case r of None \<Rightarrow> None | Some (Inl e) \<Rightarrow> Some (Inl e) | Some (Inr (n, d)) \<Rightarrow> f n d)"
  by (auto split: option.splits sum.splits)

locale disk_invariant =
  fixes P :: "disk_state \<Rightarrow> bool"
  assumes diskwrite_keeps: "P d \<Longrightarrow> ends P (diskwrite data d)"
begin

lemma write_zeros_keeps: "P d \<Longrightarrow> ends P (write_zeros n d)"
  by (induction n arbitrary: d) (auto intro!: ends_bindD diskwrite_keeps)

lemma write_file_keeps: "P d \<Longrightarrow> ends P (write_file data d)"
proof (induction data d rule: write_file.induct)
  case (1 data d)
  then show ?case
    by (subst write_file.simps) (auto intro!: ends_bindD diskwrite_keeps)
qed

lemma write_args_keeps: "P d \<Longrightarrow> ends P (forget (write_args fs args n d))"
proof (induction args arbitrary: n d)
  case (Cons a args)
  show ?case
  proof (cases "skip_sector a")
    case None
    show ?thesis
    proof (cases "fs a")
      case (Some data)
      let ?pad = "\<lambda>d. if length data mod 512 \<noteq> 0 then diskwrite (replicate (512 - length data mod 512) 0) d else Some (Inr d)"
      have "ends P (bindD (write_file data d) ?pad)"
        using Cons.prems by (intro ends_bindD write_file_keeps) (auto intro: diskwrite_keeps)
      then show ?thesis using None Some Cons.IH by (auto simp: Let_def forget_count intro!: ends_count)
    qed (use None Cons.prems in simp)
  next
    case (Some k)
    then show ?thesis using Cons by (auto simp: forget_count intro!: ends_count write_zeros_keeps)
  qed
qed simp

lemma write_image_keeps:
  assumes "P d"
  shows "ends P (write_image fs special args d)"
proof (cases args)
  case (Cons b rest)
  have rest: "ends P (case write_args fs as k d of Some (Inr (nsectors, d)) \<Rightarrow> write_zeros (1024 - nsectors) d | Some (Inl e) \<Rightarrow> Some (Inl e) | None \<Rightarrow> None)"
    if "P d" for as k d
    by (rule ends_forget[OF write_args_keeps[OF that]]) (rule write_zeros_keeps)
  show ?thesis
    unfolding write_image_def Cons Let_def list.case
    by (rule ends_bindD[OF _ rest]) (use assms in \<open>auto intro: diskwrite_keeps split: option.splits\<close>)
qed (use assms in \<open>simp add: write_image_def\<close>)

end

definition confined :: "bytes \<Rightarrow> nat \<Rightarrow> nat \<Rightarrow> disk_state \<Rightarrow> bool" where
  "confined content start len d \<longleftrightarrow>
     maxoff d = len \<and> d_pos d = start + curoff d \<and> curoff d \<le> len \<and> length (d_disk d) = length content \<and>
     take start (d_disk d) = take start content \<and> drop (start + len) (d_disk d) = drop (start + len) content"

lemma put_bytes_confined:
  assumes "confined content start len d" "curoff d + length data \<le> len" "start + len \<le> length content"
  shows "confined content start len (put_bytes data d)"
proof -
  note c = assms(1)[unfolded confined_def]
  have p: "d_pos d + length data \<le> length (d_disk d)" "start \<le> d_pos d" "d_pos d + length data \<le> start + len" using c assms(2,3) by simp_all
  have e: "d_disk (put_bytes data d) = take (d_pos d) (d_disk d) @ data @ drop (d_pos d + length data) (d_disk d)"
    using p(1) by (simp add: put_bytes_def Let_def)
  have "take start (d_disk (put_bytes data d)) = take start (d_disk d)" unfolding e using p by (simp add: min_def)
  moreover have "drop (start + len) (d_disk (put_bytes data d)) = drop (start + len) (d_disk d)"
    unfolding e using p by simp
  moreover have "length (d_disk (put_bytes data d)) = length (d_disk d)" unfolding e using p by simp
  ultimately show ?thesis using c assms(2) unfolding confined_def by (simp add: put_bytes_def Let_def)
qed

lemma write_loop_confined:
  assumes "start + len \<le> length content"
  shows "confined content start len d \<Longrightarrow> curoff d + length data \<le> len \<Longrightarrow> ends (confined content start len) (write_loop ws data d)"
proof (induction ws data d rule: write_loop.induct)
  case (1 ws d)
  then show ?case by (auto simp: confined_def)
next
  case (5 w ws v va d)
  let ?t = "take w (v # va)" and ?r = "drop w (v # va)"
  have l: "length ?t + length ?r = length (v # va)" by (metis append_take_drop_id length_append)
  have "confined content start len (put_bytes ?t d)" using put_bytes_confined[OF "5.prems"(1) _ assms, of ?t] "5.prems"(2) l by simp
  moreover have "curoff (put_bytes ?t d) + length ?r \<le> len" using "5.prems"(2) l by (simp add: put_bytes_def Let_def)
  ultimately show ?case using "5.IH" "5.prems"(1) by simp
qed simp_all

lemma diskwrite_confined:
  assumes "0 < len" "start + len \<le> length content" "confined content start len d"
  shows "ends (confined content start len) (diskwrite data d)"
proof -
  have "maxoff d = len" using assms(3) by (simp add: confined_def)
  then show ?thesis using write_loop_confined[OF assms(2,3), of data "d_writes d"] assms(1,3) by (simp add: diskwrite_def)
qed

lemma ends_conj: "ends (\<lambda>d. Q \<and> P d) r \<longleftrightarrow> (r = None \<or> Q) \<and> ends P r"
  by (auto simp: ends_def split: option.splits sum.splits)

interpretation partition_writes: disk_invariant "\<lambda>d. 0 < len \<and> start + len \<le> length content \<and> confined content start len d"
  for content start len
  by unfold_locales (use diskwrite_confined in \<open>simp add: ends_conj\<close>)

text \<open>C32: \<open>mkbootdisk -p\<close> writes into the partition only. If it finds a partition that lies on the disk, and the next argument is not \<open>-m\<close>, then however the run ends, normally or with an error
  in the middle of the writing, every byte of the
  disk before the partition and behind it is what it was, and the disk has its old length, whatever the files are and however
  the calls of \<open>write\<close> divide the data.\<close>

theorem partition_confined:
  assumes "fs disk = Some content" "find_partition content 0 0 0 = Some (Inr (Some (start, len)))"
    and "0 < len" "start + len \<le> length content" "args = [] \<or> hd args \<noteq> ''-m''"
    and "main fs ws (''-p'' # disk # args) = Some r"
  shows "length (end_disk r) = length content \<and> take start (end_disk r) = take start content \<and>
    drop (start + len) (end_disk r) = drop (start + len) content"
proof -
  let ?d = "\<lparr>d_disk = content, d_pos = start, d_writes = ws, maxoff = len, curoff = 0\<rparr>"
  have w: "write_image fs False args ?d = Some r"
    using assms(1,2,5,6) by (auto simp: main_def multiboot_or_image_def Let_def)
  have "confined content start len ?d" by (simp add: confined_def)
  then have "ends (confined content start len) (Some r)"
    using partition_writes.write_image_keeps[of len start content ?d fs False args] assms(3,4) unfolding w by (simp add: ends_conj)
  then show ?thesis by (cases r) (auto simp: confined_def)
qed

lemma progress_simps [simp]:
  "progress n [] \<longleftrightarrow> n = 0" "\<not> progress n (Write_failed # ws)" "progress n (Write_interrupted # ws) \<longleftrightarrow> progress n ws"
  by (simp_all add: progress_def)

lemma write_loop_returns:
  assumes "progress (length data + r) ws"
  shows "\<exists>d'. write_loop ws data d = Some (Inr d') \<and> progress r (d_writes d') \<and> maxoff d' = maxoff d \<and> curoff d' = curoff d + length data"
  using assms
proof (induction ws data d rule: write_loop.induct)
  case (5 w ws v va d)
  let ?data = "v # va" and ?d = "put_bytes (take w (v # va)) d"
  have w: "w \<noteq> 0" "progress (length ?data - 1 + r) ws" using "5.prems" by (simp_all add: progress_def)
  have "length (drop w ?data) + r \<le> length ?data - 1 + r" using w(1) by simp
  then have "progress (length (drop w ?data) + r) ws" using w(2) unfolding progress_def by (meson le_trans)
  moreover have "maxoff ?d = maxoff d" "curoff ?d + length (drop w ?data) = curoff d + length ?data"
    by (simp_all add: put_bytes_def Let_def min_def)
  ultimately show ?case using "5.IH"[OF w(1)] w(1) by simp
qed simp_all

lemma write_zeros_returns:
  "progress (512 * n) (d_writes d) \<Longrightarrow> curoff d + 512 * n \<le> maxoff d \<Longrightarrow> \<exists>d'. write_zeros n d = Some (Inr d')"
proof (induction n arbitrary: d)
  case (Suc n)
  have "progress (length (replicate 512 (0 :: 8 word)) + 512 * n) (d_writes d)" using Suc.prems(1) by simp
  from write_loop_returns[OF this, of d]
  obtain d1 where "diskwrite (replicate 512 0) d = Some (Inr d1)" "progress (512 * n) (d_writes d1)" "maxoff d1 = maxoff d" "curoff d1 = curoff d + 512"
    using Suc.prems(2) by (auto simp: diskwrite_def)
  with Suc.IH[of d1] Suc.prems(2) show ?case by simp
qed simp

text \<open>A disk whose second partition sector holds 1024 sectors, and the call that clears them.\<close>

definition example_disk :: bytes where
  "example_disk =
     replicate 446 0 @ [0, 0, 0, 0, 0x27, 0, 0, 0, 1, 0, 0, 0, 0, 4, 0, 0] @ replicate 48 0 @ [0x55, 0xAA] @ replicate (512 * 1025) 7"

lemma example_partition: "find_partition example_disk 0 0 0 = Some (Inr (Some (512, 512 * 1024)))"
proof -
  let ?b = "take 512 example_disk"
  have r: "readsect example_disk 0 = Inr ?b" by (simp add: readsect_def example_disk_def)
  have m: "?b ! 510 = 0x55" "?b ! 511 = 0xAA" "partition_entry ?b 0 = \<lparr>pt_type = 0x27, pt_lba_start = 1, pt_lba_length = 1024\<rparr>"
    by (simp_all add: partition_entry_def le32_def example_disk_def nth_append)
  show ?thesis
    unfolding find_partition_def
    by (subst find_partition_from.simps, subst find_partition_from.simps) (simp add: r m)
qed

lemma example_skip: "skip_sector ''@1024'' = Some 1024"
  by (simp add: strtoul0_def digit_value_def Let_def)

theorem partition_confined_witness:
  "\<exists>d. main (\<lambda>_. Some example_disk) (replicate (512 * 1024) (Wrote 1)) [''-p'', ''disk'', ''@1024''] = Some (Inr d) \<and>
     take 512 (d_disk d) = take 512 example_disk \<and> drop (512 * 1025) (d_disk d) = drop (512 * 1025) example_disk"
proof -
  let ?ws = "replicate (512 * 1024) (Wrote 1)"
  let ?d = "\<lparr>d_disk = example_disk, d_pos = 512, d_writes = ?ws, maxoff = 512 * 1024, curoff = 0\<rparr>"
  obtain d where z: "write_zeros 1024 ?d = Some (Inr d)"
    using write_zeros_returns[of 1024 ?d] progress_replicate[of "512 * 1024"] by auto
  have "write_image (\<lambda>_. Some example_disk) False [''@1024''] ?d = Some (Inr d)"
    unfolding write_image_def Let_def using z by (simp add: example_skip del: skip_sector.simps write_zeros.simps(2))
  then have m: "main (\<lambda>_. Some example_disk) ?ws [''-p'', ''disk'', ''@1024''] = Some (Inr d)"
    by (simp add: main_def multiboot_or_image_def Let_def example_partition)
  have "512 + 512 * 1024 \<le> length example_disk" by (simp add: example_disk_def)
  from partition_confined[of "\<lambda>_. Some example_disk" "''disk''" example_disk 512 "512 * 1024" "[''@1024'']", OF refl example_partition _ this _ m]
  show ?thesis using m by auto
qed

end
