(* ===== verification/User.thy ===== *)
theory User
  imports Printer
begin

text \<open>
  The library of user programs, from \<open>process.c\<close>: \<open>app_printf\<close>, and the ways in which a user program gives up
  (\<open>panic\<close> and \<open>assert_fail\<close>). They run in a process; the memory here is what the process sees, with the console at its
  address. Giving up ends in the system call \<open>INT_SYS_PANIC\<close>, whose argument is the value of \<open>rdi\<close>.
\<close>

unbundle bit_operations_syntax

definition app_color :: "int \<Rightarrow> int" where
  "app_color colorid =
     (if colorid < 0 then 0x0700 else push_bit 8 ([0x0E, 0x0F, 0x0C, 0x0A, 0x09] ! nat (colorid mod 5)))"

text \<open>The state is the shared variable \<open>cursorpos\<close> and the memory.\<close>

definition app_printf :: "int \<Rightarrow> string \<Rightarrow> va_list \<Rightarrow> int \<times> memory \<Rightarrow> (int \<times> memory) option" where
  "app_printf colorid format val = (\<lambda>(cursorpos, m).
     do { (cursorpos, m) \<leftarrow> console_vprintf cursorpos (app_color colorid) format val m;
          Some (if cursorpos div 80 \<ge> 23 then CPOS 0 0 else cursorpos, m) })"

text \<open>\<open>panic\<close> up to the message in its buffer of 160 bytes at \<open>buf\<close>.\<close>

definition panic_buffer :: "64 word \<Rightarrow> string \<Rightarrow> va_list \<Rightarrow> memory \<Rightarrow> memory option" where
  "panic_buffer buf format val m =
     (let m = store_bytes (map of_char ''PANIC: '') buf m in
      do { (n, m) \<leftarrow> vsnprintf (buf + 7) (160 - 7) format val m;
           let len = n + 7;
           Some (if len > 0 \<and> m (buf + word_of_int (len - 1)) \<noteq> 10
                 then store_bytes [10, 0] (buf + word_of_int len - (if len = 160 - 1 then 1 else 0)) m
                 else m) })"

definition string_at :: "memory \<Rightarrow> 64 word \<Rightarrow> string option" where
  "string_at m a = do { n \<leftarrow> strlen m a; Some (map (\<lambda>i. char_of (unat (m (a + of_nat i)))) [0..<unat n]) }"

definition user_panic :: "64 word \<Rightarrow> string \<Rightarrow> va_list \<Rightarrow> memory \<Rightarrow> (64 word \<times> memory) option" where
  "user_panic buf format val m =
     do { m \<leftarrow> panic_buffer buf format val m;
          msg \<leftarrow> string_at m buf;
          (_, m) \<leftarrow> console_vprintf (CPOS 23 0) 0xC000 ''%s'' [VStr msg] m;
          Some (0, m) }"

definition user_assert_fail :: "string \<Rightarrow> int \<Rightarrow> string \<Rightarrow> memory \<Rightarrow> (64 word \<times> memory) option" where
  "user_assert_fail file line msg m =
     do { (_, m) \<leftarrow> console_vprintf (CPOS 23 0) 0xC000 ''PANIC: %s:%d: assertion '%s' failed\<newline>''
                      [VStr file, VNum (word_of_int line), VStr msg] m;
          Some (0, m) }"

section \<open>The cursor\<close>

lemma console_vprintf_range:
  assumes "console_vprintf cpos color fmt val m = Some (cpos', m')"
  shows "0 \<le> cpos'" "m' x = m x \<or> x - CONSOLE_ADDR < 4000"
proof -
  obtain p' where p: "printer_vprintf console_putc color fmt val \<lparr>cp_mem = m, cp_cursor = if cpos < 0 \<or> cpos \<ge> 25 * 80 then 0 else cpos\<rparr> = Some p'"
    "cpos' = cp_cursor p'" "m' = cp_mem p'" using assms by (auto simp: console_vprintf_def Let_def split: Option.bind_splits)
  from console_print.rel_printf[OF p(1)] show "0 \<le> cpos'" "m' x = m x \<or> x - CONSOLE_ADDR < 4000"
    unfolding p(2,3) console_rel_def by (auto split: if_splits)
qed

lemma app_printf_cursor:
  assumes "app_printf colorid fmt val (cursorpos, m) = Some (cursorpos', m')"
  shows "0 \<le> cursorpos'" "cursorpos' < 23 * 80" "m' x = m x \<or> x - CONSOLE_ADDR < 4000"
proof -
  obtain c where c: "console_vprintf cursorpos (app_color colorid) fmt val m = Some (c, m')" "cursorpos' = (if c div 80 \<ge> 23 then 0 else c)"
    using assms by (auto simp: app_printf_def split: Option.bind_splits)
  show "0 \<le> cursorpos'" "cursorpos' < 23 * 80" "m' x = m x \<or> x - CONSOLE_ADDR < 4000"
    using console_vprintf_range[OF c(1)] by (auto simp: c(2))
qed

section \<open>The panic message\<close>

lemma buffer_distance:
  fixes x buf :: "64 word"
  assumes "n \<le> 160"
  shows "unat (x - (buf + of_nat n)) = (if n \<le> unat (x - buf) then unat (x - buf) - n else unat (x - buf) + 2 ^ 64 - n)"
proof -
  have e: "x - (buf + of_nat n) = (x - buf) - of_nat n" by simp
  have n: "unat (of_nat n :: 64 word) = n" using assms by (simp add: unat_of_nat)
  show ?thesis unfolding e unat_sub_if' n by simp
qed

lemma buffer_at: "i < 200 \<Longrightarrow> unat ((buf :: 64 word) + of_nat i - buf) = i"
  by (simp add: unat_of_nat)

text \<open>The buffer after \<open>vsnprintf\<close>: the prefix, \<open>k\<close> characters of the message, and a NUL.\<close>

lemma panic_formatted:
  assumes "printf_output 0 fmt val = Some out" "unat buf + 160 \<le> 2 ^ 64"
  obtains k m2 where "k \<le> 152" "vsnprintf (buf + 7) (160 - 7) fmt val (store_bytes (map of_char ''PANIC: '') buf m) = Some (int k, m2)"
    "m2 (buf + of_nat (k + 7)) = 0" "\<And>i. i < 6 \<Longrightarrow> m2 (buf + of_nat i) = of_char (''PANIC:'' ! i)" "\<And>x. 160 \<le> unat (x - buf) \<Longrightarrow> m2 x = m x"
proof -
  define k where "k = min (length out) 152"
  define m1 where "m1 = store_bytes (map of_char ''PANIC: '') buf m"
  define m2 where "m2 = (\<lambda>x. if unat (x - (buf + 7)) < k then of_char (fst (out ! unat (x - (buf + 7)))) else if unat (x - (buf + 7)) = k then 0 else m1 x)"
  have k: "k \<le> 152" by (simp add: k_def)
  have u7: "unat (buf + 7) = unat buf + 7" using assms(2) by (simp add: unat_word_ariths)
  have e: "min (length out) (unat (160 - 7 :: 64 word) - 1) = k" by (simp add: k_def)
  have v: "vsnprintf (buf + 7) (160 - 7) fmt val m1 = Some (int k, m2)"
    unfolding m2_def by (rule vsnprintf_result[OF assms(1), of "160 - 7" "buf + 7" m1, unfolded e]) (use assms(2) u7 in simp_all)
  have m1: "m1 x = (if unat (x - buf) < 7 then of_char (''PANIC: '' ! unat (x - buf)) else m x)" for x
    unfolding m1_def by (subst store_bytes_at) (auto simp: nth_Cons')
  have m2: "m2 x = (if unat (x - buf) < 7 then of_char (''PANIC: '' ! unat (x - buf))
      else if unat (x - buf) < 7 + k then of_char (fst (out ! (unat (x - buf) - 7))) else if unat (x - buf) = 7 + k then 0 else m x)" for x
    unfolding m2_def m1 using buffer_distance[of 7 x buf] k by auto
  show thesis
  proof (rule that[OF k v[unfolded m1_def]])
    show "m2 (buf + of_nat (k + 7)) = 0" unfolding m2 using buffer_at[of "k + 7" buf] k by simp
    show "m2 (buf + of_nat i) = of_char (''PANIC:'' ! i)" if "i < 6" for i unfolding m2 using buffer_at[of i buf] that by (simp add: nth_Cons')
    show "m2 x = m x" if "160 \<le> unat (x - buf)" for x unfolding m2 using that k by simp
  qed
qed

text \<open>The newline and the NUL that \<open>strcpy\<close> puts at \<open>p\<close>.\<close>

lemma panic_newline:
  fixes buf x :: "64 word" and m2 :: memory
  assumes "p \<le> 158"
  defines "M \<equiv> store_bytes [10, 0] (buf + of_nat p) m2"
  shows "M (buf + of_nat p) = 10" "M (buf + of_nat (p + 1)) = 0" "i < p \<Longrightarrow> M (buf + of_nat i) = m2 (buf + of_nat i)"
    "160 \<le> unat (x - buf) \<Longrightarrow> M x = m2 x"
proof -
  have M: "M x = (if unat (x - buf) = p then 10 else if unat (x - buf) = p + 1 then 0 else m2 x)" for x
    unfolding M_def by (subst store_bytes_at) (use buffer_distance[of p x buf] assms(1) in \<open>auto simp: less_Suc_eq\<close>)
  show "M (buf + of_nat p) = 10" unfolding M using buffer_at[of p buf] assms(1) by simp
  show "M (buf + of_nat (p + 1)) = 0" unfolding M using buffer_at[of "p + 1" buf] assms(1) by simp
  show "i < p \<Longrightarrow> M (buf + of_nat i) = m2 (buf + of_nat i)" unfolding M using buffer_at[of i buf] assms(1) by simp
  show "160 \<le> unat (x - buf) \<Longrightarrow> M x = m2 x" unfolding M using assms(1) by simp
qed

text \<open>C36: \<open>panic\<close> of a user program stays in its buffer. Whatever the message and however long it is, the 160 bytes of \<open>buf\<close> are the only memory that is changed
  before the message is printed, and they hold \<open>PANIC: \<close> and a line that ends in a newline and a NUL, the last of them possibly in the last byte.\<close>

theorem panic_buffer_bounds:
  assumes "printf_output 0 fmt val = Some out" "unat buf + 160 \<le> 2 ^ 64"
  shows "\<exists>m' k. panic_buffer buf fmt val m = Some m' \<and> 6 \<le> k \<and> k \<le> 158 \<and> m' (buf + of_nat k) = 10 \<and> m' (buf + of_nat (k + 1)) = 0 \<and>
    (\<forall>i < 6. m' (buf + of_nat i) = of_char (''PANIC:'' ! i)) \<and> (\<forall>x. 160 \<le> unat (x - buf) \<longrightarrow> m' x = m x)"
proof -
  obtain k m2 where k: "k \<le> 152" and v: "vsnprintf (buf + 7) (160 - 7) fmt val (store_bytes (map of_char ''PANIC: '') buf m) = Some (int k, m2)"
    and z: "m2 (buf + of_nat (k + 7)) = 0" and pre: "\<And>i. i < 6 \<Longrightarrow> m2 (buf + of_nat i) = of_char (''PANIC:'' ! i)"
    and frame: "\<And>x. 160 \<le> unat (x - buf) \<Longrightarrow> m2 x = m x"
    using panic_formatted[OF assms] by blast
  have len: "buf + word_of_int (int k + 7 - 1) = buf + of_nat (k + 6)" "buf + word_of_int (int k + 7) = buf + of_nat (k + 7)" by simp_all
  have pb: "panic_buffer buf fmt val m = Some (if int k + 7 > 0 \<and> m2 (buf + word_of_int (int k + 7 - 1)) \<noteq> 10
      then store_bytes [10, 0] (buf + word_of_int (int k + 7) - (if int k + 7 = 160 - 1 then 1 else 0)) m2 else m2)"
    by (simp only: panic_buffer_def Let_def v Option.bind.bind_lunit prod.case)
  show ?thesis
  proof (cases "m2 (buf + of_nat (k + 6)) = 10")
    case True
    then have "panic_buffer buf fmt val m = Some m2" by (simp only: pb len(1) simp_thms if_False)
    moreover have "m2 (buf + of_nat (k + 6 + 1)) = 0" using z by (simp add: add.commute)
    ultimately show ?thesis using True k pre frame by (intro exI[of _ m2] exI[of _ "k + 6"]) simp
  next
    case False
    define p where "p = min (k + 7) 158"
    have p: "7 \<le> p" "p \<le> 158" by (simp_all add: p_def)
    have "buf + word_of_int (int k + 7) - (if int k + 7 = 160 - 1 then 1 else 0) = buf + of_nat p"
      using k by (cases "k = 152") (auto simp: min_def p_def)
    moreover have "int k + 7 > 0" by simp
    ultimately have "panic_buffer buf fmt val m = Some (store_bytes [10, 0] (buf + of_nat p) m2)" using False by (simp only: pb len(1) simp_thms if_True)
    then show ?thesis
      using p pre frame panic_newline[OF p(2)] by (intro exI[of _ "store_bytes [10, 0] (buf + of_nat p) m2"] exI[of _ p]) simp
  qed
qed

theorem panic_buffer_bounds_witness:
  "\<exists>m' k. panic_buffer 0x2FFF00 ''hi'' [] (\<lambda>_. 0) = Some m' \<and> k \<le> 158 \<and> m' (0x2FFF00 + of_nat k) = 10 \<and> m' (0x2FFF00 + of_nat (k + 1)) = 0"
proof -
  have "printf_output 0 ''hi'' [] = Some [(CHR ''h'', 0), (CHR ''i'', 0)]" by (simp add: printf_output_def record_putc_def)
  from panic_buffer_bounds[OF this, of "0x2FFF00" "\<lambda>_. 0"] show ?thesis by auto
qed

end
