(* ===== verification/Syscalls.thy ===== *)
theory Syscalls
  imports Kernel_Machine
begin

text \<open>
  The system calls as a program sees them, from \<open>process.h\<close>: the wrappers, which set registers and execute \<open>int\<close>, and what
  they return. The theorems join a wrapper to the whole path through \<open>exception\<close>: entry, checks, the case of the \<open>switch\<close>, and the
  return to a process.
\<close>

unbundle bit_operations_syntax

section \<open>The wrappers\<close>

text \<open>
  The registers with which the handlers of \<open>k-exception.S\<close> enter \<open>exception\<close> when a program with the registers \<open>g\<close> executes \<open>int n\<close>: the interrupt
  number, and 0 for the error code. A wrapper sets its arguments before; its result is \<open>eax\<close> when the process runs again.
\<close>

definition int_registers :: "64 word \<Rightarrow> x86_64_registers \<Rightarrow> x86_64_registers" where
  "int_registers n g = g\<lparr>reg_intno := n, reg_err := 0\<rparr>"

definition sys_getpid :: "x86_64_registers \<Rightarrow> x86_64_registers" where
  "sys_getpid g = int_registers 49 g"

definition sys_yield :: "x86_64_registers \<Rightarrow> x86_64_registers" where
  "sys_yield g = int_registers 50 g"

definition sys_page_alloc :: "64 word \<Rightarrow> x86_64_registers \<Rightarrow> x86_64_registers" where
  "sys_page_alloc addr g = int_registers 51 (g\<lparr>reg_rdi := addr\<rparr>)"

definition sys_fork :: "x86_64_registers \<Rightarrow> x86_64_registers" where
  "sys_fork g = int_registers 52 g"

definition sys_exit :: "x86_64_registers \<Rightarrow> x86_64_registers" where
  "sys_exit g = int_registers 53 g"

definition sys_panic :: "64 word \<Rightarrow> x86_64_registers \<Rightarrow> x86_64_registers" where
  "sys_panic msg g = int_registers 48 (g\<lparr>reg_rdi := msg\<rparr>)"

definition sys_mapping :: "64 word \<Rightarrow> 64 word \<Rightarrow> x86_64_registers \<Rightarrow> x86_64_registers" where
  "sys_mapping addr ptr g = int_registers 54 (g\<lparr>reg_rdi := ptr, reg_rsi := addr\<rparr>)"

definition sys_mem_tog :: "int \<Rightarrow> x86_64_registers \<Rightarrow> x86_64_registers" where
  "sys_mem_tog p g = int_registers 56 (g\<lparr>reg_rdi := ucast (word_of_int p :: 32 word)\<rparr>)"

definition sys_brk :: "64 word \<Rightarrow> x86_64_registers \<Rightarrow> x86_64_registers" where
  "sys_brk addr g = int_registers 57 (g\<lparr>reg_rdi := addr\<rparr>)"

definition sys_sbrk :: "64 word \<Rightarrow> x86_64_registers \<Rightarrow> x86_64_registers" where
  "sys_sbrk increment g = int_registers 58 (g\<lparr>reg_rdi := increment\<rparr>)"

definition sys_result :: "kernel_state \<Rightarrow> int \<Rightarrow> int" where
  "sys_result s p = sint (ucast (reg_rax (p_registers (k_processes s p))) :: 32 word)"

lemma result_small:
  assumes "-1 \<le> r" "r < NPROC"
  shows "sint (ucast (word_of_int r :: 64 word) :: 32 word) = r"
proof -
  have "r \<in> {-1..<16}" using assms by simp
  then have "r \<in> set [-1..15]" by auto
  moreover have "sint (ucast (-1 :: 64 word) :: 32 word) = -1" by code_simp
  ultimately show ?thesis by (auto simp: upto_rec1)
qed

lemma sys_result_set:
  "-1 \<le> r \<Longrightarrow> r < NPROC \<Longrightarrow> sys_result (upd_regs p (\<lambda>g. g\<lparr>reg_rax := word_of_int r\<rparr>) s) p = r"
  by (simp add: sys_result_def upd_regs_def upd_proc_def result_small)

lemma sys_result_cr3 [simp]: "sys_result (s\<lparr>k_cr3 := c\<rparr>) p = sys_result s p"
  by (simp add: sys_result_def)

section \<open>What the program sees\<close>

text \<open>A system call that ends with \<open>break\<close> while the process stays runnable comes back to it.\<close>

lemma abs_state_cr3 [simp]: "abs_state (s\<lparr>k_cr3 := c\<rparr>) = abs_state s"
  by (simp add: fun_eq_iff abs_state_def live_def address_space_def view_at_def Let_def)

lemma abs_state_regs: "abs_state (upd_regs q f s) = abs_state s"
  by (simp add: fun_eq_iff abs_state_def live_def address_space_def view_at_def Let_def)

lemma call_resumes:
  assumes "syms_ok syms" "ready syms s" "quiet key"
    and "\<And>u. viewed (entered syms reg s) u \<Longrightarrow> framed syms s u \<Longrightarrow> healthy syms u \<Longrightarrow> running u \<Longrightarrow> abs_state u = abs_state s \<Longrightarrow>
      \<exists>t. handle syms keys cr2 pad1 pad2 reg u = Inr (Break t) \<and> healthy syms t \<and> k_current t = k_current s \<and>
        p_state (cur t) = P_RUNNABLE \<and> Q (t\<lparr>k_cr3 := ptab t (k_current t)\<rparr>)"
  shows "\<exists>t. exception syms key keys cr2 pad1 pad2 reg s = Inr (Resumed t) \<and> ready syms t \<and> k_current t = k_current s \<and> Q t"
proof -
  have h: "healthy syms s" and run: "running s" and inv: "kinv syms s" using assms(2) by (simp_all add: ready_def healthy_def)
  obtain u where u: "viewed (entered syms reg s) u" "framed syms s u"
    "exception syms key keys cr2 pad1 pad2 reg s = bindR (handle syms keys cr2 pad1 pad2 reg u) (conclude syms keys)"
    using exception_enters[OF assms(1) inv assms(3)] by blast
  obtain t where t: "handle syms keys cr2 pad1 pad2 reg u = Inr (Break t)" "healthy syms t" "k_current t = k_current s"
      "p_state (cur t) = P_RUNNABLE" "Q (t\<lparr>k_cr3 := ptab t (k_current t)\<rparr>)"
    using assms(4)[OF u(1,2) framed_healthy[OF h u(2)] entered_running[OF u(1) run] abs_state_entered[OF inv u(2,1)]] by blast
  have pid: "1 \<le> k_current t" "k_current t < NPROC" using run t(3) by (simp_all add: running_def)
  have "kinv syms t" using t(2) by (simp add: healthy_def)
  from run_ok[OF assms(1) this pid t(4)]
  have "run syms (k_current t) t = Inr (Resumed (t\<lparr>k_cr3 := ptab t (k_current t)\<rparr>))" by simp
  then have "exception syms key keys cr2 pad1 pad2 reg s = Inr (Resumed (t\<lparr>k_cr3 := ptab t (k_current t)\<rparr>))"
    unfolding u(3) t(1) using t(4) by (simp add: conclude_def)
  moreover have "ready syms (t\<lparr>k_cr3 := ptab t (k_current t)\<rparr>)"
    using framed_healthy[OF t(2) framed_upd(2)] pid t(4) by (simp add: ready_def running_def)
  ultimately show ?thesis using t(3,5) by auto
qed

lemma sys_getpid_returns:
  assumes "syms_ok syms" "ready syms s" "quiet key"
  shows "\<exists>t. exception syms key keys cr2 pad1 pad2 (sys_getpid g) s = Inr (Resumed t) \<and> ready syms t \<and> k_current t = k_current s \<and>
    sys_result t (k_current s) = k_current s \<and> abs_state t = abs_state s"
proof (rule call_resumes[OF assms])
  fix u assume u: "viewed (entered syms (sys_getpid g) s) u" "healthy syms u" "running u" "abs_state u = abs_state s"
  have c: "k_current u = k_current s" by (rule entered_view[OF u(1)])
  have "p_pid (cur u) = k_current u" using kinvD(1)[of syms u] u(2,3) by (simp add: healthy_def kinv_procs_def running_def)
  then have "handle syms keys cr2 pad1 pad2 (sys_getpid g) u = Inr (Break (upd_regs (k_current u) (\<lambda>g. g\<lparr>reg_rax := word_of_int (k_current u)\<rparr>) u))"
    by (simp add: handle_def sys_getpid_def int_registers_def)
  moreover have "healthy syms (upd_regs (k_current u) (\<lambda>g. g\<lparr>reg_rax := word_of_int (k_current u)\<rparr>) u)" by (rule framed_healthy[OF u(2) framed_upd(5)])
  ultimately show "\<exists>t. handle syms keys cr2 pad1 pad2 (sys_getpid g) u = Inr (Break t) \<and> healthy syms t \<and> k_current t = k_current s \<and>
      p_state (cur t) = P_RUNNABLE \<and> sys_result (t\<lparr>k_cr3 := ptab t (k_current t)\<rparr>) (k_current s) = k_current s \<and>
      abs_state (t\<lparr>k_cr3 := ptab t (k_current t)\<rparr>) = abs_state s"
    using u(3,4) c by (simp add: running_def sys_result_set abs_state_regs)
qed

section \<open>Allocating a page\<close>

text \<open>What the process gets from \<open>sys_page_alloc\<close>, between the states before and after.\<close>

definition page_alloc_answer :: "64 word \<Rightarrow> int \<Rightarrow> kernel_state \<Rightarrow> kernel_state \<Rightarrow> bool" where
  "page_alloc_answer addr p s t \<longleftrightarrow>
     (if free_pages s = {} then sys_result t p = -1 \<and> abs_state t = abs_state s
      else sys_result t p = 0 \<and> own_page addr (address_space s p) (address_space t p) \<and>
        (\<forall>q. q \<noteq> p \<longrightarrow> abs_state t q = abs_state s q))"

lemma unmapped_slot:
  assumes "kinv syms s" "live s p" "PROC_START_ADDR \<le> addr" "addr < MEMSIZE_VIRTUAL" "address_space s p addr = None"
  shows "slot_of s p (vpn addr) AND PTE_P = 0"
proof -
  have v: "256 \<le> vpn addr" "vpn addr < 1024" using vpn_user(1)[OF assms(3,4)] by auto
  have "addr < 0x400000" using assms(4) by (simp add: word_less_nat_alt)
  then have "view_at s p addr = None" using assms(3,5) by (simp add: address_space_def)
  then show ?thesis using view_at_slot[OF assms(1,2) v] by (simp split: if_splits)
qed

lemma page_alloc_call:
  assumes "healthy syms u" "running u" "reg_rdi (p_registers (cur u)) = addr"
    and a: "PROC_START_ADDR \<le> addr" "addr < MEMSIZE_VIRTUAL" "page_aligned addr" "address_space u (k_current u) addr = None"
  shows "\<exists>t. handle_page_alloc u = Inr (Break t) \<and> healthy syms t \<and> k_current t = k_current u \<and> p_state (cur t) = P_RUNNABLE \<and>
    page_alloc_answer addr (k_current u) u t"
proof -
  let ?p = "k_current u"
  have inv: "kinv syms u" and acc: "accounted u" using assms(1) by (simp_all add: healthy_def)
  note l = running_live[OF assms(2)]
  note ab = unmapped_slot[OF inv l a(1,2,4)]
  have pid: "p_pid (cur u) = ?p" using kinvD(1)[OF inv] assms(2) by (simp add: kinv_procs_def running_def)
  have v: "256 \<le> vpn addr" "vpn addr < 768" "vpn addr < 1024" and lt: "addr < 0x400000"
    using vpn_user(1)[OF a(1,2)] a(2) by (auto simp: word_less_nat_alt)
  show ?thesis
  proof (cases "free_pages u = {}")
    case True
    then have "handle_page_alloc u = Inr (Break (upd_regs ?p (\<lambda>g. g\<lparr>reg_rax := word_of_int (-1)\<rparr>) u))"
      by (simp add: handle_page_alloc_def sys_page_alloc_eq)
    then show ?thesis
      using True framed_healthy[OF assms(1) framed_upd(5)] assms(2) sys_result_set[of "-1" ?p u]
      by (simp add: page_alloc_answer_def running_def abs_state_regs)
  next
    case False
    define pn where "pn = Min (free_pages u)"
    note pf = Min_free_pages(1)[OF False, folded pn_def]
    let ?w = "with_page ?p (vpn addr) pn (PAGEADDRESS pn + 7) u"
    let ?t = "upd_regs ?p (\<lambda>g. g\<lparr>reg_rax := word_of_int 0\<rparr>) ?w"
    have r: "handle_page_alloc u = Inr (Break ?t)"
      unfolding handle_page_alloc_def assms(3) pid page_alloc_state[OF inv l a(1,3) False] using v(3) by (simp add: with_page_def pn_def)
    have "healthy syms ?w"
      using kinv_with_page[OF inv l v(1,3) pf page_alloc_entry[OF pf]] accounted_with_page[OF inv acc l v(1,2) pf page_alloc_entry[OF pf] ab]
      by (simp add: healthy_def)
    note hw = framed_healthy[OF this framed_upd(5)]
    note al = alloc_effect[OF inv l pf a(3,1) lt ab]
    have "address_space ?t ?p = address_space ?w ?p" by (simp add: address_space_def view_at_def Let_def fun_eq_iff)
    then show ?thesis
      unfolding r using False hw assms(2) sys_result_set[of 0 ?p ?w] al
      by (simp add: page_alloc_answer_def running_def with_page_simps abs_state_regs)
  qed
qed

lemma page_alloc_answer_cong:
  assumes "abs_state u = abs_state s" "free_pages u = free_pages s" "live s p" "page_alloc_answer addr p u t"
  shows "page_alloc_answer addr p s (t\<lparr>k_cr3 := c\<rparr>)"
proof -
  have "address_space u p = address_space s p" using fun_cong[OF assms(1), of p] assms(3) by (simp add: abs_state_def split: if_splits)
  moreover have "address_space (t\<lparr>k_cr3 := c\<rparr>) p = address_space t p" by (simp add: address_space_def view_at_def Let_def fun_eq_iff)
  ultimately show ?thesis using assms unfolding page_alloc_answer_def by (cases "free_pages s = {}") simp_all
qed

text \<open>C11: \<open>sys_page_alloc\<close> as \<open>process.h\<close> documents it. For a page-aligned address of the user area that the process has not mapped the call comes back
  to the process. If physical memory is left the result is 0, and the page at the address, which was not
  mapped, can be read and written, while no other address of this process and nothing of any other process changes; if not, the result is -1 and nothing
  changes.\<close>

theorem sys_page_alloc_returns:
  assumes "syms_ok syms" "ready syms s" "quiet key" "PROC_START_ADDR \<le> addr" "addr < MEMSIZE_VIRTUAL" "page_aligned addr"
    and "address_space s (k_current s) addr = None"
  shows "\<exists>t. exception syms key keys cr2 pad1 pad2 (sys_page_alloc addr g) s = Inr (Resumed t) \<and> ready syms t \<and> k_current t = k_current s \<and>
    page_alloc_answer addr (k_current s) s t"
proof (rule call_resumes[OF assms(1-3)])
  let ?p = "k_current s" and ?g = "sys_page_alloc addr g"
  have l0: "live s ?p" using assms(2) running_live by (simp add: ready_def)
  fix u assume u: "viewed (entered syms ?g s) u" "healthy syms u" "running u" "abs_state u = abs_state s"
  note e = entered_view[OF u(1)]
  have "address_space u ?p = address_space s ?p" using fun_cong[OF u(4), of ?p] l0 by (simp add: abs_state_def split: if_splits)
  with assms(7) have "address_space u (k_current u) addr = None" by (simp add: e(1))
  moreover have "reg_rdi (p_registers (cur u)) = addr" unfolding e(2) by (simp add: sys_page_alloc_def int_registers_def)
  ultimately obtain t where t: "handle_page_alloc u = Inr (Break t)" "healthy syms t" "k_current t = k_current u" "p_state (cur t) = P_RUNNABLE"
    "page_alloc_answer addr (k_current u) u t"
    using page_alloc_call[OF u(2,3) _ assms(4-6)] by blast
  have "free_pages u = free_pages s" by (simp add: free_pages_def e(3))
  from page_alloc_answer_cong[OF u(4) this l0] t(5) e(1)
  have "page_alloc_answer addr ?p s (t\<lparr>k_cr3 := ptab t (k_current t)\<rparr>)" by simp
  moreover have "handle syms keys cr2 pad1 pad2 ?g u = handle_page_alloc u" by (simp add: handle_def sys_page_alloc_def int_registers_def)
  ultimately show "\<exists>t. handle syms keys cr2 pad1 pad2 ?g u = Inr (Break t) \<and> healthy syms t \<and> k_current t = ?p \<and> p_state (cur t) = P_RUNNABLE \<and>
      page_alloc_answer addr ?p s (t\<lparr>k_cr3 := ptab t (k_current t)\<rparr>)"
    using t(1-4) e(1) by auto
qed

section \<open>Fork and exit\<close>

text \<open>What the processes get from \<open>sys_fork\<close>; \<open>g\<close> are the registers of the call, \<open>c\<close> is the result.\<close>

definition fork_answer :: "int \<Rightarrow> x86_64_registers \<Rightarrow> kernel_state \<Rightarrow> kernel_state \<Rightarrow> bool" where
  "fork_answer c g s t \<longleftrightarrow>
     sys_result t (k_current s) = c \<and>
     (if c = -1 then abs_state t = abs_state s
      else \<not> live s c \<and> abs_state t = (abs_state s)(c \<mapsto> address_space s (k_current s)) \<and> p_state (k_processes t c) = P_RUNNABLE \<and>
        sys_result t c = 0 \<and> p_registers (k_processes t c) = g\<lparr>reg_rax := 0\<rparr>)"

lemma fork_answer_cr3 [simp]: "fork_answer c g s (t\<lparr>k_cr3 := x\<rparr>) = fork_answer c g s t"
  by (simp add: fork_answer_def)

lemma fork_answer_cong:
  assumes "abs_state u = abs_state s" "k_current u = k_current s" "live s (k_current s)"
  shows "fork_answer c g u t = fork_answer c g s t"
proof -
  have "address_space u (k_current s) = address_space s (k_current s)" "live u c = live s c"
    using fun_cong[OF assms(1), of "k_current s"] fun_cong[OF assms(1), of c] assms(3) by (simp_all add: abs_state_def split: if_splits)
  then show ?thesis using assms(1,2) by (simp add: fork_answer_def)
qed

lemma fork_call:
  assumes "healthy syms u" "running u" "p_registers (cur u) = g"
    and "first_free u c \<and> 5 + card (writable_slots u (k_current u) 768) \<le> card (free_pages u) \<or>
      list_all (\<lambda>q. p_state (k_processes u q) \<noteq> P_FREE) [1..NPROC - 1] \<and> c = -1"
  shows "\<exists>t. handle_fork u = Inr (Break t) \<and> healthy syms t \<and> k_current t = k_current u \<and> p_state (cur t) = P_RUNNABLE \<and> fork_answer c g u t"
  using assms(4)
proof
  let ?p = "k_current u"
  assume c: "first_free u c \<and> 5 + card (writable_slots u ?p 768) \<le> card (free_pages u)"
  then have r: "1 \<le> c" "c < NPROC" "p_state (k_processes u c) = P_FREE" by (simp_all add: first_free_def)
  obtain t where t: "handle_fork u = Inr (Break t)" "healthy syms t" "forked_descriptors u c t"
    "abs_state t = (abs_state u)(c \<mapsto> address_space u ?p)"
    using fork_effect[OF assms(1,2)] c by blast
  have nl: "\<not> live u c" using r(3) by (simp add: live_def)
  have pc: "c \<noteq> ?p" using running_live[OF assms(2)] nl by blast
  have d: "k_current t = ?p" "k_processes t ?p = (cur u)\<lparr>p_registers := g\<lparr>reg_rax := word_of_int c\<rparr>\<rparr>"
    "p_state (k_processes t c) = P_RUNNABLE" "p_registers (k_processes t c) = g\<lparr>reg_rax := 0\<rparr>"
  proof -
    note f = t(3)[unfolded forked_descriptors_def assms(3), THEN conjunct2]
    show "k_current t = ?p" using t(3) by (simp add: forked_descriptors_def)
    show "k_processes t ?p = (cur u)\<lparr>p_registers := g\<lparr>reg_rax := word_of_int c\<rparr>\<rparr>" using fun_cong[OF f, of ?p] by simp
    show "p_state (k_processes t c) = P_RUNNABLE" "p_registers (k_processes t c) = g\<lparr>reg_rax := 0\<rparr>"
      using arg_cong[OF fun_cong[OF f, of c], of p_state] arg_cong[OF fun_cong[OF f, of c], of p_registers] pc by simp_all
  qed
  then have "fork_answer c g u t" using t(4) nl r result_small[of c] by (simp add: fork_answer_def sys_result_def)
  with t(1,2) d(1,2) assms(2) show ?thesis by (simp add: running_def)
next
  let ?p = "k_current u"
  assume c: "list_all (\<lambda>q. p_state (k_processes u q) \<noteq> P_FREE) [1..NPROC - 1] \<and> c = -1"
  then have "handle_fork u = Inr (Break (upd_regs ?p (\<lambda>g. g\<lparr>reg_rax := word_of_int (-1)\<rparr>) u))"
    unfolding handle_fork_def by (subst fork_search_none) (auto simp: list_all_iff)
  then show ?thesis
    using c framed_healthy[OF assms(1) framed_upd(5)] assms(2) sys_result_set[of "-1" ?p u] by (simp add: fork_answer_def running_def abs_state_regs)
qed

text \<open>C12: \<open>sys_fork\<close> as \<open>process.h\<close> documents it. With a free process slot \<open>c\<close> and enough physical memory the call comes back to the parent with the child's number, which is not the number of a live process before;
  the child is runnable and will see 0 as the result of the same call; it has all other registers and the whole address space of the parent, and the address spaces of the parent and of everyone
  else are unchanged. With all slots taken the result is -1 and no address space changes.\<close>

theorem sys_fork_returns:
  assumes "syms_ok syms" "ready syms s" "quiet key"
    and "first_free s c \<and> 5 + card (writable_slots s (k_current s) 768) \<le> card (free_pages s) \<or>
      list_all (\<lambda>q. p_state (k_processes s q) \<noteq> P_FREE) [1..NPROC - 1] \<and> c = -1"
  shows "\<exists>t. exception syms key keys cr2 pad1 pad2 (sys_fork g) s = Inr (Resumed t) \<and> ready syms t \<and> k_current t = k_current s \<and>
    fork_answer c (sys_fork g) s t"
proof (rule call_resumes[OF assms(1-3)])
  let ?p = "k_current s" and ?g = "sys_fork g"
  have inv0: "kinv syms s" and l0: "live s ?p" using assms(2) running_live by (auto simp: ready_def healthy_def)
  fix u assume u: "viewed (entered syms ?g s) u" "framed syms s u" "healthy syms u" "running u" "abs_state u = abs_state s"
  note e = entered_view[OF u(1)]
  have "free_pages u = free_pages s" "first_free u c = first_free s c" by (simp_all add: free_pages_def first_free_def list_all_iff e(3,4))
  moreover have "writable_slots u (k_current u) 768 = writable_slots s ?p 768"
    using framed_views(2)[OF inv0 u(2) l0] e(1) by (simp add: writable_slots_def)
  ultimately obtain t where t: "handle_fork u = Inr (Break t)" "healthy syms t" "k_current t = k_current u" "p_state (cur t) = P_RUNNABLE"
    "fork_answer c ?g u t"
    using fork_call[OF u(3,4) e(2), of c] assms(4) e(4) by auto
  have "handle syms keys cr2 pad1 pad2 ?g u = handle_fork u" by (simp add: handle_def sys_fork_def int_registers_def)
  moreover have "fork_answer c ?g s t" using t(5) fork_answer_cong[OF u(5) e(1) l0] by simp
  ultimately show "\<exists>t. handle syms keys cr2 pad1 pad2 ?g u = Inr (Break t) \<and> healthy syms t \<and> k_current t = ?p \<and> p_state (cur t) = P_RUNNABLE \<and>
      fork_answer c ?g s (t\<lparr>k_cr3 := ptab t (k_current t)\<rparr>)"
    using t(1-4) e(1) by auto
qed

text \<open>A call of \<open>sys_exit\<close> by a process none of whose pages another one maps ends in the scheduler, with the caller gone.\<close>

lemma sys_exit_outcome:
  assumes "syms_ok syms" "ready syms s" "quiet key" "unshared s (k_current s)"
  shows "\<exists>u. exception syms key keys cr2 pad1 pad2 (sys_exit g) s = schedule syms keys u \<and> healthy syms u \<and> k_current u = k_current s \<and>
    abs_state u = (abs_state s)(k_current s := None) \<and>
    (\<forall>q. p_state (k_processes u q) = (if q = k_current s then P_FREE else p_state (k_processes s q)))"
proof -
  let ?p = "k_current s" and ?g = "sys_exit g"
  have h: "healthy syms s" and run: "running s" and inv: "kinv syms s" using assms(2) by (simp_all add: ready_def healthy_def)
  have p: "permitted s ?g" using assms(4) by (simp add: permitted_def sys_exit_def int_registers_def)
  obtain u where u: "viewed (entered syms ?g s) u" "framed syms s u"
    "exception syms key keys cr2 pad1 pad2 ?g s = bindR (handle syms keys cr2 pad1 pad2 ?g u) (conclude syms keys)"
    using exception_enters[OF assms(1) inv assms(3)] by blast
  note e = entered_view[OF u(1)] and hu = framed_healthy[OF h u(2)] and ru = entered_running[OF u(1) run]
  have iu: "kinv syms u" using hu by (simp add: healthy_def)
  have x: "handle syms keys cr2 pad1 pad2 ?g u = Inr (Break (handle_exit u))" by (simp add: handle_def sys_exit_def int_registers_def)
  have st: "p_state (k_processes (handle_exit u) q) = (if q = ?p then P_FREE else p_state (k_processes s q))" "k_current (handle_exit u) = ?p" for q
    using e(1,4) by (simp_all add: handle_exit_eq[OF iu ru] leaving_simps)
  have "healthy syms (handle_exit u)"
    using handle_served[OF assms(1) hu ru e(2) permitted_entered[OF inv u(2,1) run p], of keys cr2 pad1 pad2] x by (auto simp: served_Break)
  moreover have "abs_state (handle_exit u) = (abs_state s)(?p := None)"
    using exit_astep[OF iu ru] abs_state_entered[OF inv u(2,1)] e(1) by simp
  ultimately show ?thesis unfolding u(3) x using st by (intro exI[of _ "handle_exit u"]) (simp add: conclude_def)
qed

text \<open>C39: \<open>sys_exit\<close> does not return, and the system goes on. If no other process maps a page of the caller, and some other process is runnable,
  then the kernel resumes a process other than the caller, ready to run; the caller's
  address space is gone, and those of all others are as they were. (No key that stops the system is typed meanwhile.)\<close>

theorem sys_exit_leaves:
  assumes "syms_ok syms" "ready syms s" "quiet key" "unshared s (k_current s)" "list_all quiet keys" "15 \<le> length keys"
    and "1 \<le> q" "q < NPROC" "q \<noteq> k_current s" "p_state (k_processes s q) = P_RUNNABLE"
  shows "\<exists>t. exception syms key keys cr2 pad1 pad2 (sys_exit g) s = Inr (Resumed t) \<and> ready syms t \<and> k_current t \<noteq> k_current s \<and>
    abs_state t = (abs_state s)(k_current s := None)"
proof -
  let ?p = "k_current s"
  obtain u where u: "exception syms key keys cr2 pad1 pad2 (sys_exit g) s = schedule syms keys u" "healthy syms u" "k_current u = ?p"
    "abs_state u = (abs_state s)(?p := None)" "\<And>q. p_state (k_processes u q) = (if q = ?p then P_FREE else p_state (k_processes s q))"
    using sys_exit_outcome[OF assms(1-4)] by blast
  have c: "0 \<le> k_current u" "k_current u < NPROC" using assms(2) u(3) by (simp_all add: ready_def running_def)
  have inv: "kinv syms u" using u(2) by (simp add: healthy_def)
  define d where "d = nat ((q - k_current u - 1) mod NPROC)"
  have d: "d \<le> length keys" "int d = (q - k_current u - 1) mod NPROC" using assms(6) by (simp_all add: d_def nat_le_iff)
  have q: "(k_current u + 1 + int d) mod NPROC = q" unfolding d(2) using assms(7,8) by (simp add: mod_simps)
  have qs: "p_state (k_processes u ((k_current u + 1 + int d) mod NPROC)) = P_RUNNABLE" unfolding q using u(5)[of q] assms(9,10) by simp
  obtain k where t: "schedule syms keys u = Inr (Resumed (u\<lparr>k_current := (k_current u + 1 + int k) mod NPROC, k_cr3 := ptab u ((k_current u + 1 + int k) mod NPROC)\<rparr>))"
    using schedule_first[OF assms(1) inv c qs assms(5) d(1)] by blast
  define r where "r = (k_current u + 1 + int k) mod NPROC"
  let ?t = "u\<lparr>k_current := r, k_cr3 := ptab u r\<rparr>"
  have "outcome_sat (healthy syms) (Resumed ?t)" using strict.schedule_keeps[OF assms(1) u(2), of keys] t by (auto simp: r_def)
  then have rt: "ready syms ?t" by (simp add: ready_def)
  moreover have "abs_state ?t = abs_state u" by (rule abs_state_framed[OF inv framed_upd(1)]) simp
  moreover have "r \<noteq> ?p" using rt u(5)[of r] by (auto simp: ready_def running_def)
  ultimately show ?thesis using u(1,4) t by (simp add: r_def)
qed

text \<open>C40: \<open>sys_brk\<close> and \<open>sys_sbrk\<close> stop the kernel. \<open>process.h\<close> documents them as the calls that move the program break and return -1 on failure, but \<open>exception\<close> has no case for their
  interrupts: any process that calls one of them, with any argument, makes the kernel panic.\<close>

theorem sys_brk_panics:
  assumes "syms_ok syms" "ready syms s" "quiet key" "reg = sys_brk addr g \<or> reg = sys_sbrk addr g"
  shows "exception syms key keys cr2 pad1 pad2 reg s = Inl (Panic_call (Some ''Unexpected exception %d!\<newline>''))"
proof -
  have inv: "kinv syms s" using assms(2) by (simp add: ready_def healthy_def)
  obtain u where "exception syms key keys cr2 pad1 pad2 reg s = bindR (handle syms keys cr2 pad1 pad2 reg u) (conclude syms keys)"
    using exception_enters[OF assms(1) inv assms(3)] by blast
  then show ?thesis using assms(4) by (auto simp: handle_def sys_brk_def sys_sbrk_def int_registers_def)
qed

section \<open>One process that calls\<close>

definition example_alone :: kernel_state where
  "example_alone = (example_user True)\<lparr>k_cr3 := ptab (example_user True) 1\<rparr>"

lemma example_alone_facts:
  "ready example_syms example_alone" "k_current example_alone = 1" "quiet (-1)" "address_space example_alone 1 0x101000 = None"
  "free_pages example_alone \<noteq> {}" "first_free example_alone 2" "unshared example_alone 1"
  "5 + card (writable_slots example_alone 1 768) \<le> card (free_pages example_alone)"
proof -
  note u = example_user_facts[of True]
  have fp: "free_pages example_alone = free_pages (example_user True)" by (simp add: free_pages_def example_alone_def)
  show "ready example_syms example_alone"
    unfolding ready_def example_alone_def using framed_healthy[OF u(1) framed_upd(2)] u(2,4) by (simp add: running_def)
  show "k_current example_alone = 1" using u(4) by (simp add: example_alone_def)
  show "quiet (-1)" by (simp add: quiet_def of_char_def)
  show "free_pages example_alone \<noteq> {}" using u(6) fp by auto
  show "first_free example_alone 2" using example_user_fork(1)[of True] by (simp add: first_free_def example_alone_def)
  show "unshared example_alone 1"
    using example_user_unshared[of True] by (simp add: unshared_def sharers_def user_slot_def live_def example_alone_def)
  show "5 + card (writable_slots example_alone 1 768) \<le> card (free_pages example_alone)"
    unfolding fp using example_user_fork(2)[of True] u(4) by (simp add: writable_slots_def example_alone_def)
  have v: "vpn 0x101000 = 257" by (simp add: vpn_def)
  have "view_at (example_user True) 1 0x101000 = None"
    using view_at_slot[of example_syms "example_user True" 1 "0x101000"] u(1,3) example_one_facts(5)[of 257] by (simp add: healthy_def v u(5))
  then show "address_space example_alone 1 0x101000 = None" by (simp add: address_space_def example_alone_def view_at_def Let_def split: if_splits)
qed

theorem sys_page_alloc_returns_witness:
  "\<exists>t. exception example_syms (-1) [] 0 0 0 (sys_page_alloc 0x101000 zero_registers) example_alone = Inr (Resumed t) \<and>
     sys_result t 1 = 0 \<and> (\<exists>b. address_space t 1 0x101234 = Some (b, 7))"
proof -
  note f = example_alone_facts
  have p: "PROC_START_ADDR \<le> (0x101000 :: 64 word)" "(0x101000 :: 64 word) < MEMSIZE_VIRTUAL" "page_aligned 0x101000" by (simp_all add: page_aligned_nat)
  obtain t where t: "exception example_syms (-1) [] 0 0 0 (sys_page_alloc 0x101000 zero_registers) example_alone = Inr (Resumed t)"
    "page_alloc_answer 0x101000 1 example_alone t"
    using sys_page_alloc_returns[OF example_syms_ok f(1,3) p, of "[]" 0 0 0 zero_registers] f(2,4) by auto
  have "PTE_ADDR 0x101234 = 0x101000" by (simp add: PTE_ADDR_def)
  then show ?thesis
    using t f(5) unfolding page_alloc_answer_def own_page_def by (auto dest: spec[of _ "0x101234 :: 64 word"])
qed

theorem sys_fork_returns_witness:
  "\<exists>t. exception example_syms (-1) [] 0 0 0 (sys_fork zero_registers) example_alone = Inr (Resumed t) \<and>
     sys_result t 1 = 2 \<and> sys_result t 2 = 0 \<and> abs_state t 2 = abs_state example_alone 1"
proof -
  note f = example_alone_facts
  have "live example_alone 1" using f(1,2) running_live[of example_alone] by (simp add: ready_def)
  then have "abs_state example_alone 1 = Some (address_space example_alone 1)" by (simp add: abs_state_def)
  then show ?thesis
    using sys_fork_returns[OF example_syms_ok f(1,3), of 2 "[]" 0 0 0 zero_registers] f(2,6,8)
    by (auto simp: fork_answer_def)
qed

theorem sys_exit_leaves_witness:
  "\<exists>t. exception example_syms (-1) (replicate 15 (-1)) 0 0 0 (sys_exit zero_registers) (example_pair\<lparr>k_cr3 := ptab example_pair 1\<rparr>) = Inr (Resumed t) \<and>
     ready example_syms t \<and> k_current t \<noteq> 1 \<and> abs_state t 1 = None"
proof -
  let ?s = "example_pair\<lparr>k_cr3 := ptab example_pair 1\<rparr>"
  note p = example_pair_facts
  have "ready example_syms ?s" using framed_healthy[OF p(1) framed_upd(2)] p(2,3) by (simp add: ready_def running_def)
  moreover have "unshared ?s (k_current ?s)" using p(7)[of 1] p(3) by (simp add: unshared_def sharers_def user_slot_def live_def)
  moreover have "quiet (-1)" "list_all quiet (replicate 15 (-1))" by (simp_all add: quiet_def of_char_def list_all_iff)
  ultimately show ?thesis
    using sys_exit_leaves[OF example_syms_ok, of ?s "-1" "replicate 15 (-1)" 2 0 0 0 zero_registers] p(3,5) by auto
qed

theorem sys_brk_panics_witness:
  "exception example_syms (-1) [] 0 0 0 (sys_brk 0x200000 zero_registers) example_alone = Inl (Panic_call (Some ''Unexpected exception %d!\<newline>''))"
  using sys_brk_panics[OF example_syms_ok example_alone_facts(1,3)] by blast

end
