(* ===== verification/Programs.thy ===== *)
theory Programs
  imports Syscalls
begin

text \<open>
  A user program on the kernel: \<open>p-allocator.c\<close> as a state machine whose actions are the system calls of \<open>process.h\<close> and a store, and its executions on the
  machine of \<open>Kernel_Machine\<close>, together with processes that do anything the machine allows.
\<close>

unbundle bit_operations_syntax

section \<open>The allocator\<close>

text \<open>
  \<open>process_main\<close> of \<open>p-allocator.c\<close> as a state machine (\<open>p-test.c\<close> is the same program). The state is where the program stands and its variables; \<open>alloc_action\<close>
  is what it does next, and \<open>alloc_resume\<close> goes on with the result \<open>r\<close> up to the next action. The program's \<open>end\<close> symbol and its stack pointer are parameters.
\<close>

definition ROUNDDOWN :: "64 word \<Rightarrow> 64 word \<Rightarrow> 64 word" where
  "ROUNDDOWN a n = a - a mod n"

definition ROUNDUP :: "64 word \<Rightarrow> 64 word \<Rightarrow> 64 word" where
  "ROUNDUP a n = ROUNDDOWN (a + n - 1) n"

datatype user_action = Syscall "x86_64_registers \<Rightarrow> x86_64_registers" | Store "64 word" "8 word"

datatype alloc_pc = At_getpid | At_page_alloc | At_store | At_yield | At_idle

record allocator =
  al_pc :: alloc_pc
  al_p :: int
  heap_top :: "64 word"
  stack_bottom :: "64 word"
  al_rand :: rand_state

text \<open>The head of the loop: the tests before \<open>sys_page_alloc\<close>.\<close>

definition alloc_loop :: "allocator \<Rightarrow> allocator" where
  "alloc_loop st =
     (let (r, rs) = rand (al_rand st); st = st\<lparr>al_rand := rs\<rparr> in
      if r mod 100 < al_p st then
        (if heap_top st = stack_bottom st then st\<lparr>al_pc := At_idle\<rparr> else st\<lparr>al_pc := At_page_alloc\<rparr>)
      else st\<lparr>al_pc := At_yield\<rparr>)"

definition alloc_action :: "allocator \<Rightarrow> user_action" where
  "alloc_action st =
     (case al_pc st of
        At_getpid \<Rightarrow> Syscall sys_getpid
      | At_page_alloc \<Rightarrow> Syscall (sys_page_alloc (heap_top st))
      | At_store \<Rightarrow> Store (heap_top st) (word_of_int (al_p st))
      | At_yield \<Rightarrow> Syscall sys_yield
      | At_idle \<Rightarrow> Syscall sys_yield)"

definition alloc_resume :: "64 word \<Rightarrow> 64 word \<Rightarrow> int \<Rightarrow> allocator \<Rightarrow> allocator" where
  "alloc_resume end_sym rsp r st =
     (case al_pc st of
        At_getpid \<Rightarrow>
          alloc_loop (st\<lparr>al_p := r, al_rand := srand (word_of_int r) (al_rand st),
                        heap_top := ROUNDUP end_sym PAGESIZE, stack_bottom := ROUNDDOWN (rsp - 1) PAGESIZE\<rparr>)
      | At_page_alloc \<Rightarrow> if r < 0 then st\<lparr>al_pc := At_idle\<rparr> else st\<lparr>al_pc := At_store\<rparr>
      | At_store \<Rightarrow> st\<lparr>heap_top := heap_top st + PAGESIZE, al_pc := At_yield\<rparr>
      | At_yield \<Rightarrow> alloc_loop st
      | At_idle \<Rightarrow> st)"

lemma alloc_loop_facts:
  "heap_top (alloc_loop st) = heap_top st" "stack_bottom (alloc_loop st) = stack_bottom st"
  "al_pc (alloc_loop st) \<in> {At_idle, At_page_alloc, At_yield}" "al_pc (alloc_loop st) = At_page_alloc \<Longrightarrow> heap_top st \<noteq> stack_bottom st"
  by (auto simp: alloc_loop_def Let_def split: prod.splits if_splits)

section \<open>The allocator on the kernel\<close>

text \<open>
  Process \<open>P\<close> runs the allocator; everybody else does what the machine allows. When \<open>P\<close> runs it takes its next action or is interrupted by the timer.
\<close>

inductive alloc_step :: "link_symbols \<Rightarrow> int \<Rightarrow> 64 word \<Rightarrow> 64 word \<Rightarrow> kernel_state \<times> allocator \<Rightarrow> kernel_state \<times> allocator \<Rightarrow> bool"
  for syms P end_sym rsp where
  others: "k_current s \<noteq> P \<Longrightarrow> kstep syms s s' \<Longrightarrow> alloc_step syms P end_sym rsp (s, st) (s', st)"
| timer: "k_current s = P \<Longrightarrow> reg_intno reg = 32 \<Longrightarrow> quiet key \<Longrightarrow> exception syms key keys cr2 pad1 pad2 reg s = Inr (Resumed s') \<Longrightarrow>
    alloc_step syms P end_sym rsp (s, st) (s', st)"
| call: "k_current s = P \<Longrightarrow> alloc_action st = Syscall c \<Longrightarrow> quiet key \<Longrightarrow> exception syms key keys cr2 pad1 pad2 (c g) s = Inr (Resumed s') \<Longrightarrow>
    alloc_step syms P end_sym rsp (s, st) (s', alloc_resume end_sym rsp (sys_result s' P) st)"
| store: "k_current s = P \<Longrightarrow> alloc_action st = Store va b \<Longrightarrow> hw_translate (k_mem s) (k_cr3 s) va = Some (pa, PTE_W OR PTE_U) \<Longrightarrow>
    alloc_step syms P end_sym rsp (s, st) (s\<lparr>k_mem := (k_mem s)(pa := b)\<rparr>, alloc_resume end_sym rsp 0 st)"

text \<open>The heap of a process: the bytes from \<open>a\<close> to \<open>b\<close> are not mapped.\<close>

definition unmapped :: "aspace \<Rightarrow> 64 word \<Rightarrow> 64 word \<Rightarrow> bool" where
  "unmapped as a b \<longleftrightarrow> (\<forall>va. a \<le> va \<longrightarrow> va < b \<longrightarrow> as va = None)"

definition heap_inv :: "64 word \<Rightarrow> 64 word \<Rightarrow> aspace \<Rightarrow> allocator \<Rightarrow> bool" where
  "heap_inv lo hi as st \<longleftrightarrow>
     (if al_pc st = At_getpid then unmapped as lo hi
      else lo \<le> heap_top st \<and> heap_top st \<le> hi \<and> stack_bottom st = hi \<and> page_aligned (heap_top st) \<and>
        (al_pc st \<in> {At_page_alloc, At_store} \<longrightarrow> heap_top st < hi) \<and>
        (if al_pc st = At_store then (\<exists>b. as (heap_top st) = Some (b, 7)) \<and> unmapped as (heap_top st + PAGESIZE) hi
         else unmapped as (heap_top st) hi))"

lemma aligned_next:
  assumes "page_aligned a" "page_aligned b" "a < b"
  shows "unat (a + PAGESIZE) = unat a + 4096" "a + PAGESIZE \<le> b" "page_aligned (a + PAGESIZE)" "a \<le> a + PAGESIZE"
proof -
  obtain i j where ij: "unat a = 4096 * i" "unat b = 4096 * j" using assms(1,2) by (auto simp: page_aligned_nat elim!: dvdE)
  have "i < j" using assms(3) ij by (simp add: word_less_nat_alt)
  then have le: "unat a + 4096 \<le> unat b" using ij by simp
  have "unat b < 18446744073709551616" using unsigned_less[of b] by simp
  then have "unat a + 4096 < 18446744073709551616" using le by linarith
  then show u: "unat (a + PAGESIZE) = unat a + 4096" by (simp add: unat_word_ariths)
  show "a + PAGESIZE \<le> b" "a \<le> a + PAGESIZE" unfolding word_le_nat_alt u using le by simp_all
  show "page_aligned (a + PAGESIZE)" unfolding page_aligned_nat u using assms(1) by (simp add: page_aligned_nat)
qed

lemma heap_resume:
  assumes "heap_inv lo hi as st" "page_aligned lo" "page_aligned hi" "lo \<le> hi" "lo = ROUNDUP end_sym PAGESIZE" "hi = ROUNDDOWN (rsp - 1) PAGESIZE"
    and "\<And>va. as va = None \<Longrightarrow> al_pc st \<noteq> At_page_alloc \<or> r < 0 \<Longrightarrow> as' va = None"
    and "al_pc st = At_page_alloc \<Longrightarrow> 0 \<le> r \<Longrightarrow> own_page (heap_top st) as as'"
  shows "heap_inv lo hi as' (alloc_resume end_sym rsp r st)"
proof (cases "al_pc st")
  case At_getpid
  then have "unmapped as' lo hi" using assms(1,7) by (auto simp: heap_inv_def unmapped_def)
  then show ?thesis using At_getpid assms(2-6) alloc_loop_facts[of "st\<lparr>al_p := r, al_rand := srand (word_of_int r) (al_rand st), heap_top := lo, stack_bottom := hi\<rparr>"]
    by (auto simp: alloc_resume_def heap_inv_def)
next
  case At_page_alloc
  note i = assms(1)[unfolded heap_inv_def, simplified At_page_alloc, simplified]
  show ?thesis
  proof (cases "r < 0")
    case True
    then show ?thesis using i At_page_alloc assms(7) by (auto simp: alloc_resume_def heap_inv_def unmapped_def)
  next
    case False
    then have o: "own_page (heap_top st) as as'" using assms(8) At_page_alloc by simp
    have hi: "page_aligned (heap_top st)" "heap_top st < hi" using i by simp_all
    note n = aligned_next[OF hi(1) assms(3) hi(2)]
    have "PTE_ADDR (heap_top st) = heap_top st" by (rule PTE_ADDR_self[OF hi(1)])
    then have "\<exists>b. as' (heap_top st) = Some (b, 7)" using o by (auto simp: own_page_def dest: spec[of _ "heap_top st"])
    moreover have "as' va = None" if va: "heap_top st + PAGESIZE \<le> va" "va < hi" for va
    proof -
      have "PTE_ADDR va \<noteq> heap_top st"
      proof
        assume "PTE_ADDR va = heap_top st"
        then have "unat va - unat va mod 4096 = unat (heap_top st)" by (metis PTE_ADDR_nat)
        moreover have "unat va mod 4096 < 4096" by simp
        ultimately have "unat va < unat (heap_top st) + 4096" by linarith
        with va(1) n(1) show False by (simp add: word_le_nat_alt)
      qed
      moreover have "as va = None" using i va n(4) by (auto simp: unmapped_def)
      ultimately show ?thesis using o by (auto simp: own_page_def dest: spec[of _ va])
    qed
    ultimately show ?thesis using i False At_page_alloc by (simp add: alloc_resume_def heap_inv_def unmapped_def)
  qed
next
  case At_store
  note i = assms(1)[unfolded heap_inv_def, simplified At_store, simplified]
  have hi: "page_aligned (heap_top st)" "heap_top st < hi" using i by simp_all
  note n = aligned_next[OF hi(1) assms(3) hi(2)]
  show ?thesis using i n At_store assms(7) by (auto simp: alloc_resume_def heap_inv_def unmapped_def)
next
  case At_yield
  then show ?thesis using assms(1,7) alloc_loop_facts[of st]
    by (auto simp: alloc_resume_def heap_inv_def unmapped_def)
next
  case At_idle
  then show ?thesis using assms(1,7) by (auto simp: alloc_resume_def heap_inv_def unmapped_def)
qed

lemma switch_keeps:
  assumes "syms_ok syms" "ready syms s" "quiet key" "reg_intno reg = 50 \<or> reg_intno reg = 32"
    and "exception syms key keys cr2 pad1 pad2 reg s = Inr (Resumed t)"
  shows "ready syms t" "abs_state t = abs_state s"
proof -
  have h: "healthy syms s" and run: "running s" and inv: "kinv syms s" using assms(2) by (simp_all add: ready_def healthy_def)
  have "permitted s reg" using assms(4) by (auto simp: permitted_def)
  from exception_served[OF assms(1) h run this assms(3), of keys cr2 pad1 pad2] assms(5)
  show "ready syms t" by (simp add: ready_def)
  obtain u where u: "viewed (entered syms reg s) u" "framed syms s u"
    "exception syms key keys cr2 pad1 pad2 reg s = bindR (handle syms keys cr2 pad1 pad2 reg u) (conclude syms keys)"
    using exception_enters[OF assms(1) inv assms(3)] by blast
  obtain v where v: "schedule syms keys v = Inr (Resumed t)" "v = u \<or> v = u\<lparr>k_ticks := k_ticks u + 1\<rparr>"
    using assms(4,5) unfolding u(3) by (auto simp: handle_def bindR_eq_Inr conclude_def)
  obtain q c where "t = v\<lparr>k_current := q, k_cr3 := c\<rparr>" using schedule_state[OF v(1)] by blast
  then have "abs_state t = abs_state u"
    using v(2) by (auto simp: fun_eq_iff abs_state_def live_def address_space_def view_at_def Let_def)
  then show "abs_state t = abs_state s" using abs_state_entered[OF inv u(2,1)] by simp
qed

lemma abs_state_space: "live s p \<Longrightarrow> abs_state t p = abs_state s p \<Longrightarrow> live t p \<and> address_space t p = address_space s p"
  by (simp add: abs_state_def split: if_splits)

lemma framed_unmapped:
  assumes "kinv syms s" "framed syms s t" "live s p" "address_space s p va = None"
  shows "address_space t p va = None"
proof (cases "PROC_START_ADDR \<le> va \<and> va < 0x400000")
  case True
  then have v: "256 \<le> vpn va" "vpn va < 1024" using address_space_vpn by blast+
  have l: "live t p" using framed_live[OF assms(2)] assms(3) by simp
  have "slot_of t p = slot_of s p" by (rule framed_views(2)[OF assms(1-3)])
  then show ?thesis
    using assms(4) True view_at_slot[OF assms(1,3) v] view_at_slot[OF framed_kinv[OF assms(1,2)] l v]
    by (simp add: address_space_def split: if_splits)
qed (auto simp: address_space_def)

lemma flags_6: "6 AND e = 6 AND PTE_FLAGS e"
proof -
  have "(e AND 0xFFF) AND 6 = e AND (6 :: 64 word)" by (simp only: and.assoc) simp
  then show ?thesis unfolding PTE_FLAGS_def by (simp only: and.commute)
qed

lemma writable_translates:
  assumes "ready syms s" "address_space s (k_current s) va = Some (b, 7)"
  shows "\<exists>pa. hw_translate (k_mem s) (k_cr3 s) va = Some (pa, PTE_W OR PTE_U)"
proof -
  let ?p = "k_current s" and ?e = "slot_of s (k_current s) (vpn va)"
  have inv: "kinv syms s" and l: "live s ?p" and cr3: "k_cr3 s = ptab s ?p" using assms(1) running_live by (auto simp: ready_def healthy_def)
  have r: "PROC_START_ADDR \<le> va \<and> va < 0x400000" "view_at s ?p va = Some (b, 7)" using assms(2) by (auto simp: address_space_def split: if_splits)
  have v: "256 \<le> vpn va" "vpn va < 1024" using r(1) address_space_vpn by blast+
  have e: "?e AND PTE_P \<noteq> 0" "uint (PTE_FLAGS ?e) = 7" using r(2) view_at_slot[OF inv l v] by (auto split: if_splits)
  note flags_6[of ?e]
  moreover have "PTE_FLAGS ?e = 7" using e(2) by (simp add: word_uint_eq_iff)
  ultimately have "6 AND ?e = 6" by simp
  moreover have "pt_wf (k_mem s) (ptab s ?p)" using kinvD(5)[OF inv l] by (simp add: kinv_table_def)
  ultimately show ?thesis using hw_slots[of "k_mem s" "ptab s ?p" va] canonical_low[of va] r(1) e(1) cr3 by (simp add: Let_def word_less_nat_alt)
qed

text \<open>The window that the program's addresses must lie in.\<close>

definition heap_window :: "64 word \<Rightarrow> 64 word \<Rightarrow> bool" where
  "heap_window lo hi \<longleftrightarrow> PROC_START_ADDR \<le> lo \<and> lo \<le> hi \<and> hi \<le> MEMSIZE_VIRTUAL"

lemma ROUNDDOWN_aligned: "page_aligned (ROUNDDOWN a PAGESIZE)"
proof -
  have "a mod PAGESIZE \<le> a" by (simp add: word_le_nat_alt unat_mod)
  then have "unat (ROUNDDOWN a PAGESIZE) = unat a - unat (a mod PAGESIZE)" unfolding ROUNDDOWN_def by (rule unat_sub)
  then have "unat (ROUNDDOWN a PAGESIZE) = 4096 * (unat a div 4096)" by (simp add: unat_mod minus_mod_eq_mult_div)
  then show ?thesis by (simp add: page_aligned_nat)
qed

lemma page_alloc_inv:
  assumes "syms_ok syms" "ready syms s" "k_current s = P" "quiet key" "heap_window lo hi" "page_aligned hi"
    and "heap_inv lo hi (address_space s P) st" "al_pc st = At_page_alloc"
    and "exception syms key keys cr2 pad1 pad2 (sys_page_alloc (heap_top st) g) s = Inr (Resumed s')"
  shows "ready syms s'" "k_current s' = P" "page_alloc_answer (heap_top st) P s s'"
proof -
  note h = assms(7)[unfolded heap_inv_def, simplified assms(8), simplified]
  have "PROC_START_ADDR \<le> heap_top st" "heap_top st < MEMSIZE_VIRTUAL" "page_aligned (heap_top st)" "address_space s (k_current s) (heap_top st) = None"
    using h assms(3,5) by (auto simp: heap_window_def unmapped_def)
  from sys_page_alloc_returns[OF assms(1,2,4) this, of keys cr2 pad1 pad2 g]
  show "ready syms s'" "k_current s' = P" "page_alloc_answer (heap_top st) P s s'" using assms(3,9) by auto
qed

lemma alloc_call_inv:
  assumes "syms_ok syms" "ready syms s" "k_current s = P" "quiet key" "alloc_action st = Syscall c"
    and lo: "lo = ROUNDUP end_sym PAGESIZE" and hi: "hi = ROUNDDOWN (rsp - 1) PAGESIZE" and w: "heap_window lo hi"
    and i: "heap_inv lo hi (address_space s P) st" and call: "exception syms key keys cr2 pad1 pad2 (c g) s = Inr (Resumed s')"
  shows "ready syms s' \<and> live s' P \<and> heap_inv lo hi (address_space s' P) (alloc_resume end_sym rsp (sys_result s' P) st)"
proof -
  have l: "live s P" using assms(2,3) running_live by (auto simp: ready_def)
  have hw: "page_aligned lo" "page_aligned hi" "lo \<le> hi" using w lo hi by (simp_all add: heap_window_def ROUNDUP_def ROUNDDOWN_aligned)
  note resume = heap_resume[OF i hw lo hi]
  have idle: ?thesis if k: "ready syms s'" "abs_state s' = abs_state s" and r: "al_pc st \<noteq> At_page_alloc \<or> sys_result s' P < 0"
  proof -
    have "abs_state s' P = abs_state s P" using k(2) by simp
    from abs_state_space[OF l this] have "live s' P" "address_space s' P = address_space s P" by auto
    with resume[of "sys_result s' P" "address_space s' P"] k(1) r show ?thesis by auto
  qed
  from assms(5) consider "c = sys_getpid" "al_pc st \<noteq> At_page_alloc" | "c = sys_yield" "al_pc st \<noteq> At_page_alloc"
    | "c = sys_page_alloc (heap_top st)" "al_pc st = At_page_alloc"
    by (auto simp: alloc_action_def split: alloc_pc.splits)
  then show ?thesis
  proof cases
    case 1
    then show ?thesis using sys_getpid_returns[OF assms(1,2,4), of keys cr2 pad1 pad2 g] call idle by simp
  next
    case 2
    then have "reg_intno (c g) = 50" by (simp add: sys_yield_def int_registers_def)
    then show ?thesis using switch_keeps[OF assms(1,2,4) _ call] idle 2(2) by blast
  next
    case 3
    note k = page_alloc_inv[OF assms(1-4) w hw(2) i 3(2) call[unfolded 3(1)]]
    have "live s' P" using k(1,2) running_live[of s'] by (simp add: ready_def)
    then show ?thesis
      using k idle resume[of "sys_result s' P" "address_space s' P"] 3(2) by (cases "free_pages s = {}") (simp_all add: page_alloc_answer_def)
  qed
qed

lemma alloc_store_inv:
  assumes "syms_ok syms" "ready syms s" "k_current s = P" "alloc_action st = Store va b"
    and lo: "lo = ROUNDUP end_sym PAGESIZE" and hi: "hi = ROUNDDOWN (rsp - 1) PAGESIZE" and w: "heap_window lo hi"
    and i: "heap_inv lo hi (address_space s P) st" and st: "hw_translate (k_mem s) (k_cr3 s) va = Some (pa, PTE_W OR PTE_U)"
  defines "s' \<equiv> s\<lparr>k_mem := (k_mem s)(pa := b)\<rparr>"
  shows "ready syms s' \<and> live s' P \<and> heap_inv lo hi (address_space s' P) (alloc_resume end_sym rsp 0 st)"
proof -
  have inv: "kinv syms s" and l: "live s P" using assms(2,3) running_live by (auto simp: ready_def healthy_def)
  have hw: "page_aligned lo" "page_aligned hi" "lo \<le> hi" using w lo hi by (simp_all add: heap_window_def ROUNDUP_def ROUNDDOWN_aligned)
  have pc: "al_pc st = At_store" using assms(4) by (auto simp: alloc_action_def split: alloc_pc.splits)
  have lk: "live s (k_current s)" using l assms(3) by simp
  have fr: "framed syms s s'" unfolding s'_def by (rule user_write_framed[OF inv lk user_store_write[OF assms(2) st]])
  have "kstep syms s s'" unfolding s'_def by (rule user_store[OF st])
  with kstep_lemma[OF assms(1,2)] have "ready syms s'" by blast
  moreover have "live s' P" using framed_live[OF fr] l by simp
  moreover have "heap_inv lo hi (address_space s' P) (alloc_resume end_sym rsp 0 st)"
    by (rule heap_resume[OF i hw lo hi]) (use framed_unmapped[OF inv fr l] pc in simp_all)
  ultimately show ?thesis by simp
qed

lemma alloc_step_inv:
  assumes "syms_ok syms" "alloc_step syms P end_sym rsp (s, st) (s', st')"
    and lo: "lo = ROUNDUP end_sym PAGESIZE" and hi: "hi = ROUNDDOWN (rsp - 1) PAGESIZE" and w: "heap_window lo hi"
    and i: "ready syms s" "live s P" "heap_inv lo hi (address_space s P) st"
  shows "ready syms s' \<and> live s' P \<and> heap_inv lo hi (address_space s' P) st'"
  using assms(2)
proof cases
  case others
  then have k: "ready syms s'" "astep (k_current s) (abs_state s) (abs_state s')" using kstep_lemma[OF assms(1) i(1)] by blast+
  have "abs_state s' P = Some (address_space s P)" using astep_other[OF k(2)] others(2) i(2) by (simp add: abs_state_def)
  then have "abs_state s' P = abs_state s P" using i(2) by (simp add: abs_state_def)
  from abs_state_space[OF i(2) this] show ?thesis using k(1) i(3) others(1) by simp
next
  case (timer reg key keys cr2 pad1 pad2)
  then have k: "ready syms s'" "abs_state s' = abs_state s" using switch_keeps[OF assms(1) i(1) timer(4)] by blast+
  then have "abs_state s' P = abs_state s P" by simp
  from abs_state_space[OF i(2) this] show ?thesis using k(1) i(3) timer(1) by simp
next
  case (call c key keys cr2 pad1 pad2 g)
  from alloc_call_inv[OF assms(1) i(1) call(2,4,3) lo hi w i(3) call(5)] show ?thesis using call(1) by simp
next
  case (store va b pa)
  from alloc_store_inv[OF assms(1) i(1) store(3,4) lo hi w i(3) store(5)] show ?thesis using store(1,2) by simp
qed

text \<open>C10: the allocator program on the kernel. Process \<open>P\<close> runs \<open>p-allocator.c\<close> from its start, with nothing mapped between the page after its \<open>end\<close> symbol and its stack page, while the other
  processes store to their memory and make permitted exceptions, in any order. In every execution, whenever it is \<open>P\<close>'s turn, what the program does next works: its system call is served (no assertion fails, no panic, and the
  kernel's invariant holds again), and its store to the page it just allocated goes to memory that the processor lets it write. In particular it never asks for a page
  that is mapped already or runs into its stack.\<close>

theorem allocator_never_faults:
  assumes "syms_ok syms" "ready syms s" "live s P" "al_pc st = At_getpid"
    and "heap_window (ROUNDUP end_sym PAGESIZE) (ROUNDDOWN (rsp - 1) PAGESIZE)"
    and "unmapped (address_space s P) (ROUNDUP end_sym PAGESIZE) (ROUNDDOWN (rsp - 1) PAGESIZE)"
    and "(alloc_step syms P end_sym rsp)\<^sup>*\<^sup>* (s, st) (s', st')" "k_current s' = P" "quiet key"
  shows "case alloc_action st' of
      Syscall c \<Rightarrow> \<exists>out. exception syms key keys cr2 pad1 pad2 (c g) s' = Inr out \<and> outcome_sat (healthy syms) out
    | Store va b \<Rightarrow> \<exists>pa. hw_translate (k_mem s') (k_cr3 s') va = Some (pa, PTE_W OR PTE_U)"
proof -
  let ?lo = "ROUNDUP end_sym PAGESIZE" and ?hi = "ROUNDDOWN (rsp - 1) PAGESIZE"
  have "case x of (s', st') \<Rightarrow> ready syms s' \<and> live s' P \<and> heap_inv ?lo ?hi (address_space s' P) st'"
    if "(alloc_step syms P end_sym rsp)\<^sup>*\<^sup>* (s, st) x" for x
    using that
  proof (induction rule: rtranclp_induct)
    case base
    then show ?case using assms(2-4,6) by (simp add: heap_inv_def)
  next
    case (step y z)
    then show ?case using alloc_step_inv[OF assms(1) _ refl refl assms(5)] by (cases y; cases z) simp
  qed
  from this[OF assms(7)] have i: "ready syms s'" "heap_inv ?lo ?hi (address_space s' P) st'" by auto
  have h: "healthy syms s'" "running s'" "kinv syms s'" "live s' P" using i(1) running_live[of s'] assms(8) by (simp_all add: ready_def healthy_def)
  note served = exception_served[OF assms(1) h(1,2) _ assms(9), of _ keys cr2 pad1 pad2]
  show ?thesis
  proof (cases "al_pc st'")
    case At_page_alloc
    note j = i(2)[unfolded heap_inv_def, simplified At_page_alloc, simplified]
    have a: "PROC_START_ADDR \<le> heap_top st'" "heap_top st' < MEMSIZE_VIRTUAL" "page_aligned (heap_top st')" "address_space s' P (heap_top st') = None"
      using j assms(5) by (auto simp: heap_window_def unmapped_def)
    have "permitted s' (sys_page_alloc (heap_top st') g)"
      using a unmapped_slot[OF h(3,4) a(1,2,4)] assms(8) by (simp add: permitted_def sys_page_alloc_def int_registers_def)
    then show ?thesis using served At_page_alloc by (auto simp: alloc_action_def)
  next
    case At_store
    then obtain b where "address_space s' (k_current s') (heap_top st') = Some (b, 7)" using i(2) assms(8) by (auto simp: heap_inv_def)
    from writable_translates[OF i(1) this] show ?thesis using At_store by (simp add: alloc_action_def)
  qed (use served[of "sys_getpid g"] served[of "sys_yield g"] in
        \<open>auto simp: alloc_action_def permitted_def sys_getpid_def sys_yield_def int_registers_def\<close>)
qed

theorem allocator_never_faults_witness:
  "\<exists>s st out. alloc_step example_syms 1 0x100456 0x300000 (example_alone, \<lparr>al_pc = At_getpid, al_p = 0, heap_top = 0, stack_bottom = 0,
       al_rand = \<lparr>rand_seed_set = False, rand_seed = 0\<rparr>\<rparr>) (s, st) \<and>
     alloc_action st = Syscall sys_yield \<and> exception example_syms (-1) [] 0 0 0 (sys_yield zero_registers) s = Inr out \<and> outcome_sat (healthy example_syms) out"
proof -
  note f = example_alone_facts
  let ?st = "\<lparr>al_pc = At_getpid, al_p = 0, heap_top = 0, stack_bottom = 0, al_rand = \<lparr>rand_seed_set = False, rand_seed = 0\<rparr>\<rparr>"
  have lh: "ROUNDUP 0x100456 PAGESIZE = 0x101000" "ROUNDDOWN (0x300000 - 1) PAGESIZE = 0x2FF000" by (simp_all add: ROUNDUP_def ROUNDDOWN_def)
  have l: "live example_alone 1" using f(1,2) running_live[of example_alone] by (simp add: ready_def)
  have u: "unmapped (address_space example_alone 1) 0x101000 0x2FF000"
    unfolding unmapped_def
  proof (intro allI impI)
    fix va :: "64 word" assume va: "0x101000 \<le> va" "va < 0x2FF000"
    have n: "257 \<le> vpn va" "vpn va < 1024"
      using va by (auto simp: vpn_low word_le_nat_alt word_less_nat_alt less_eq_div_iff_mult_less_eq div_less_iff_less_mult)
    have k: "kinv example_syms example_alone" using f(1) by (simp add: ready_def healthy_def)
    have "slot_of example_alone 1 (vpn va) = slot_of (example_user True) 1 (vpn va)" by (simp add: example_alone_def)
    also have "\<dots> = 0" using n example_one_facts(5)[of "vpn va"] by (simp add: example_user_facts(5))
    finally have "view_at example_alone 1 va = None" using view_at_slot[OF k l, of va] n by simp
    then show "address_space example_alone 1 va = None" by (simp add: address_space_def)
  qed
  obtain t where t: "exception example_syms (-1) [] 0 0 0 (sys_getpid zero_registers) example_alone = Inr (Resumed t)" "k_current t = 1" "sys_result t 1 = 1"
    using sys_getpid_returns[OF example_syms_ok f(1,3), of "[]" 0 0 0 zero_registers] f(2) by auto
  have s: "alloc_step example_syms 1 0x100456 0x300000 (example_alone, ?st) (t, alloc_resume 0x100456 0x300000 1 ?st)"
    using call[where c = sys_getpid and g = zero_registers and st = ?st, OF f(2) _ f(3) t(1), of "0x100456" "0x300000"] t(3)
    by (simp add: alloc_action_def)
  have y: "alloc_action (alloc_resume 0x100456 0x300000 1 ?st) = Syscall sys_yield"
    by (simp add: alloc_action_def alloc_resume_def alloc_loop_def rand_def srand_def)
  have "heap_window 0x101000 0x2FF000" by (simp add: heap_window_def)
  from allocator_never_faults[OF example_syms_ok f(1) l _ _ _ r_into_rtranclp[of "alloc_step example_syms 1 0x100456 0x300000", OF s] t(2) f(3),
      unfolded lh y, of "[]" 0 0 0 zero_registers] this u
  have "\<exists>out. exception example_syms (-1) [] 0 0 0 (sys_yield zero_registers) t = Inr out \<and> outcome_sat (healthy example_syms) out" by simp
  with s y show ?thesis by blast
qed

end
