(* ===== verification/System.thy ===== *)
theory System
  imports Kernel_Start Mkbootdisk User Programs
begin

text \<open>
  The parts together: the hardware that \<open>kernel\<close> initializes, and the way of a program from the kernel file
  that \<open>build/mkbootdisk.c\<close> writes to a disk, through the boot loader and the start of the kernel, into the address spaces of the first processes.
\<close>

unbundle bit_operations_syntax

section \<open>The hardware\<close>

text \<open>
  \<open>hardware_init\<close> in the order of the code. The descriptor tables are kept apart from the memory, so the result is the tables,
  the mask of enabled interrupts, and CR3 and memory as \<open>virtual_memory_init\<close> leaves them.
\<close>

definition hardware_init ::
  "handlers \<Rightarrow> 32 word \<Rightarrow> link_symbols \<Rightarrow> memory \<times> io_log \<Rightarrow> kfault + segment_state \<times> (16 word \<times> io_log) \<times> 64 word \<times> memory" where
  "hardware_init h cr0 syms = (\<lambda>(m, io).
     let seg = segments_init h cr0; irq = interrupt_init io in
     bindR (virtual_memory_init syms m) (\<lambda>(cr3, m'). Inr (seg, irq, cr3, m')))"

text \<open>Whenever the memory part of the start of \<open>kernel\<close> succeeds, \<open>hardware_init\<close> does, with every interrupt masked until \<open>timer_init\<close> unmasks line 0.\<close>

lemma hardware_init_boot:
  assumes "boot_kernel syms s = Inr t"
  shows "\<exists>io' r. hardware_init h cr0 syms (k_mem s, io) = Inr (segments_init h cr0, (0, io'), r) \<and> last io' = Outb 0xA1 0xFF \<and>
    fst (timer_init 100 (0, io')) = 1"
  using assms by (auto simp: hardware_init_def boot_kernel_def Let_def bindR_eq_Inr interrupt_init_def interrupt_mask_def outb_def mask_numeral timer_init_def)

text \<open>
  \<open>kernel\<close> with the calls to the devices. They write the descriptor tables and the ports only, so next to those
  the result is the one of the definition \<open>kernel\<close> on memory.
\<close>

definition kernel_main ::
  "handlers \<Rightarrow> 32 word \<Rightarrow> link_symbols \<Rightarrow> (int \<Rightarrow> 64 word) \<Rightarrow> string option \<Rightarrow> kernel_state \<times> io_log \<Rightarrow> kfault + outcome \<times> segment_state \<times> 16 word \<times> io_log" where
  "kernel_main h cr0 syms images command = (\<lambda>(s, io).
     bindR (hardware_init h cr0 syms (k_mem s, io)) (\<lambda>(seg, irq, cr3, m).
     let irq' = timer_init 100 irq in
     bindR (kernel_setup syms (s\<lparr>k_mem := m, k_cr3 := cr3\<rparr>)) (\<lambda>s1.
     bindR (foldR (\<lambda>(pid, prog). process_setup syms images pid prog) (setup_list command) s1) (\<lambda>s2.
     bindR (run syms 1 s2) (\<lambda>out. Inr (out, seg, irq'))))))"

lemma kernel_main_eq:
  "kernel_main h cr0 syms images command (s, io) =
     bindR (kernel syms images command s) (\<lambda>out. Inr (out, segments_init h cr0, timer_init 100 (interrupt_init io)))"
  by (auto simp: kernel_main_def hardware_init_def kernel_def boot_kernel_def Let_def bindR_def split: sum.splits)

section \<open>The kernel in memory\<close>

text \<open>
  The memory that a kernel file describes: the bytes of its segments at their addresses, with zeros up to
  their sizes in memory. \<open>kernel_range\<close> are the ranges of it that lie in the kernel's image but outside the page tables.
\<close>

definition in_segment :: "64 word \<Rightarrow> elf_program \<Rightarrow> bool" where
  "in_segment x h \<longleftrightarrow> unat (p_va h) \<le> unat x \<and> unat x < unat (p_va h) + unat (p_memsz h)"

definition kernel_memory :: "bytes \<Rightarrow> memory" where
  "kernel_memory kern x =
     (case find (in_segment x) (boot_headers (loaded_file kern)) of
        Some h \<Rightarrow>
          let i = unat x - unat (p_va h) in if i < unat (p_filesz h) then file_byte kern (unat (p_offset h) + i) else 0
      | None \<Rightarrow> 0)"

definition kernel_range :: "link_symbols \<Rightarrow> bytes \<Rightarrow> 64 word \<Rightarrow> nat \<Rightarrow> bool" where
  "kernel_range syms kern a n \<longleftrightarrow>
     kernel_data syms a n \<and> (\<forall>i < n. \<exists>h \<in> set (boot_headers (loaded_file kern)). in_segment (a + of_nat i) h)"

lemma find_SomeI: "x \<in> set xs \<Longrightarrow> P x \<Longrightarrow> \<exists>y. find P xs = Some y \<and> y \<in> set xs \<and> P y"
  by (induction xs) auto

lemma loaded_byte:
  assumes "boot_loaded (file_byte kern) m h" "in_segment x h"
  shows "m x = (let i = unat x - unat (p_va h) in if i < unat (p_filesz h) then file_byte kern (unat (p_offset h) + i) else 0)"
proof -
  define i where "i = unat x - unat (p_va h)"
  have i: "i < unat (p_memsz h)" "unat x = unat (p_va h) + i" using assms(2) by (auto simp: in_segment_def i_def)
  have "p_va h + of_nat i = x" using i(2) by (metis of_nat_add of_nat_unat ucast_id)
  then show ?thesis using assms(1) i(1) unfolding boot_loaded_def i_def[symmetric] Let_def by (metis leI)
qed

lemma kernel_memory_loaded:
  assumes "\<forall>h \<in> set (boot_headers (loaded_file kern)). boot_loaded (file_byte kern) m h"
    and "h \<in> set (boot_headers (loaded_file kern))" "in_segment x h"
  shows "m x = kernel_memory kern x"
proof -
  obtain g where "find (in_segment x) (boot_headers (loaded_file kern)) = Some g" "g \<in> set (boot_headers (loaded_file kern))" "in_segment x g"
    using find_SomeI[where P = "in_segment x", OF assms(2,3)] by blast
  then show ?thesis using loaded_byte[of kern m g x] assms(1) by (simp add: kernel_memory_def)
qed

text \<open>What the loader put in place is still there when \<open>kernel\<close> is entered: its stack is above the image.\<close>

lemma kernel_memory_kept:
  assumes "syms_ok syms" "\<forall>h \<in> set (boot_headers (loaded_file kern)). boot_loaded (file_byte kern) m' h"
    and "\<And>x. unat x < 0x7F000 \<Longrightarrow> k_mem s x = m' x"
  shows "keeps_ranges (kernel_range syms kern) (kernel_memory kern) (kernel_data syms) (k_mem s)"
  unfolding keeps_ranges_def
proof (intro allI impI conjI)
  fix a n i assume r: "kernel_range syms kern a n" and i: "i < n"
  have e: "unat (sym_end syms) \<le> 0x7F000" using assms(1) by (simp add: syms_ok_def)
  then have "unat (a + of_nat i) = unat a + i" using r i by (intro unat_range[of a n]) (simp_all add: kernel_range_def kernel_data_def)
  then have "unat (a + of_nat i) < 0x7F000" using r i e by (simp add: kernel_range_def kernel_data_def)
  moreover obtain h where "h \<in> set (boot_headers (loaded_file kern))" "in_segment (a + of_nat i) h" using r i by (auto simp: kernel_range_def)
  ultimately show "k_mem s (a + of_nat i) = kernel_memory kern (a + of_nat i)" using kernel_memory_loaded[OF assms(2)] assms(3) by simp
qed (simp add: kernel_range_def)

section \<open>From the disk to the first process\<close>

lemma kernel_runs_file:
  assumes "syms_ok syms" "\<forall>h \<in> set (boot_headers (loaded_file kern)). boot_loaded (file_byte kern) m' h"
    and "\<And>pid prog. (pid, prog) \<in> set (setup_list command) \<Longrightarrow> program_in (kernel_range syms kern) (kernel_memory kern) (images prog)"
    and "sum_list (map (setup_cost (kernel_memory kern) images) (setup_list command)) \<le> 256"
    and "\<And>x. unat x < 0x7F000 \<Longrightarrow> k_mem s x = m' x"
  shows "\<exists>t. kernel syms images command s = Inr (Resumed t) \<and> ready syms t \<and> k_current t = 1 \<and>
    (\<forall>(pid, prog) \<in> set (setup_list command). started (kernel_memory kern) (images prog) t pid)"
proof -
  have kr: "keeps_ranges (kernel_range syms kern) (kernel_memory kern) (kernel_data syms) (k_mem s)"
    by (rule kernel_memory_kept[OF assms(1,2)]) (rule assms(5))
  note pk = program_kept[OF kr assms(3)]
  have "map (setup_cost (k_mem s) images) (setup_list command) = map (setup_cost (kernel_memory kern) images) (setup_list command)"
    using pk(3) by (auto simp: setup_cost_def)
  then have c: "sum_list (map (setup_cost (k_mem s) images) (setup_list command)) \<le> 256" using assms(4) by presburger
  have "\<exists>t. kernel syms images command s = Inr (Resumed t) \<and> ready syms t \<and> k_current t = 1 \<and>
      (\<forall>q. live t q \<longleftrightarrow> q \<in> fst ` set (setup_list command)) \<and>
      (\<forall>(pid, prog) \<in> set (setup_list command). started (k_mem s) (images prog) t pid)"
    by (rule kernel_ready[OF assms(1) _ c]) (rule pk(1))
  then obtain t where t: "kernel syms images command s = Inr (Resumed t)" "ready syms t" "k_current t = 1"
    "\<forall>(pid, prog) \<in> set (setup_list command). started (k_mem s) (images prog) t pid"
    by blast
  moreover have "started (kernel_memory kern) (images prog) t pid" if "(pid, prog) \<in> set (setup_list command)" for pid prog
    using t(4) that started_cong[OF kr assms(3)[OF that]] by blast
  ultimately show ?thesis by (intro exI[of _ t]) auto
qed

lemma kernel_main_runs:
  assumes "kernel syms images command s = Inr out"
  shows "kernel_main h cr0 syms images command (s, io) = Inr (out, segments_init h cr0, timer_init 100 (interrupt_init io))"
  by (simp add: kernel_main_eq assms)

text \<open>C5: from the build to the first process. \<open>mkbootdisk\<close> writes a boot sector and a kernel file to a disk, \<open>boot\<close> reads the disk and jumps to the entry point of the file, and \<open>kernel\<close>, entered with
  what \<open>boot\<close> left below the kernel stack, starts the system: process 1 runs, and the four programs of the command line that the boot loader passes (none) are in
  the address spaces of processes 1 to 4, byte for byte as the kernel file has them and at the addresses that their ELF headers give; the segment and interrupt tables are those of \<open>segments_init\<close>, and the interrupt controller and the timer were set up after the disk was read. The kernel file must be an ELF file that can be booted, with
  those programs inside its segments as ELF files whose segments start at page boundaries, fit the user area without overlapping, and need at most 256 pages.\<close>

theorem system_boots:
  assumes "fs bootfile = Some bootsector" "length bootsector \<le> 510" "bootfile \<noteq> ''-p''" "bootfile \<noteq> ''-m''"
    and "fs kernelfile = Some kern" "skip_sector kernelfile = None"
    and "progress (length (image_layout bootsector kern)) ws"
    and "bootable (loaded_file kern)" "responsive dev"
    and "\<And>d. main fs ws [bootfile, kernelfile] = Some (Inr d) \<Longrightarrow> ata_reads (image_sector (d_disk d)) ata"
    and "syms_ok syms"
    and "\<And>prog. 0 \<le> prog \<Longrightarrow> prog < 4 \<Longrightarrow> program_in (kernel_range syms kern) (kernel_memory kern) (images prog)"
    and "sum_list (map (setup_cost (kernel_memory kern) images) (setup_list None)) \<le> 256"
  shows "\<exists>d m' io'. main fs ws [bootfile, kernelfile] = Some (Inr d) \<and>
    boot dev ata (m, io) = Some (e_entry (read_elf_header (loaded_file kern) 0x10000), m', io') \<and>
    (\<forall>s. (\<forall>x. unat x < 0x7F000 \<longrightarrow> k_mem s x = m' x) \<longrightarrow>
      (\<exists>t. kernel_main h cr0 syms images None (s, io') = Inr (Resumed t, segments_init h cr0, timer_init 100 (interrupt_init io')) \<and> ready syms t \<and> k_current t = 1 \<and>
         (\<forall>pid. 1 \<le> pid \<longrightarrow> pid \<le> 4 \<longrightarrow> started (kernel_memory kern) (images (pid - 1)) t pid)))"
proof -
  have sl: "setup_list None = [(1, 0), (2, 1), (3, 2), (4, 3)]" by (simp add: setup_list_def)
  obtain d m' io' where d: "main fs ws [bootfile, kernelfile] = Some (Inr d)"
    "boot dev ata (m, io) = Some (e_entry (read_elf_header (loaded_file kern) 0x10000), m', io')"
    "\<forall>h \<in> set (boot_headers (loaded_file kern)). boot_loaded (file_byte kern) m' h"
    using image_loads[of fs bootfile bootsector kernelfile kern ws dev ata m io] assms(1-10) by blast
  have p: "program_in (kernel_range syms kern) (kernel_memory kern) (images prog)" if "(pid, prog) \<in> set (setup_list None)" for pid prog
    using that assms(12)[of prog] by (auto simp: sl)
  have "\<exists>t. kernel_main h cr0 syms images None (s, io') = Inr (Resumed t, segments_init h cr0, timer_init 100 (interrupt_init io')) \<and> ready syms t \<and> k_current t = 1 \<and>
      (\<forall>pid. 1 \<le> pid \<longrightarrow> pid \<le> 4 \<longrightarrow> started (kernel_memory kern) (images (pid - 1)) t pid)"
    if s: "\<And>x. unat x < 0x7F000 \<Longrightarrow> k_mem s x = m' x" for s
  proof -
    have "\<exists>t. kernel syms images None s = Inr (Resumed t) \<and> ready syms t \<and> k_current t = 1 \<and>
        (\<forall>(pid, prog) \<in> set (setup_list None). started (kernel_memory kern) (images prog) t pid)"
      by (rule kernel_runs_file[OF assms(11) d(3) _ assms(13)]) (rule p, assumption, rule s)
    then obtain t where t: "kernel syms images None s = Inr (Resumed t)" "ready syms t" "k_current t = 1"
      "\<forall>(pid, prog) \<in> set (setup_list None). started (kernel_memory kern) (images prog) t pid"
      by blast
    have "started (kernel_memory kern) (images (pid - 1)) t pid" if "1 \<le> pid" "pid \<le> 4" for pid
    proof -
      have "(pid, pid - 1) \<in> set (setup_list None)" using that unfolding sl by simp presburger
      with t(4) show ?thesis by blast
    qed
    with kernel_main_runs[OF t(1)] t(2,3) show ?thesis by blast
  qed
  with d(1,2) show ?thesis by blast
qed

text \<open>A kernel file of one segment at 0x46000, which holds nothing but a program.\<close>

definition program_head :: bytes where
  "program_head =
     [0x7F, 0x45, 0x4C, 0x46, 2, 1, 1, 0, 0, 0, 0, 0, 0, 0, 0, 0, 2, 0, 0x3E, 0, 1, 0, 0, 0,
      0, 0, 4, 0, 0, 0, 0, 0, 64, 0, 0, 0, 0, 0, 0, 0, 0, 0, 0, 0, 0, 0, 0, 0,
      0, 0, 0, 0, 64, 0, 56, 0, 1, 0, 0, 0, 0, 0, 0, 0,
      1, 0, 0, 0, 7, 0, 0, 0, 0, 2, 0, 0, 0, 0, 0, 0, 0, 0x60, 4, 0, 0, 0, 0, 0,
      0, 0x60, 4, 0, 0, 0, 0, 0, 124, 0, 0, 0, 0, 0, 0, 0, 124, 0, 0, 0, 0, 0, 0, 0, 0, 0x10, 0, 0, 0, 0, 0, 0]"

definition program_kernel :: bytes where
  "program_kernel = sector_file program_head example_elf"

definition program_kernel_segment :: elf_program where
  "program_kernel_segment =
     \<lparr>p_type = 1, p_flags = 7, p_offset = 512, p_va = 0x46000, p_pa = 0x46000, p_filesz = 124, p_memsz = 124, p_align = 0x1000\<rparr>"

lemma program_head_length: "length program_head = 120" "length example_elf = 124"
  by (simp_all add: program_head_def example_elf_def)

lemma program_head_header:
  "e_magic (read_elf_header (head_memory program_head) 0x10000) = 0x464C457F"
  "e_entry (read_elf_header (head_memory program_head) 0x10000) = 0x40000"
  "e_phoff (read_elf_header (head_memory program_head) 0x10000) = 64"
  "e_phnum (read_elf_header (head_memory program_head) 0x10000) = 1"
  "read_elf_program (head_memory program_head) 0x10040 = program_kernel_segment"
  by code_simp+

lemmas program_kernel_simps = sector_file_header[OF program_head_length(1), of example_elf, folded program_kernel_def] program_head_header

lemma program_kernel_headers: "boot_headers (loaded_file program_kernel) = [program_kernel_segment]"
  by (simp add: boot_headers_def Let_def program_kernel_simps)

lemma program_kernel_bootable: "bootable (loaded_file program_kernel)"
proof -
  have "boot_seg_ok program_kernel_segment"
    by (auto simp: boot_seg_ok_def program_kernel_segment_def boot_extent_def seg_lo_def seg_hi_def sectors_def)
  then show ?thesis by (simp add: bootable_def Let_def program_kernel_headers) (simp add: program_kernel_simps)
qed

lemma sector_file_data: "length head = 120 \<Longrightarrow> i < length data \<Longrightarrow> file_byte (sector_file head data) (512 + i) = data ! i"
  by (simp add: file_byte_def sector_file_def nth_append)

lemma program_kernel_byte:
  assumes "0x46000 \<le> unat x" "unat x < 0x4607C"
  shows "in_segment x program_kernel_segment" "kernel_memory program_kernel x = example_image x"
proof -
  show i: "in_segment x program_kernel_segment" using assms by (simp add: in_segment_def program_kernel_segment_def)
  have le: "0x46000 \<le> x" "x < 0x4607C" using assms by (simp_all add: word_le_nat_alt word_less_nat_alt)
  from le(1) have "unat (x - 0x46000) = unat x - unat (0x46000 :: 64 word)" by (simp only: unat_sub)
  with le have e: "example_image x = example_elf ! (unat x - 0x46000)" by (simp add: example_image_def)
  have "kernel_memory program_kernel x = file_byte program_kernel (512 + (unat x - 0x46000))"
    using i assms by (simp add: kernel_memory_def program_kernel_headers Let_def) (simp add: program_kernel_segment_def, linarith)
  also have "\<dots> = example_elf ! (unat x - 0x46000)"
    unfolding program_kernel_def using assms by (intro sector_file_data) (simp_all add: program_head_length)
  finally show "kernel_memory program_kernel x = example_image x" using e by simp
qed

lemma program_kernel_in: "program_in (kernel_range example_syms program_kernel) (kernel_memory program_kernel) 0x46000"
proof -
  define J where "J = (\<lambda>(a :: 64 word) n. 0x46000 \<le> unat a \<and> unat a + n \<le> 0x4607C)"
  have k: "keeps_ranges J example_image (kernel_range example_syms program_kernel) (kernel_memory program_kernel)"
    unfolding keeps_ranges_def
  proof (intro allI impI)
    fix a n assume j: "J a n"
    have "0x46000 \<le> unat (a + of_nat i) \<and> unat (a + of_nat i) < 0x4607C" if "i < n" for i
      using j that unat_range[of a n i] by (simp add: J_def)
    then show "kernel_range example_syms program_kernel a n \<and> (\<forall>i < n. kernel_memory program_kernel (a + of_nat i) = example_image (a + of_nat i))"
      using example_data[of a n] j program_kernel_byte by (simp add: J_def kernel_range_def program_kernel_headers)
  qed
  have "program_in J example_image 0x46000"
    unfolding program_in_def Let_def example_segments using example_segment_facts
    by (simp add: J_def example_header loadable_def all_pages_def) (simp add: example_segment_def)
  from program_kept(1)[OF k this] show ?thesis .
qed

definition program_files :: files where
  "program_files name = (if name = ''bootsector'' then Some [0xFA, 0xFC] else if name = ''kernel'' then Some program_kernel else None)"

definition program_ata :: ata where
  "program_ata io = image_sector (image_layout [0xFA, 0xFC] program_kernel) (ata_request io)"

lemma program_kernel_segments: "program_segments (kernel_memory program_kernel) 0x46000 = [example_segment]"
  "e_entry (read_elf_header (kernel_memory program_kernel) 0x46000) = 0x100000"
proof -
  have h: "read_elf_header (kernel_memory program_kernel) 0x46000 = read_elf_header example_image 0x46000"
    by (rule read_elf_header_cong, rule program_kernel_byte(2)) (simp_all add: unat_word_ariths unat_of_nat)
  have "read_elf_program (kernel_memory program_kernel) 0x46040 = read_elf_program example_image 0x46040"
    by (rule read_elf_program_cong, rule program_kernel_byte(2)) (simp_all add: unat_word_ariths unat_of_nat)
  with h show "program_segments (kernel_memory program_kernel) 0x46000 = [example_segment]"
    by (simp add: program_segments_def example_header segments_at_def Let_def example_program) (simp add: example_segment_def)
  from h show "e_entry (read_elf_header (kernel_memory program_kernel) 0x46000) = 0x100000" by (simp add: example_header)
qed

theorem system_boots_witness:
  "\<exists>d m' io'. main program_files (replicate (length (image_layout [0xFA, 0xFC] program_kernel)) (Wrote 1)) [''bootsector'', ''kernel''] = Some (Inr d) \<and>
     boot (\<lambda>_ _. 0x40) program_ata (\<lambda>_. 0xFF, []) = Some (0x40000, m', io') \<and>
     (\<exists>t. kernel_main example_handlers 0 example_syms (\<lambda>_. 0x46000) None (example_state\<lparr>k_mem := m'\<rparr>, io') = Inr (Resumed t, segments_init example_handlers 0, timer_init 100 (interrupt_init io')) \<and> ready example_syms t \<and>
        p_registers (k_processes t 3) = start_registers 0x100000)"
proof -
  let ?ws = "replicate (length (image_layout [0xFA, 0xFC] program_kernel)) (Wrote 1)" and ?b = "[0xFA, 0xFC] :: bytes"
  have f: "program_files ''bootsector'' = Some ?b" "program_files ''kernel'' = Some program_kernel" by (simp_all add: program_files_def)
  have s: "skip_sector ''kernel'' = None" "length ?b \<le> 510" "''bootsector'' \<noteq> ''-p''" "''bootsector'' \<noteq> ''-m''" by simp_all
  have r: "responsive (\<lambda>_ _. 0x40)" by (simp add: responsive_def)
  have a: "ata_reads (image_sector (d_disk d)) program_ata" if "main program_files ?ws [''bootsector'', ''kernel''] = Some (Inr d)" for d
    using main_image[where fs = program_files, OF f(1) s(2-4) f(2) s(1) progress_replicate] that
    by (auto simp: ata_reads_def program_ata_def image_sector_def)
  have c: "sum_list (map (setup_cost (kernel_memory program_kernel) (\<lambda>_. 0x46000)) (setup_list None)) \<le> 256"
    by (simp add: setup_list_def setup_cost_def program_kernel_segments all_pages_def example_segment_facts)
  obtain d m' io' where d: "main program_files ?ws [''bootsector'', ''kernel''] = Some (Inr d)"
    "boot (\<lambda>_ _. 0x40) program_ata (\<lambda>_. 0xFF, []) = Some (0x40000, m', io')"
    "\<And>s. (\<forall>x. unat x < 0x7F000 \<longrightarrow> k_mem s x = m' x) \<Longrightarrow>
      \<exists>t. kernel_main example_handlers 0 example_syms (\<lambda>_. 0x46000) None (s, io') = Inr (Resumed t, segments_init example_handlers 0, timer_init 100 (interrupt_init io')) \<and> ready example_syms t \<and> k_current t = 1 \<and>
         (\<forall>pid. 1 \<le> pid \<longrightarrow> pid \<le> 4 \<longrightarrow> started (kernel_memory program_kernel) 0x46000 t pid)"
    using system_boots[where fs = program_files and images = "\<lambda>_. 0x46000", OF f(1) s(2-4) f(2) s(1) progress_replicate program_kernel_bootable r a example_syms_ok
        program_kernel_in c, of "\<lambda>_. 0xFF" "[]" example_handlers 0]
    by (auto simp: program_kernel_simps)
  obtain t where t: "kernel_main example_handlers 0 example_syms (\<lambda>_. 0x46000) None (example_state\<lparr>k_mem := m'\<rparr>, io') = Inr (Resumed t, segments_init example_handlers 0, timer_init 100 (interrupt_init io'))" "ready example_syms t"
    "\<forall>pid. 1 \<le> pid \<longrightarrow> pid \<le> 4 \<longrightarrow> started (kernel_memory program_kernel) 0x46000 t pid"
    using d(3)[of "example_state\<lparr>k_mem := m'\<rparr>"] by auto
  have "p_registers (k_processes t 3) = start_registers 0x100000"
    using t(3)[rule_format, of 3] by (simp add: started_def program_kernel_segments)
  with d(1,2) t(1,2) show ?thesis by blast
qed

end
