(* ===== verification/Spec2Isabelle.thy ===== *)
theory Spec2Isabelle
  imports System
begin

text \<open>
  WeensyOS, a small operating system with virtual memory: the kernel, its boot loader, the tool that makes its boot disk, the
  library of its user programs, and one of the programs. This theory only collects the others.

  \<^bold>\<open>The program and its theories.\<close>

  \<^item> Machine interface (\<open>x86-64.h\<close>, constants of \<open>kernel.h\<close> and \<open>lib.h\<close>): \<open>Kernel_Prelude\<close> has the error monad \<open>bindR\<close> over \<open>kfault\<close>
    (a failed assertion with file and line, a panic, a page fault in the kernel), byte-addressed memory with little-endian loads and
    stores, and the word lemmas that the others share; \<open>X86_64\<close> has page numbers, page-table indices, entries of a page table in memory
    and the saved registers.
  \<^item> C library (\<open>lib.c\<close>): \<open>Lib_Mem\<close> models \<open>memcpy\<close>, \<open>memmove\<close>, \<open>memset\<close>, the string functions and \<open>rand\<close>; \<open>Printer\<close> models
    \<open>printer_vprintf\<close> with its parser of formats, \<open>fill_numbuf\<close>, and the console and string printers.
  \<^item> Virtual memory (\<open>vm.c\<close>): \<open>VM\<close> models \<open>virtual_memory_lookup\<close>, \<open>virtual_memory_map\<close>, \<open>lookup_l4pagetable\<close>, \<open>set_pagetable\<close> and
    \<open>virtual_memory_init\<close> on page tables in memory, and the page walk of the processor (\<open>hw_translate\<close>).
  \<^item> Kernel data (\<open>kernel.h\<close>, file-level variables of \<open>kernel.c\<close>): \<open>Kernel_State\<close>. Physical pages (\<open>kernel.c\<close>): \<open>Pageinfo\<close> models \<open>pageinfo_init\<close>,
    both allocators and \<open>duplicate_pagetable\<close>. Loader (\<open>k-loader.c\<close>, \<open>elf.h\<close>): \<open>Loader\<close>. Checks and viewer (\<open>kernel.c\<close>): \<open>Checks\<close>, \<open>Memshow\<close>.
  \<^item> Kernel (\<open>kernel.c\<close>): \<open>Kernel\<close> models \<open>exception\<close> with every case of its \<open>switch\<close>, \<open>schedule\<close>, \<open>run\<close>, \<open>process_setup\<close> and \<open>kernel\<close>.
  \<^item> Hardware support (\<open>k-hardware.c\<close>): \<open>Hardware\<close> models descriptors, \<open>process_init\<close>, the keyboard and the PCI search; \<open>Devices\<close> models
    \<open>segments_init\<close>, the interrupt controller, the timer, the cursor, the log on the parallel port, and \<open>panic\<close>, \<open>assert_fail\<close> and \<open>fail\<close>.
  \<^item> Boot loader (\<open>boot.c\<close>): \<open>Boot\<close>. Boot disk tool (\<open>build/mkbootdisk.c\<close>): \<open>Mkbootdisk\<close>. User library (\<open>process.c\<close>): \<open>User\<close>. System call wrappers
    (\<open>process.h\<close>): \<open>Syscalls\<close>. The allocator program (\<open>p-allocator.c\<close>): \<open>Programs\<close>.

  State is explicit. The kernel's is the record \<open>kernel_state\<close>: memory, page descriptors, process descriptors, the current process, CR3 and the variables of the
  viewer. A routine returns \<open>Inl\<close> with the fault or \<open>Inr\<close> with its result and the new state; how a call of \<open>exception\<close> ends is the datatype \<open>outcome\<close>.
  Words have their width: addresses are \<open>64 word\<close>, the counters of \<open>pageinfo\<close> are \<open>8 word\<close> and wrap.

  \<^bold>\<open>What is shown.\<close>

  \<^item> Page tables: \<open>VM\<close> proves the locale \<open>address_spaces\<close> (what a lookup returns after a map) for the tables in memory, and which permissions the software walk reports
    on any table. \<open>Pageinfo\<close> interprets \<open>page_allocator\<close>; \<open>Printer\<close> interprets \<open>printer\<close> for the console.
  \<^item> The invariant \<open>kinv\<close> (\<open>Kernel_Invariant\<close>) says that tables are well-formed, disjoint and owned by their process, that writable user pages belong to one
    process, and that the kernel's own checks pass; \<open>accounted\<close> (\<open>Kernel_Handlers\<close>) adds that reference counts are the numbers of mappings.
    \<open>Kernel_Safety\<close>, \<open>Kernel_Handlers\<close>, \<open>Kernel_Exit\<close>, \<open>Kernel_Process\<close> and \<open>Kernel_Fork\<close> show that every handler keeps both; the locale \<open>kernel_property\<close> carries a
    property of states through the common path of \<open>exception\<close> once for both.
  \<^item> \<open>Kernel_Calls\<close> states what fork, exit and page allocation do to the whole system, the ways in which the kernel loses track of a page, and how \<open>sys_mapping\<close> writes into another process. \<open>Kernel_Examples\<close> holds concrete states.
  \<^item> \<open>Kernel_Abstract\<close> is the specification, a system of separate address spaces; \<open>Kernel_Machine\<close> is the machine of user stores and exceptions, with the invariant,
    absence of panics, refinement, isolation, and the fairness of the scheduler. The exceptions of that machine are the \<open>permitted\<close> ones: the kernel does not
    defend itself against the others, and \<open>Kernel_Calls\<close> shows for them what goes wrong.
  \<^item> \<open>Kernel_Load\<close> and \<open>Kernel_Start\<close> follow the loader into the address space of a process: after \<open>kernel\<close> programs with page-aligned segments are there byte for byte, and their read-only parts stay so under permitted exceptions; a segment that is not
    aligned is displaced.
  \<^item> \<open>Boot\<close> and \<open>Mkbootdisk\<close>: what the tool writes to a disk, the loader loads; with a partition, nothing outside it is written, also by a run that ends with an error. \<open>System\<close> joins the whole way from the kernel file to the running processes.
  \<^item> \<open>Syscalls\<close> proves the documented contract of the wrappers through the whole path of \<open>exception\<close>, and \<open>Programs\<close> that the allocator program never faults and never
    stops the kernel, beside processes that make permitted exceptions.
  \<^item> \<open>Devices\<close>: the ways into the kernel that the interrupt table leaves to user code, the log, and the keyboard.

  \<^bold>\<open>Bounds and loops.\<close> Loops with a fixed number of turns recurse over that number (4 page-table levels, 512 physical pages, 768 user pages, 15 process slots, 12800 polls of
  the parallel port). Loops that poll input recurse over the list of the inputs they see, so no number of turns is assumed. Loops that may not end are \<open>partial_function (option)\<close>:
  the conversion of numbers, the string functions, the waits and the read loop of the boot loader, and the search of \<open>mkbootdisk\<close> for a partition; the theorems show
  that they return, or, for the last, that on one disk it does not.

  \<^bold>\<open>Parameters.\<close> The addresses that the linker chooses (\<open>link_symbols\<close>, \<open>handlers\<close>, the program images) with \<open>syms_ok\<close>; what devices answer, with \<open>responsive\<close> and \<open>ata_reads\<close> for the disk; the
  file system and the results of \<open>write\<close> for \<open>mkbootdisk\<close>; the keys that are typed; the padding bytes of a struct.

  \<^bold>\<open>Not modelled.\<close> The assembly code (\<open>bootstart.S\<close>, \<open>k-exception.S\<close>): the model begins where C code is entered, with the registers that it saves. Inline assembly for registers that the C code only
  sets once. The descriptor tables of \<open>segments_init\<close> are kept apart from the byte memory. The function \<open>kernel\<close> is modelled twice: \<open>kernel\<close> is its effect on memory and
  process descriptors, \<open>kernel_main\<close> adds the devices that it sets up, and \<open>kernel_main_eq\<close> relates the two. Hardware cursor and log output of \<open>exception\<close> are left out of its model. Formats that do not match their arguments are undefined; width and precision are unbounded integers, and argument lists are values, so that a missing \<open>va_copy\<close> would not show. The flags A and D that the
  processor sets in page-table entries are left out, and what is said about the memory of started programs does not depend on them. \<open>pageinfo[-1]\<close>, which fork writes, is a cell of its own. \<open>p-fork.c\<close> and \<open>p-forkexit.c\<close>: their
  forks and exits depend on the memory that is left, and lead into the failures that \<open>Kernel_Calls\<close> shows. \<open>build/qemu-nograb.c\<close> is not part of the system.
\<close>

end
